(* ===== verification/Muduo_Prelude.thy ===== *)
theory Muduo_Prelude
  imports Main "HOL-Library.Word" "HOL-Library.Monad_Syntax"
begin

text \<open>
  Shared vocabulary of the development: bytes and strings, the 64-bit arithmetic of \<open>size_t\<close>,
  half-open ranges of a byte array, and the machine representation of integers in memory.

  Conventions used by every theory:
  \<^item> a value of type \<open>char\<close> is one byte (HOL's \<open>char\<close> has exactly 256 values), so a
    \<open>string\<close> is both a C++ \<open>string\<close> and a range of a \<open>vector<char>\<close>;
  \<^item> an operation that can end the process (a failed \<open>assert\<close>, \<open>LOG_FATAL\<close>, an exception
    nobody catches, or an access outside an array) returns an \<open>option\<close>, and \<open>None\<close> is that
    abnormal end; \<open>Some\<close> of the new state is a normal return;
  \<^item> \<open>size_t\<close> is a \<open>nat\<close> below \<open>2 ^ 64\<close> and its additions and subtractions wrap
    (\<open>size_add\<close>, \<open>size_sub\<close>); \<open>int32_t\<close> and \<open>uint32_t\<close> are \<open>32 word\<close>.
\<close>

named_theorems size_arith \<open>wrap-around arithmetic that does not wrap\<close>
named_theorems wire_simps \<open>bytes of machine integers\<close>

type_synonym byte = char

abbreviation NUL :: byte where
  "NUL \<equiv> CHR 0x00"

section \<open>Arithmetic of \<open>size_t\<close>\<close>

definition size_add :: "nat \<Rightarrow> nat \<Rightarrow> nat" where
  "size_add a b = (a + b) mod 2 ^ 64"

definition size_sub :: "nat \<Rightarrow> nat \<Rightarrow> nat" where
  "size_sub a b = (a + 2 ^ 64 - b) mod 2 ^ 64"

lemma size_add_exact [size_arith]: "a + b < 18446744073709551616 \<Longrightarrow> size_add a b = a + b"
  by (simp add: size_add_def)

lemma size_sub_exact [size_arith]:
  assumes "b \<le> a" "a < 18446744073709551616"
  shows "size_sub a b = a - b"
proof -
  have "a + 2 ^ 64 - b = (a - b) + 2 ^ 64" using assms(1) by linarith
  moreover have "a - b < 2 ^ 64" using assms(2) by simp
  ultimately show ?thesis by (simp only: size_sub_def mod_add_self2 mod_less)
qed

lemma size_sub_self [simp]: "a < 18446744073709551616 \<Longrightarrow> size_sub a a = 0"
  by (simp add: size_sub_exact)

lemma size_add_wraps: "size_add (2 ^ 64 - 1) 8 = 7"
  by (simp add: size_add_def)

text \<open>Conversions between \<open>size_t\<close> and the 32-bit \<open>int\<close>.\<close>

definition int_of_size :: "nat \<Rightarrow> int" where
  "int_of_size n = signed_take_bit 31 (int n)"

definition size_of_int :: "int \<Rightarrow> nat" where
  "size_of_int i = nat (i mod 2 ^ 64)"

lemma int_of_size_exact [size_arith]: "n < 2 ^ 31 \<Longrightarrow> int_of_size n = int n"
  by (simp add: int_of_size_def signed_take_bit_int_eq_self)

lemma size_of_int_exact [size_arith]: "n < 2 ^ 64 \<Longrightarrow> size_of_int (int n) = n"
proof -
  assume "n < 2 ^ 64"
  then have "int n mod 2 ^ 64 = int n" by simp
  then show ?thesis by (simp add: size_of_int_def)
qed

section \<open>Ranges of a byte array\<close>

text \<open>The half-open range \<open>[i, j)\<close> of an array, and \<open>std::copy\<close> into an array at an offset.
  A copy that does not fit is undefined behaviour, hence \<open>None\<close>.\<close>

definition subrange :: "nat \<Rightarrow> nat \<Rightarrow> 'a list \<Rightarrow> 'a list" where
  "subrange i j xs = take (j - i) (drop i xs)"

definition copy_to :: "'a list \<Rightarrow> nat \<Rightarrow> 'a list \<Rightarrow> 'a list option" where
  "copy_to xs i ys =
     (if i + length ys \<le> length xs then Some (take i xs @ ys @ drop (i + length ys) xs) else None)"

lemma length_subrange: "j \<le> length xs \<Longrightarrow> length (subrange i j xs) = j - i"
  by (simp add: subrange_def)

lemma subrange_empty [simp]: "subrange i i xs = []"
  by (simp add: subrange_def)

lemma subrange_all [simp]: "subrange 0 (length xs) xs = xs"
  by (simp add: subrange_def)

lemma drop_subrange: "drop k (subrange i j xs) = subrange (i + k) j xs"
  by (simp add: subrange_def drop_take add.commute)

lemma take_subrange: "i + k \<le> j \<Longrightarrow> take k (subrange i j xs) = subrange i (i + k) xs"
  by (simp add: subrange_def min_def)

lemma subrange_take: "j \<le> n \<Longrightarrow> subrange i j (take n xs) = subrange i j xs"
  by (simp add: subrange_def drop_take min_def)

lemma take_drop_take: "i + k \<le> n \<Longrightarrow> take k (drop i (take n xs)) = take k (drop i xs)"
  by (simp add: drop_take min_def)

lemma subrange_append_left: "j \<le> length xs \<Longrightarrow> subrange i j (xs @ ys) = subrange i j xs"
  by (simp add: subrange_def)

lemma subrange_split: "i \<le> j \<Longrightarrow> j \<le> k \<Longrightarrow> subrange i j xs @ subrange j k xs = subrange i k xs"
proof -
  assume le: "i \<le> j" "j \<le> k"
  have "take (k - i) (drop i xs) = take ((j - i) + (k - j)) (drop i xs)" using le by simp
  also have "\<dots> = take (j - i) (drop i xs) @ take (k - j) (drop j xs)"
    using le by (simp only: take_add drop_drop) (simp add: add.commute)
  finally show ?thesis by (simp add: subrange_def)
qed

lemma copy_to_fits: "i + length ys \<le> length xs \<Longrightarrow> \<exists>zs. copy_to xs i ys = Some zs"
  by (simp add: copy_to_def)

lemma length_copy_to: "copy_to xs i ys = Some zs \<Longrightarrow> length zs = length xs"
  by (auto simp: copy_to_def split: if_splits)

lemma subrange_copy_to_same:
  "copy_to xs i ys = Some zs \<Longrightarrow> subrange i (i + length ys) zs = ys"
  by (auto simp: copy_to_def subrange_def split: if_splits)

lemma subrange_copy_to_before:
  "copy_to xs i ys = Some zs \<Longrightarrow> j \<le> i \<Longrightarrow> subrange k j zs = subrange k j xs"
  by (auto simp: copy_to_def subrange_def drop_take split: if_splits)

lemma subrange_copy_to_after:
  assumes "copy_to xs i ys = Some zs" "i + length ys \<le> k"
  shows "subrange k j zs = subrange k j xs"
proof -
  from assms(1) have le: "i + length ys \<le> length xs" and
    zs: "zs = take i xs @ ys @ drop (i + length ys) xs"
    by (auto simp: copy_to_def split: if_splits)
  have "drop k zs = drop k xs"
    using le assms(2) by (simp add: zs)
  then show ?thesis by (simp add: subrange_def)
qed

section \<open>Search in a byte range\<close>

text \<open>\<open>std::search\<close> and \<open>std::find\<close> return the end of the range when there is no match.\<close>

fun std_search :: "'a list \<Rightarrow> 'a list \<Rightarrow> nat" where
  "std_search pat [] = 0"
| "std_search pat (x # xs) =
     (if length pat \<le> length (x # xs) \<and> take (length pat) (x # xs) = pat then 0
      else Suc (std_search pat xs))"

fun std_find :: "'a \<Rightarrow> 'a list \<Rightarrow> nat" where
  "std_find c [] = 0"
| "std_find c (x # xs) = (if x = c then 0 else Suc (std_find c xs))"

lemma std_find_le: "std_find c xs \<le> length xs"
  by (induction xs) auto

lemma std_find_less: "std_find c xs < length xs \<longleftrightarrow> c \<in> set xs"
  by (induction xs) auto

lemma std_find_nth: "c \<in> set xs \<Longrightarrow> xs ! std_find c xs = c"
  by (induction xs) auto

lemma std_find_notin_take: "c \<notin> set (take (std_find c xs) xs)"
  by (induction xs) auto

lemma std_find_append: "c \<notin> set xs \<Longrightarrow> std_find c (xs @ ys) = length xs + std_find c ys"
  by (induction xs) auto

lemma std_search_le: "std_search pat xs \<le> length xs"
  by (induction xs) auto

lemma std_search_hit:
  assumes "std_search pat xs < length xs"
  shows "std_search pat xs + length pat \<le> length xs \<and>
    take (length pat) (drop (std_search pat xs) xs) = pat"
  using assms by (induction xs) (auto split: if_splits)

lemma std_search_append:
  "std_search pat xs < length xs \<Longrightarrow> std_search pat (xs @ ys) = std_search pat xs"
proof (induction xs)
  case (Cons x xs)
  show ?case
  proof (cases "length pat \<le> length (x # xs) \<and> take (length pat) (x # xs) = pat")
    case True
    then have "take (length pat) (x # xs @ ys) = pat"
      using take_append [of "length pat" "x # xs" ys] by simp
    with True show ?thesis by simp
  next
    case False
    with Cons.prems have less: "std_search pat xs < length xs"
      by (auto split: if_splits)
    then have fits: "length pat \<le> length (x # xs)" using std_search_hit [of pat xs] by simp
    then have "take (length pat) (x # xs @ ys) = take (length pat) (x # xs)"
      using take_append [of "length pat" "x # xs" ys] by simp
    with False fits have "take (length pat) (x # xs @ ys) \<noteq> pat" by simp
    then have "std_search pat (x # xs @ ys) = Suc (std_search pat (xs @ ys))"
      by (simp only: std_search.simps if_False simp_thms)
    moreover have "std_search pat (x # xs) = Suc (std_search pat xs)"
      by (simp only: std_search.simps False if_False)
    ultimately show ?thesis using Cons.IH [OF less] by simp
  qed
qed simp

lemma image_remove_key:
  assumes "\<And>y. y \<in> A \<Longrightarrow> y \<noteq> x \<Longrightarrow> f y \<noteq> f x"
  shows "f ` (A - {x}) = f ` A - {f x}"
proof
  show "f ` (A - {x}) \<subseteq> f ` A - {f x}" using assms by auto
  show "f ` A - {f x} \<subseteq> f ` (A - {x})" by auto
qed

lemma distinct_map_remove1: "distinct (map f xs) \<Longrightarrow> distinct (map f (remove1 x xs))"
  by (auto simp: distinct_map intro: inj_on_diff)

section \<open>Integers in memory\<close>

text \<open>
  The hosts the code runs on are little-endian: an integer variable lies in memory with its least
  significant byte first. \<open>bytes_le n w\<close> are the \<open>n\<close> bytes of \<open>w\<close> in that order,
  \<open>word_le\<close> reads them back (\<open>memcpy\<close> into a variable).
\<close>

definition byte_of :: "'a::len word \<Rightarrow> nat \<Rightarrow> byte" where
  "byte_of w k = char_of (unat (drop_bit (8 * k) w) mod 256)"

definition bytes_le :: "nat \<Rightarrow> 'a::len word \<Rightarrow> byte list" where
  "bytes_le n w = map (byte_of w) [0..<n]"

fun nat_le :: "byte list \<Rightarrow> nat" where
  "nat_le [] = 0"
| "nat_le (b # bs) = of_char b + 256 * nat_le bs"

definition word_le :: "byte list \<Rightarrow> 'a::len word" where
  "word_le bs = of_nat (nat_le bs)"

lemma length_bytes_le [simp]: "length (bytes_le n w) = n"
  by (simp add: bytes_le_def)

lemma of_char_less_256: "(of_char c :: nat) < 256"
  using of_char_mod_256 [of c, where 'a = nat] by (metis mod_less_divisor zero_less_numeral)

lemma nat_le_bound: "nat_le bs < 256 ^ length bs"
proof (induction bs)
  case (Cons b bs)
  have "(of_char b :: nat) < 256" by (rule of_char_less_256)
  with Cons have "of_char b + 256 * nat_le bs < 256 + 256 * (256 ^ length bs - 1)"
    by (intro add_less_le_mono mult_le_mono2) (auto simp: less_eq_Suc_le)
  also have "\<dots> = 256 ^ length (b # bs)" by (simp add: diff_mult_distrib2)
  finally show ?case by simp
qed simp

lemma nat_le_bytes_le: "nat_le (bytes_le n w) = unat w mod 256 ^ n"
proof -
  have step: "nat_le (map (\<lambda>k. char_of (m div 256 ^ k mod 256)) [0..<n]) = m mod 256 ^ n" for m n :: nat
  proof (induction n arbitrary: m)
    case (Suc n)
    have "map (\<lambda>k. char_of (m div 256 ^ k mod 256)) [0..<Suc n] =
      char_of (m mod 256) # map (\<lambda>k. char_of (m div 256 div 256 ^ k mod 256)) [0..<n]"
      by (simp add: upt_conv_Cons map_Suc_upt [symmetric] div_mult2_eq del: upt_Suc)
    then have "nat_le (map (\<lambda>k. char_of (m div 256 ^ k mod 256)) [0..<Suc n]) =
      m mod 256 + 256 * (m div 256 mod 256 ^ n)"
      using Suc.IH [of "m div 256"] by (simp del: upt_Suc)
    then show ?case by (simp add: mod_mult2_eq del: upt_Suc)
  qed simp
  have "byte_of w k = char_of (unat w div 256 ^ k mod 256)" for k
  proof -
    have "(2::nat) ^ (8 * k) = 256 ^ k" by (simp add: power_mult)
    moreover have "unat (drop_bit (8 * k) w) = unat w div 2 ^ (8 * k)"
      by (simp only: unat_drop_bit_eq flip: drop_bit_eq_div)
    ultimately show ?thesis by (simp add: byte_of_def)
  qed
  then have "bytes_le n w = map (\<lambda>k. char_of (unat w div 256 ^ k mod 256)) [0..<n]"
    by (simp add: bytes_le_def)
  then show ?thesis by (simp only: step)
qed

lemma bytes_le_nat_le:
  "length bs = n \<Longrightarrow> 8 * n \<le> LENGTH('a::len) \<Longrightarrow> bytes_le n (word_le bs :: 'a word) = bs"
proof -
  assume n: "length bs = n" and len: "8 * n \<le> LENGTH('a)"
  have inj: "nat_le xs = nat_le ys \<Longrightarrow> length xs = length ys \<Longrightarrow> xs = ys" for xs ys
  proof (induction xs arbitrary: ys)
    case (Cons x xs)
    then obtain y ys' where ys: "ys = y # ys'" by (cases ys) auto
    have eq: "of_char x + 256 * nat_le xs = of_char y + 256 * nat_le ys'" using Cons.prems ys by simp
    have "(of_char x :: nat) = of_char y"
      using arg_cong [OF eq, of "\<lambda>n. n mod 256"] by (simp add: of_char_less_256)
    moreover from this have "nat_le xs = nat_le ys'" using eq by simp
    ultimately show ?case using Cons ys by simp
  qed simp
  have "nat_le bs < 2 ^ LENGTH('a)"
  proof -
    have "nat_le bs < 256 ^ n" using nat_le_bound n by blast
    also have "(256::nat) ^ n = 2 ^ (8 * n)" by (simp add: power_mult)
    also have "\<dots> \<le> 2 ^ LENGTH('a)" using len by (rule power_increasing) simp
    finally show ?thesis .
  qed
  then have "unat (word_le bs :: 'a word) = nat_le bs"
    by (simp add: word_le_def unat_of_nat)
  then have "nat_le (bytes_le n (word_le bs :: 'a word)) = nat_le bs"
    using nat_le_bound [of bs] n by (simp add: nat_le_bytes_le)
  then show ?thesis using inj n by simp
qed

lemma word_le_bytes_le:
  "LENGTH('a::len) \<le> 8 * n \<Longrightarrow> word_le (bytes_le n (w :: 'a word)) = w"
proof -
  assume "LENGTH('a) \<le> 8 * n"
  then have "(2::nat) ^ LENGTH('a) \<le> 2 ^ (8 * n)" by (rule power_increasing) simp
  moreover have "unat w < 2 ^ LENGTH('a)" by (rule unsigned_less)
  ultimately have "unat w < 2 ^ (8 * n)" by (rule less_le_trans [rotated])
  then have "unat w < 256 ^ n" by (simp add: power_mult)
  then show ?thesis by (simp add: word_le_def nat_le_bytes_le)
qed

section \<open>Loops\<close>

text \<open>
  One iteration of a \<open>while\<close> loop ends the process, leaves the loop or goes round again.
  \<open>run_loop\<close> runs at most as many iterations as its fuel and keeps the three outcomes apart, so
  that a loop that never ends (\<open>OutOfFuel\<close> for every fuel) is not confused with an abort.
\<close>

datatype 's iter = Abort | Break 's | Again 's

datatype 's outcome = Aborted | Finished 's | OutOfFuel 's

fun run_loop :: "('s \<Rightarrow> 's iter) \<Rightarrow> nat \<Rightarrow> 's \<Rightarrow> 's outcome" where
  "run_loop body 0 s = OutOfFuel s"
| "run_loop body (Suc n) s =
     (case body s of Abort \<Rightarrow> Aborted | Break s' \<Rightarrow> Finished s' | Again s' \<Rightarrow> run_loop body n s')"

lemma run_loop_forever:
  assumes "P s" and "\<And>s. P s \<Longrightarrow> \<exists>s'. body s = Again s' \<and> P s'"
  shows "\<exists>s'. run_loop body n s = OutOfFuel s' \<and> P s'"
  using assms(1)
proof (induction n arbitrary: s)
  case (Suc n)
  from assms(2) [OF Suc.prems] obtain s' where "body s = Again s'" "P s'" by blast
  with Suc.IH show ?case by simp
qed simp

lemma run_loop_more_fuel:
  "run_loop body n s = Finished s' \<Longrightarrow> n \<le> m \<Longrightarrow> run_loop body m s = Finished s'"
proof (induction n arbitrary: s m)
  case (Suc n)
  then obtain m' where "m = Suc m'" by (cases m) auto
  with Suc show ?case by (auto split: iter.splits)
qed simp

text \<open>An \<open>assert\<close>: nothing happens when it holds, the process ends when it does not.\<close>

definition assertion :: "bool \<Rightarrow> unit option" where
  "assertion P = (if P then Some () else None)"

lemma assertion_simps [simp]:
  "assertion True = Some ()"
  "assertion False = None"
  "assertion P = None \<longleftrightarrow> \<not> P"
  "assertion P = Some u \<longleftrightarrow> P"
  by (simp_all add: assertion_def)

end
