(* ===== verification/Muduo_Interfaces.thy ===== *)
theory Muduo_Interfaces
  imports Muduo_Prelude
begin

text \<open>
  The contracts between components, as locales. Each is interpreted on the model's own
  definitions in the theory of the component that provides it; the lemmas proved here are the
  client side and hold for every provider.

  \<^item> \<open>byte_fifo\<close>: what the users of \<open>muduo::net::Buffer\<close> rely on: bytes come out in the
    order they went in. Provided by \<open>Muduo_Buffer\<close>.
  \<^item> \<open>stream_decoder\<close>: one iteration of a message loop over the front of an input buffer that
    neither looks past a complete message nor changes its mind when more bytes arrive. Provided by
    the codecs. The client result is independence of the TCP segmentation.
\<close>

section \<open>A byte queue\<close>

datatype fifo_op = Put "byte list" | Get nat

fun fifo_spec :: "byte list \<Rightarrow> fifo_op list \<Rightarrow> (byte list list \<times> byte list) option" where
  "fifo_spec xs [] = Some ([], xs)"
| "fifo_spec xs (Put d # ops) = fifo_spec (xs @ d) ops"
| "fifo_spec xs (Get n # ops) =
     (if n \<le> length xs
      then map_option (\<lambda>(out, ys). (take n xs # out, ys)) (fifo_spec (drop n xs) ops)
      else None)"

fun fifo_run :: "('b \<Rightarrow> byte list) \<Rightarrow> ('b \<Rightarrow> byte list \<Rightarrow> 'b option) \<Rightarrow> ('b \<Rightarrow> nat \<Rightarrow> 'b option) \<Rightarrow>
    'b \<Rightarrow> fifo_op list \<Rightarrow> (byte list list \<times> 'b) option" where
  "fifo_run cont app ret b [] = Some ([], b)"
| "fifo_run cont app ret b (Put d # ops) =
     do { b' \<leftarrow> app b d; fifo_run cont app ret b' ops }"
| "fifo_run cont app ret b (Get n # ops) =
     do { b' \<leftarrow> ret b n; (out, b'') \<leftarrow> fifo_run cont app ret b' ops;
          Some (take n (cont b) # out, b'') }"

definition put_total :: "fifo_op list \<Rightarrow> nat" where
  "put_total ops = sum_list (map (\<lambda>f. case f of Put d \<Rightarrow> length d | Get _ \<Rightarrow> 0) ops)"

lemma put_total_simps [simp]:
  "put_total [] = 0"
  "put_total (Put d # ops) = length d + put_total ops"
  "put_total (Get n # ops) = put_total ops"
  by (simp_all add: put_total_def)

locale byte_fifo =
  fixes inv :: "'b \<Rightarrow> bool"
    and contents :: "'b \<Rightarrow> byte list"
    and cap :: "'b \<Rightarrow> nat"
    and limit :: nat
    and app :: "'b \<Rightarrow> byte list \<Rightarrow> 'b option"
    and ret :: "'b \<Rightarrow> nat \<Rightarrow> 'b option"
  assumes app_law: "inv b \<Longrightarrow> cap b + length d \<le> limit \<Longrightarrow>
      \<exists>b'. app b d = Some b' \<and> inv b' \<and> contents b' = contents b @ d \<and> cap b' \<le> cap b + length d"
    and ret_law: "inv b \<Longrightarrow> n \<le> length (contents b) \<Longrightarrow>
      \<exists>b'. ret b n = Some b' \<and> inv b' \<and> contents b' = drop n (contents b) \<and> cap b' = cap b"
    and ret_abort: "inv b \<Longrightarrow> length (contents b) < n \<Longrightarrow> ret b n = None"
begin

text \<open>Every sequence of operations behaves like the list specification, aborts included.\<close>

lemma run_refines:
  "inv b \<Longrightarrow> cap b + put_total ops \<le> limit \<Longrightarrow>
   map_option (map_prod id contents) (fifo_run contents app ret b ops) = fifo_spec (contents b) ops"
proof (induction ops arbitrary: b)
  case (Cons f ops)
  show ?case
  proof (cases f)
    case (Put d)
    with Cons.prems have "inv b" "cap b + length d \<le> limit" by auto
    from app_law [OF this] obtain b' where b': "app b d = Some b'" "inv b'"
      "contents b' = contents b @ d" "cap b' \<le> cap b + length d" by blast
    with Cons.prems Put have "cap b' + put_total ops \<le> limit" by simp
    with Cons.IH [OF b'(2)] b' Put show ?thesis by simp
  next
    case (Get n)
    show ?thesis
    proof (cases "n \<le> length (contents b)")
      case True
      from ret_law [OF Cons.prems(1) True] obtain b' where b': "ret b n = Some b'" "inv b'"
        "contents b' = drop n (contents b)" "cap b' = cap b" by blast
      with Cons.prems Get have "cap b' + put_total ops \<le> limit" by simp
      from Cons.IH [OF b'(2) this] b'(1,3) Get True show ?thesis
        by (cases "fifo_run contents app ret b' ops") (auto simp: map_prod_def split_beta dest: sym)
    next
      case False
      then have "ret b n = None" using ret_abort [OF Cons.prems(1)] by simp
      with Get False show ?thesis by simp
    qed
  qed
qed simp

end

section \<open>A message loop over a byte stream\<close>

text \<open>
  \<open>step s xs\<close> is one iteration of a decoder whose input buffer holds \<open>xs\<close>: \<open>None\<close> leaves the
  loop, \<open>Some (s', out, k)\<close> consumes \<open>k\<close> bytes and goes on. \<open>drain\<close> is the whole loop; its
  fuel is the number of bytes, which is enough because each iteration consumes one at least.
\<close>

fun drain_fuel :: "('s \<Rightarrow> byte list \<Rightarrow> ('s \<times> 'o list \<times> nat) option) \<Rightarrow> nat \<Rightarrow> 's \<Rightarrow> byte list \<Rightarrow>
    's \<times> 'o list \<times> byte list" where
  "drain_fuel step 0 s xs = (s, [], xs)"
| "drain_fuel step (Suc n) s xs =
     (case step s xs of
        None \<Rightarrow> (s, [], xs)
      | Some (s', out, k) \<Rightarrow>
          (case drain_fuel step n s' (drop k xs) of (s'', out', ys) \<Rightarrow> (s'', out @ out', ys)))"

definition drain :: "('s \<Rightarrow> byte list \<Rightarrow> ('s \<times> 'o list \<times> nat) option) \<Rightarrow> 's \<Rightarrow> byte list \<Rightarrow>
    's \<times> 'o list \<times> byte list" where
  "drain step s xs = drain_fuel step (length xs) s xs"

text \<open>The stream arrives in chunks; after each chunk the loop runs on what is left and the chunk.\<close>

fun drain_chunks :: "('s \<Rightarrow> byte list \<Rightarrow> ('s \<times> 'o list \<times> nat) option) \<Rightarrow> 's \<Rightarrow> byte list \<Rightarrow>
    byte list list \<Rightarrow> 's \<times> 'o list \<times> byte list" where
  "drain_chunks step s rest [] = (s, [], rest)"
| "drain_chunks step s rest (c # cs) =
     (case drain step s (rest @ c) of (s', out, rest') \<Rightarrow>
      (case drain_chunks step s' rest' cs of (s'', out', rest'') \<Rightarrow> (s'', out @ out', rest'')))"

locale stream_decoder =
  fixes step :: "'s \<Rightarrow> byte list \<Rightarrow> ('s \<times> 'o list \<times> nat) option"
  assumes consumes: "step s xs = Some (s', out, k) \<Longrightarrow> 0 < k \<and> k \<le> length xs"
    and stable: "step s xs = Some r \<Longrightarrow> step s (xs @ ys) = Some r"
begin

lemma fuel_irrelevant:
  "length xs \<le> n \<Longrightarrow> length xs \<le> m \<Longrightarrow> drain_fuel step n s xs = drain_fuel step m s xs"
proof (induction n arbitrary: m s xs)
  case 0
  have "step s [] = None"
    using consumes [of s "[]"] by (cases "step s []") auto
  with 0 show ?case by (cases m) auto
next
  case (Suc n)
  show ?case
  proof (cases "step s xs")
    case None
    then show ?thesis by (cases m) auto
  next
    case (Some r)
    obtain s' out k where r: "r = (s', out, k)" by (cases r)
    from consumes [of s xs s' out k] Some r have k: "0 < k" "k \<le> length xs" by auto
    then obtain m' where m: "m = Suc m'" using Suc.prems by (cases m) auto
    have "drain_fuel step n s' (drop k xs) = drain_fuel step m' s' (drop k xs)"
      using Suc.prems k m by (intro Suc.IH) auto
    with Some r m show ?thesis by simp
  qed
qed

lemma drain_unfold:
  "drain step s xs =
     (case step s xs of
        None \<Rightarrow> (s, [], xs)
      | Some (s', out, k) \<Rightarrow>
          (case drain step s' (drop k xs) of (s'', out', ys) \<Rightarrow> (s'', out @ out', ys)))"
proof (cases "step s xs")
  case None
  then show ?thesis by (cases xs) (auto simp: drain_def)
next
  case (Some r)
  obtain s' out k where r: "r = (s', out, k)" by (cases r)
  from consumes [of s xs s' out k] Some r have k: "0 < k" "k \<le> length xs" by auto
  then obtain n where n: "length xs = Suc n" by (cases "length xs") auto
  have "drain_fuel step n s' (drop k xs) = drain step s' (drop k xs)"
    unfolding drain_def using k n by (intro fuel_irrelevant) auto
  then show ?thesis using Some r n by (simp add: drain_def)
qed

lemma drain_stops: "drain step s xs = (s', out, rest) \<Longrightarrow> step s' rest = None"
proof (induction "length xs" arbitrary: s xs s' out rest rule: less_induct)
  case less
  show ?case
  proof (cases "step s xs")
    case None
    with less.prems show ?thesis by (simp add: drain_unfold)
  next
    case (Some r)
    obtain t o1 k where r: "r = (t, o1, k)" by (cases r)
    obtain t' o2 ys where d: "drain step t (drop k xs) = (t', o2, ys)" by (cases "drain step t (drop k xs)")
    from consumes [of s xs t o1 k] Some r have "length (drop k xs) < length xs" by auto
    from less.hyps [OF this d] have "step t' ys = None" .
    with less.prems Some r d show ?thesis by (simp add: drain_unfold [of s xs])
  qed
qed

lemma drain_append:
  "drain step s (xs @ ys) =
     (case drain step s xs of (s', out, rest) \<Rightarrow>
      (case drain step s' (rest @ ys) of (s'', out', rest') \<Rightarrow> (s'', out @ out', rest')))"
proof (induction "length xs" arbitrary: s xs rule: less_induct)
  case less
  show ?case
  proof (cases "step s xs")
    case None
    then have "drain step s xs = (s, [], xs)" by (simp add: drain_unfold)
    then show ?thesis by simp
  next
    case (Some r)
    obtain t o1 k where r: "r = (t, o1, k)" by (cases r)
    from consumes [of s xs t o1 k] Some r have k: "0 < k" "k \<le> length xs" by auto
    then have IH: "drain step t (drop k xs @ ys) =
       (case drain step t (drop k xs) of (s', out, rest) \<Rightarrow>
        (case drain step s' (rest @ ys) of (s'', out', rest') \<Rightarrow> (s'', out @ out', rest')))"
      by (intro less.hyps) auto
    have "step s (xs @ ys) = Some (t, o1, k)" using stable Some r by blast
    with k have "drain step s (xs @ ys) =
        (case drain step t (drop k xs @ ys) of (s'', out', zs) \<Rightarrow> (s'', o1 @ out', zs))"
      by (simp add: drain_unfold [of s "xs @ ys"])
    moreover have "drain step s xs =
        (case drain step t (drop k xs) of (s'', out', zs) \<Rightarrow> (s'', o1 @ out', zs))"
      using Some r by (simp add: drain_unfold [of s xs])
    ultimately show ?thesis by (simp add: IH split: prod.splits)
  qed
qed

text \<open>Segmentation independence: only the concatenation of the chunks matters.\<close>

lemma chunks_concat: "step s rest = None \<Longrightarrow> drain_chunks step s rest cs = drain step s (rest @ concat cs)"
proof (induction cs arbitrary: s rest)
  case Nil
  then show ?case by (simp add: drain_unfold)
next
  case (Cons c cs)
  obtain s' out rest' where d: "drain step s (rest @ c) = (s', out, rest')"
    by (cases "drain step s (rest @ c)")
  have "drain_chunks step s' rest' cs = drain step s' (rest' @ concat cs)"
    using drain_stops [OF d] by (rule Cons.IH)
  then show ?case
    using d drain_append [of s "rest @ c" "concat cs"] by simp
qed

end

end
