(* ===== verification/Muduo_Endian.thy ===== *)
theory Muduo_Endian
  imports Muduo_Prelude
begin

text \<open>
  \<open>muduo/net/Endian.h\<close>: conversions between host and network byte order. \<open>htobe32\<close> and its
  kin reverse the bytes on the little-endian hosts modelled here (\<open>bytes_le\<close>). The lemmas
  show that they are inverse to each other and that the bytes that reach the wire are most
  significant first.
\<close>

definition swap_bytes :: "nat \<Rightarrow> 'a::len word \<Rightarrow> 'a word" where
  "swap_bytes n w = word_le (rev (bytes_le n w))"

definition hostToNetwork64 :: "64 word \<Rightarrow> 64 word" where
  "hostToNetwork64 host64 = swap_bytes 8 host64"

definition hostToNetwork32 :: "32 word \<Rightarrow> 32 word" where
  "hostToNetwork32 host32 = swap_bytes 4 host32"

definition hostToNetwork16 :: "16 word \<Rightarrow> 16 word" where
  "hostToNetwork16 host16 = swap_bytes 2 host16"

definition networkToHost64 :: "64 word \<Rightarrow> 64 word" where
  "networkToHost64 net64 = swap_bytes 8 net64"

definition networkToHost32 :: "32 word \<Rightarrow> 32 word" where
  "networkToHost32 net32 = swap_bytes 4 net32"

definition networkToHost16 :: "16 word \<Rightarrow> 16 word" where
  "networkToHost16 net16 = swap_bytes 2 net16"

lemma bytes_le_swap:
  "8 * n \<le> LENGTH('a::len) \<Longrightarrow> bytes_le n (swap_bytes n (w :: 'a word)) = rev (bytes_le n w)"
  by (simp add: swap_bytes_def bytes_le_nat_le)

lemma swap_bytes_swap_bytes:
  assumes "8 * n = LENGTH('a::len)"
  shows "swap_bytes n (swap_bytes n (w :: 'a word)) = w"
proof -
  have "bytes_le n (swap_bytes n w) = rev (bytes_le n w)"
    using assms by (intro bytes_le_swap) simp
  then show ?thesis
    using assms by (simp add: swap_bytes_def [of n "swap_bytes n w"] word_le_bytes_le)
qed

lemma networkToHost_hostToNetwork [wire_simps]:
  "networkToHost64 (hostToNetwork64 x) = x"
  "networkToHost32 (hostToNetwork32 y) = y"
  "networkToHost16 (hostToNetwork16 z) = z"
  by (simp_all add: networkToHost64_def hostToNetwork64_def networkToHost32_def
      hostToNetwork32_def networkToHost16_def hostToNetwork16_def swap_bytes_swap_bytes)

text \<open>The bytes of a value on the wire: big-endian.\<close>

definition be_bytes :: "nat \<Rightarrow> 'a::len word \<Rightarrow> byte list" where
  "be_bytes n w = rev (bytes_le n w)"

lemma length_be_bytes [simp]: "length (be_bytes n w) = n"
  by (simp add: be_bytes_def)

lemma wire_bytes [wire_simps]:
  "bytes_le 8 (hostToNetwork64 x) = be_bytes 8 x"
  "bytes_le 4 (hostToNetwork32 y) = be_bytes 4 y"
  "bytes_le 2 (hostToNetwork16 z) = be_bytes 2 z"
  by (simp_all add: hostToNetwork64_def hostToNetwork32_def hostToNetwork16_def be_bytes_def
      bytes_le_swap)

lemma read_wire [wire_simps]:
  "networkToHost32 (word_le (be_bytes 4 y)) = y"
  "networkToHost16 (word_le (be_bytes 2 z)) = z"
  by (simp_all add: networkToHost32_def networkToHost16_def be_bytes_def swap_bytes_def [symmetric]
      swap_bytes_swap_bytes)

lemma be_bytes_32:
  "be_bytes 4 (x :: 32 word) =
     map char_of [unat x div 16777216 mod 256, unat x div 65536 mod 256, unat x div 256 mod 256,
       unat x mod 256]"
  by (simp add: be_bytes_def bytes_le_def byte_of_def upt_rec unat_drop_bit_eq)
    (simp add: drop_bit_eq_div)

end
