(* ===== verification/Muduo_Buffer.thy ===== *)
theory Muduo_Buffer
  imports Muduo_Interfaces Muduo_Endian
begin

text \<open>
  \<open>muduo::net::Buffer\<close> (\<open>muduo/net/Buffer.h\<close>, \<open>muduo/net/Buffer.cc\<close>): the application-level
  input and output buffer of every connection. The state is the vector and its two indices; a
  pointer into the vector is its offset from \<open>begin()\<close>; a \<open>(const char*, size_t)\<close> argument is
  the list of the bytes that can be read through the pointer, and the length. \<open>None\<close> is a failed
  \<open>assert\<close>, \<open>std::length_error\<close> from the vector, or an access outside of it.

  The abstraction \<open>contents\<close> is the readable range. The lemmas show that each operation acts on it
  as on a list, that no assertion inside the buffer fails, that integers travel in network byte order,
  and that the buffer is a \<open>byte_fifo\<close>.
\<close>

section \<open>State and operations\<close>

record buffer =
  bufData :: "byte list"
  readerIndex :: nat
  writerIndex :: nat

text \<open>A \<open>StringPiece\<close>: what can be read through its pointer, and its \<open>int\<close> length.\<close>

record string_piece =
  spData :: "byte list"
  spLength :: int

definition kCheapPrepend :: nat where
  "kCheapPrepend = 8"

definition kInitialSize :: nat where
  "kInitialSize = 1024"

definition kCRLF :: string where
  "kCRLF = [CHR 0x0D, CHR 0x0A]"

text \<open>\<open>std::vector<char>::max_size()\<close>.\<close>

definition vector_max :: nat where
  "vector_max = 2 ^ 63 - 1"

definition vector_resize :: "byte list \<Rightarrow> nat \<Rightarrow> byte list option" where
  "vector_resize v n =
     (if n > vector_max then None else Some (take n v @ replicate (n - length v) NUL))"

definition Buffer_new :: buffer where
  "Buffer_new = \<lparr>bufData = replicate (kCheapPrepend + kInitialSize) NUL,
     readerIndex = kCheapPrepend, writerIndex = kCheapPrepend\<rparr>"

definition readableBytes :: "buffer \<Rightarrow> nat" where
  "readableBytes b = size_sub (writerIndex b) (readerIndex b)"

definition writableBytes :: "buffer \<Rightarrow> nat" where
  "writableBytes b = size_sub (length (bufData b)) (writerIndex b)"

definition prependableBytes :: "buffer \<Rightarrow> nat" where
  "prependableBytes b = readerIndex b"

definition peek :: "buffer \<Rightarrow> nat" where
  "peek b = readerIndex b"

definition beginWrite :: "buffer \<Rightarrow> nat" where
  "beginWrite b = writerIndex b"

definition findCRLF :: "buffer \<Rightarrow> nat option" where
  "findCRLF b =
     (let crlf = peek b + std_search kCRLF (subrange (peek b) (beginWrite b) (bufData b))
      in if crlf = beginWrite b then None else Some crlf)"

definition findCRLF_from :: "buffer \<Rightarrow> nat \<Rightarrow> nat option option" where
  "findCRLF_from b start =
     (if peek b \<le> start \<and> start \<le> beginWrite b
      then let crlf = start + std_search kCRLF (subrange start (beginWrite b) (bufData b))
           in Some (if crlf = beginWrite b then None else Some crlf)
      else None)"

definition retrieveAll :: "buffer \<Rightarrow> buffer" where
  "retrieveAll b = b\<lparr>readerIndex := kCheapPrepend, writerIndex := kCheapPrepend\<rparr>"

definition retrieve :: "buffer \<Rightarrow> nat \<Rightarrow> buffer option" where
  "retrieve b len =
     (if len \<le> readableBytes b
      then Some (if len < readableBytes b
                 then b\<lparr>readerIndex := size_add (readerIndex b) len\<rparr>
                 else retrieveAll b)
      else None)"

definition retrieveUntil :: "buffer \<Rightarrow> nat \<Rightarrow> buffer option" where
  "retrieveUntil b end =
     (if peek b \<le> end \<and> end \<le> beginWrite b then retrieve b (end - peek b) else None)"

definition retrieveInt32 :: "buffer \<Rightarrow> buffer option" where
  "retrieveInt32 b = retrieve b 4"

definition retrieveInt16 :: "buffer \<Rightarrow> buffer option" where
  "retrieveInt16 b = retrieve b 2"

definition retrieveInt8 :: "buffer \<Rightarrow> buffer option" where
  "retrieveInt8 b = retrieve b 1"

definition retrieveAsString :: "buffer \<Rightarrow> nat \<Rightarrow> (string \<times> buffer) option" where
  "retrieveAsString b len =
     (if len \<le> readableBytes b
      then do { b' \<leftarrow> retrieve b len; Some (subrange (peek b) (peek b + len) (bufData b), b') }
      else None)"

definition retrieveAllAsString :: "buffer \<Rightarrow> (string \<times> buffer) option" where
  "retrieveAllAsString b = retrieveAsString b (readableBytes b)"

definition toStringPiece :: "buffer \<Rightarrow> string_piece" where
  "toStringPiece b =
     \<lparr>spData = drop (peek b) (bufData b), spLength = int_of_size (readableBytes b)\<rparr>"

definition makeSpace :: "buffer \<Rightarrow> nat \<Rightarrow> buffer option" where
  "makeSpace b len =
     (if size_add (writableBytes b) (prependableBytes b) < size_add len kCheapPrepend
      then do { v \<leftarrow> vector_resize (bufData b) (size_add (writerIndex b) len);
                Some (b\<lparr>bufData := v\<rparr>) }
      else if kCheapPrepend < readerIndex b
      then do { v \<leftarrow> copy_to (bufData b) kCheapPrepend
                       (subrange (readerIndex b) (writerIndex b) (bufData b));
                Some (b\<lparr>bufData := v, readerIndex := kCheapPrepend,
                        writerIndex := size_add kCheapPrepend (readableBytes b)\<rparr>) }
      else None)"

definition ensureWritableBytes :: "buffer \<Rightarrow> nat \<Rightarrow> buffer option" where
  "ensureWritableBytes b len =
     do { b' \<leftarrow> (if writableBytes b < len then makeSpace b len else Some b);
          if len \<le> writableBytes b' then Some b' else None }"

definition hasWritten :: "buffer \<Rightarrow> nat \<Rightarrow> buffer" where
  "hasWritten b len = b\<lparr>writerIndex := size_add (writerIndex b) len\<rparr>"

definition append_data :: "buffer \<Rightarrow> byte list \<Rightarrow> nat \<Rightarrow> buffer option" where
  "append_data b data len =
     do { b' \<leftarrow> ensureWritableBytes b len;
          v \<leftarrow> (if len \<le> length data then copy_to (bufData b') (beginWrite b') (take len data)
               else None);
          Some (hasWritten (b'\<lparr>bufData := v\<rparr>) len) }"

definition append_piece :: "buffer \<Rightarrow> string_piece \<Rightarrow> buffer option" where
  "append_piece b str = append_data b (spData str) (size_of_int (spLength str))"

definition appendInt32 :: "buffer \<Rightarrow> 32 word \<Rightarrow> buffer option" where
  "appendInt32 b x = append_data b (bytes_le 4 (hostToNetwork32 x)) 4"

definition appendInt16 :: "buffer \<Rightarrow> 16 word \<Rightarrow> buffer option" where
  "appendInt16 b x = append_data b (bytes_le 2 (hostToNetwork16 x)) 2"

definition appendInt8 :: "buffer \<Rightarrow> 8 word \<Rightarrow> buffer option" where
  "appendInt8 b x = append_data b (bytes_le 1 x) 1"

definition peekInt32 :: "buffer \<Rightarrow> 32 word option" where
  "peekInt32 b =
     (if readableBytes b \<ge> 4
      then Some (networkToHost32 (word_le (subrange (peek b) (peek b + 4) (bufData b)))) else None)"

definition peekInt16 :: "buffer \<Rightarrow> 16 word option" where
  "peekInt16 b =
     (if readableBytes b \<ge> 2
      then Some (networkToHost16 (word_le (subrange (peek b) (peek b + 2) (bufData b)))) else None)"

definition peekInt8 :: "buffer \<Rightarrow> 8 word option" where
  "peekInt8 b =
     (if readableBytes b \<ge> 1
      then Some (word_le (subrange (peek b) (peek b + 1) (bufData b))) else None)"

definition readInt32 :: "buffer \<Rightarrow> (32 word \<times> buffer) option" where
  "readInt32 b = do { result \<leftarrow> peekInt32 b; b' \<leftarrow> retrieveInt32 b; Some (result, b') }"

definition readInt16 :: "buffer \<Rightarrow> (16 word \<times> buffer) option" where
  "readInt16 b = do { result \<leftarrow> peekInt16 b; b' \<leftarrow> retrieveInt16 b; Some (result, b') }"

definition readInt8 :: "buffer \<Rightarrow> (8 word \<times> buffer) option" where
  "readInt8 b = do { result \<leftarrow> peekInt8 b; b' \<leftarrow> retrieveInt8 b; Some (result, b') }"

definition prepend_data :: "buffer \<Rightarrow> byte list \<Rightarrow> nat \<Rightarrow> buffer option" where
  "prepend_data b data len =
     (if len \<le> prependableBytes b \<and> len \<le> length data
      then let r = size_sub (readerIndex b) len
           in do { v \<leftarrow> copy_to (bufData b) r (take len data);
                   Some (b\<lparr>bufData := v, readerIndex := r\<rparr>) }
      else None)"

definition prependInt32 :: "buffer \<Rightarrow> 32 word \<Rightarrow> buffer option" where
  "prependInt32 b x = prepend_data b (bytes_le 4 (hostToNetwork32 x)) 4"

definition prependInt16 :: "buffer \<Rightarrow> 16 word \<Rightarrow> buffer option" where
  "prependInt16 b x = prepend_data b (bytes_le 2 (hostToNetwork16 x)) 2"

definition prependInt8 :: "buffer \<Rightarrow> 8 word \<Rightarrow> buffer option" where
  "prependInt8 b x = prepend_data b (bytes_le 1 x) 1"

definition shrink :: "buffer \<Rightarrow> nat \<Rightarrow> buffer option" where
  "shrink b reserve =
     do { other \<leftarrow> ensureWritableBytes Buffer_new (size_add (readableBytes b) reserve);
          append_piece other (toStringPiece b) }"

text \<open>
  \<open>readFd\<close>: the argument is what \<open>readv(2)\<close> did, \<open>Inl errno\<close> or \<open>Inr\<close> of the bytes it
  delivered. \<open>readv\<close> fills the first block (the writable range) before the second (the 65536 bytes
  of \<open>extrabuf\<close>) and delivers no more than both hold; \<open>readv_ok\<close> states that.
\<close>

definition kExtraBuf :: nat where
  "kExtraBuf = 65536"

definition readv_ok :: "buffer \<Rightarrow> int + byte list \<Rightarrow> bool" where
  "readv_ok b rv = (case rv of Inl e \<Rightarrow> True | Inr d \<Rightarrow> length d \<le> writableBytes b + kExtraBuf)"

definition readFd :: "buffer \<Rightarrow> int + byte list \<Rightarrow> (int \<times> int option \<times> buffer) option" where
  "readFd b rv =
     (let writable = writableBytes b in
      case rv of
        Inl e \<Rightarrow> Some (-1, Some e, b)
      | Inr d \<Rightarrow>
          do { v \<leftarrow> copy_to (bufData b) (writerIndex b) (take writable d);
               b' \<leftarrow> (if length d \<le> writable
                     then Some (b\<lparr>bufData := v,
                                  writerIndex := size_add (writerIndex b) (length d)\<rparr>)
                     else append_data (b\<lparr>bufData := v, writerIndex := length v\<rparr>)
                            (drop writable d) (size_sub (length d) writable));
               Some (int (length d), None, b') })"

section \<open>Invariant and abstraction\<close>

definition buffer_inv :: "buffer \<Rightarrow> bool" where
  "buffer_inv b \<longleftrightarrow>
     readerIndex b \<le> writerIndex b \<and> writerIndex b \<le> length (bufData b) \<and>
     kCheapPrepend \<le> length (bufData b) \<and> length (bufData b) \<le> vector_max"

definition contents :: "buffer \<Rightarrow> byte list" where
  "contents b = subrange (readerIndex b) (writerIndex b) (bufData b)"

definition buffer_size :: "buffer \<Rightarrow> nat" where
  "buffer_size b = length (bufData b)"

lemmas buffer_consts = kCheapPrepend_def kInitialSize_def vector_max_def

lemma buffer_invD:
  assumes "buffer_inv b"
  shows "readerIndex b \<le> writerIndex b" "writerIndex b \<le> length (bufData b)"
    "8 \<le> length (bufData b)" "length (bufData b) < 9223372036854775808"
  using assms by (auto simp: buffer_inv_def buffer_consts)

lemma buffer_sizes:
  assumes "buffer_inv b"
  shows "readableBytes b = writerIndex b - readerIndex b"
    and "writableBytes b = length (bufData b) - writerIndex b"
  using buffer_invD [OF assms]
  by (auto simp: readableBytes_def writableBytes_def size_sub_exact)

lemma length_contents: "buffer_inv b \<Longrightarrow> length (contents b) = readableBytes b"
  using buffer_invD [of b] by (simp add: contents_def length_subrange buffer_sizes)

lemma Buffer_new_inv [simp]: "buffer_inv Buffer_new"
  by (simp add: buffer_inv_def Buffer_new_def buffer_consts)

lemma Buffer_new_contents [simp]: "contents Buffer_new = []"
  by (simp add: contents_def Buffer_new_def)

lemma Buffer_new_writable [simp]: "writableBytes Buffer_new = kInitialSize"
  by (simp add: buffer_sizes) (simp add: Buffer_new_def buffer_consts)

lemma Buffer_new_size [simp]: "buffer_size Buffer_new = 1032"
  by (simp add: buffer_size_def Buffer_new_def buffer_consts)

lemma retrieveAll_inv: "buffer_inv b \<Longrightarrow> buffer_inv (retrieveAll b)"
  by (simp add: buffer_inv_def retrieveAll_def)

lemma retrieveAll_contents [simp]: "contents (retrieveAll b) = []"
  by (simp add: contents_def retrieveAll_def)

lemma retrieve_ok:
  assumes inv: "buffer_inv b" and len: "len \<le> length (contents b)"
  shows "\<exists>b'. retrieve b len = Some b' \<and> buffer_inv b' \<and> contents b' = drop len (contents b) \<and>
    buffer_size b' = buffer_size b"
proof (cases "len < readableBytes b")
  case True
  note I = buffer_invD [OF inv] and S = buffer_sizes [OF inv]
  have add: "size_add (readerIndex b) len = readerIndex b + len"
    using True I S by (intro size_add_exact) linarith
  have "retrieve b len = Some (b\<lparr>readerIndex := readerIndex b + len\<rparr>)"
    using True by (simp add: retrieve_def add)
  moreover have "buffer_inv (b\<lparr>readerIndex := readerIndex b + len\<rparr>)"
    using inv True S by (auto simp: buffer_inv_def)
  ultimately show ?thesis
    by (simp add: contents_def drop_subrange buffer_size_def)
next
  case False
  then have "len = readableBytes b" using len length_contents [OF inv] by simp
  then show ?thesis using inv len
    by (simp add: retrieve_def retrieveAll_inv length_contents buffer_size_def)
       (simp add: retrieveAll_def)
qed

lemma retrieve_abort:
  "buffer_inv b \<Longrightarrow> length (contents b) < len \<Longrightarrow> retrieve b len = None"
  by (simp add: retrieve_def length_contents)

section \<open>Making room and appending\<close>

text \<open>
  \<open>makeSpace\<close> keeps the readable bytes and yields the room asked for. Its assertion
  \<open>kCheapPrepend < readerIndex_\<close> follows from the two guards on the way to it.
\<close>

lemma makeSpace_ok:
  assumes inv: "buffer_inv b" and room: "writableBytes b < len"
    and lim: "writerIndex b + len \<le> vector_max"
  shows "\<exists>b'. makeSpace b len = Some b' \<and> buffer_inv b' \<and> contents b' = contents b \<and>
    len \<le> writableBytes b' \<and> buffer_size b' \<le> buffer_size b + len"
proof -
  note I = buffer_invD [OF inv] and S = buffer_sizes [OF inv]
  have lim': "writerIndex b + len < 9223372036854775808" using lim by (simp add: vector_max_def)
  have lhs: "size_add (writableBytes b) (prependableBytes b) = writableBytes b + readerIndex b"
    using I S by (simp add: size_add_exact prependableBytes_def)
  have rhs: "size_add len kCheapPrepend = len + 8"
    using lim' by (simp add: size_add_exact buffer_consts)
  show ?thesis
  proof (cases "writableBytes b + readerIndex b < len + 8")
    case True
    let ?v = "bufData b @ replicate (writerIndex b + len - length (bufData b)) NUL"
    let ?b = "b\<lparr>bufData := ?v\<rparr>"
    have res: "vector_resize (bufData b) (size_add (writerIndex b) len) = Some ?v"
      using lim lim' room S I by (simp add: vector_resize_def size_add_exact)
    have inv': "buffer_inv ?b"
      using inv lim room S by (auto simp: buffer_inv_def)
    have "contents ?b = contents b" using I by (simp add: contents_def subrange_append_left)
    moreover have "writableBytes ?b = len"
      using buffer_sizes(2) [OF inv'] room S I by simp
    moreover have "buffer_size ?b \<le> buffer_size b + len"
      using I room S by (simp add: buffer_size_def)
    ultimately show ?thesis
      using True inv' by (simp add: makeSpace_def lhs rhs res)
  next
    case False
    with room have r8: "8 < readerIndex b" by linarith
    let ?c = "subrange (readerIndex b) (writerIndex b) (bufData b)"
    have lc: "length ?c = writerIndex b - readerIndex b" using I by (simp add: length_subrange)
    with I r8 have fit: "8 + length ?c \<le> length (bufData b)" by linarith
    then obtain v where v: "copy_to (bufData b) 8 ?c = Some v" using copy_to_fits by blast
    have lv: "length v = length (bufData b)" using v by (rule length_copy_to)
    have add: "size_add 8 (readableBytes b) = 8 + length ?c"
      using S I lc by (simp add: size_add_exact)
    let ?b = "b\<lparr>bufData := v, readerIndex := 8, writerIndex := 8 + length ?c\<rparr>"
    have eq: "makeSpace b len = Some ?b"
      unfolding makeSpace_def lhs rhs using False r8 v by (simp add: add kCheapPrepend_def)
    have inv': "buffer_inv ?b" using inv fit lv by (simp add: buffer_inv_def buffer_consts)
    have "contents ?b = contents b"
      using subrange_copy_to_same [OF v] by (simp add: contents_def)
    moreover have "len \<le> writableBytes ?b"
      using buffer_sizes(2) [OF inv'] False S I r8 lv lc by simp
    ultimately show ?thesis using eq inv' lv by (simp add: buffer_size_def)
  qed
qed

lemma ensureWritableBytes_ok:
  assumes inv: "buffer_inv b" and lim: "buffer_size b + len \<le> vector_max"
  shows "\<exists>b'. ensureWritableBytes b len = Some b' \<and> buffer_inv b' \<and> contents b' = contents b \<and>
    len \<le> writableBytes b' \<and> buffer_size b' \<le> buffer_size b + len"
proof (cases "writableBytes b < len")
  case True
  have "writerIndex b + len \<le> vector_max"
    using lim buffer_invD(2) [OF inv] by (simp add: buffer_size_def)
  from makeSpace_ok [OF inv True this] show ?thesis
    using True by (auto simp: ensureWritableBytes_def)
next
  case False
  then show ?thesis using inv by (simp add: ensureWritableBytes_def)
qed

lemma write_at_end:
  assumes inv: "buffer_inv b" and room: "length d \<le> writableBytes b"
  shows "\<exists>v. copy_to (bufData b) (writerIndex b) d = Some v \<and>
    size_add (writerIndex b) (length d) = writerIndex b + length d \<and>
    buffer_inv (b\<lparr>bufData := v, writerIndex := writerIndex b + length d\<rparr>) \<and>
    contents (b\<lparr>bufData := v, writerIndex := writerIndex b + length d\<rparr>) = contents b @ d \<and>
    length v = length (bufData b)"
proof -
  note I = buffer_invD [OF inv] and S = buffer_sizes [OF inv]
  from room S I have fit: "writerIndex b + length d \<le> length (bufData b)" by linarith
  then obtain v where v: "copy_to (bufData b) (writerIndex b) d = Some v"
    using copy_to_fits by blast
  have lv: "length v = length (bufData b)" using v by (rule length_copy_to)
  have "subrange (readerIndex b) (writerIndex b + length d) v =
    subrange (readerIndex b) (writerIndex b) v @ subrange (writerIndex b) (writerIndex b + length d) v"
    using I by (intro subrange_split [symmetric]) auto
  also have "\<dots> = contents b @ d"
    using subrange_copy_to_before [OF v, of "writerIndex b"] subrange_copy_to_same [OF v]
    by (simp add: contents_def)
  finally have c: "subrange (readerIndex b) (writerIndex b + length d) v = contents b @ d" .
  have "size_add (writerIndex b) (length d) = writerIndex b + length d"
    using fit I by (intro size_add_exact) linarith
  then show ?thesis using v lv c fit inv I
    by (intro exI [of _ v]) (simp add: buffer_inv_def contents_def)
qed

lemma append_ok:
  assumes inv: "buffer_inv b" and lim: "buffer_size b + length d \<le> vector_max"
  shows "\<exists>b'. append_data b d (length d) = Some b' \<and> buffer_inv b' \<and> contents b' = contents b @ d \<and>
    buffer_size b' \<le> buffer_size b + length d"
proof -
  from ensureWritableBytes_ok [OF inv lim] obtain e where e:
    "ensureWritableBytes b (length d) = Some e" "buffer_inv e" "contents e = contents b"
    "length d \<le> writableBytes e" "buffer_size e \<le> buffer_size b + length d" by blast
  from write_at_end [OF e(2) e(4)] obtain v where v:
    "copy_to (bufData e) (writerIndex e) d = Some v"
    "size_add (writerIndex e) (length d) = writerIndex e + length d"
    "buffer_inv (e\<lparr>bufData := v, writerIndex := writerIndex e + length d\<rparr>)"
    "contents (e\<lparr>bufData := v, writerIndex := writerIndex e + length d\<rparr>) = contents e @ d"
    "length v = length (bufData e)" by blast
  show ?thesis using e v
    by (simp add: append_data_def beginWrite_def hasWritten_def buffer_size_def)
qed

lemma append_take:
  "len \<le> length d \<Longrightarrow> append_data b d len = append_data b (take len d) len"
  by (simp add: append_data_def)

lemma append_piece_ok:
  assumes "buffer_inv b" "spLength str = int n" "n \<le> length (spData str)"
    "buffer_size b + n \<le> vector_max"
  shows "\<exists>b'. append_piece b str = Some b' \<and> buffer_inv b' \<and>
    contents b' = contents b @ take n (spData str) \<and> buffer_size b' \<le> buffer_size b + n"
proof -
  have "n < 2 ^ 64" using assms(4) by (simp add: vector_max_def)
  then have "append_piece b str = append_data b (take n (spData str)) (length (take n (spData str)))"
    using assms append_take [OF assms(3), of b] by (simp add: append_piece_def size_of_int_exact)
  then show ?thesis using append_ok [OF assms(1), of "take n (spData str)"] assms by simp
qed

lemma prepend_ok:
  assumes inv: "buffer_inv b" and room: "length d \<le> prependableBytes b"
  shows "\<exists>b'. prepend_data b d (length d) = Some b' \<and> buffer_inv b' \<and> contents b' = d @ contents b \<and>
    buffer_size b' = buffer_size b \<and> prependableBytes b' = prependableBytes b - length d"
proof -
  note I = buffer_invD [OF inv]
  let ?r = "readerIndex b - length d"
  from room have r: "length d \<le> readerIndex b" by (simp add: prependableBytes_def)
  then have sub: "size_sub (readerIndex b) (length d) = ?r"
    using I by (intro size_sub_exact) linarith+
  have "?r + length d \<le> length (bufData b)" using r I by linarith
  then obtain v where v: "copy_to (bufData b) ?r d = Some v" using copy_to_fits by blast
  have lv: "length v = length (bufData b)" using v by (rule length_copy_to)
  have "subrange ?r (writerIndex b) v = subrange ?r (readerIndex b) v @ subrange (readerIndex b) (writerIndex b) v"
    using I by (intro subrange_split [symmetric]) auto
  also have "\<dots> = d @ contents b"
    using subrange_copy_to_same [OF v] subrange_copy_to_after [OF v, of "readerIndex b"] r
    by (simp add: contents_def)
  finally have c: "subrange ?r (writerIndex b) v = d @ contents b" .
  let ?b = "b\<lparr>bufData := v, readerIndex := ?r\<rparr>"
  have "prepend_data b d (length d) = Some ?b"
    using r v sub by (simp add: prepend_data_def prependableBytes_def)
  moreover have "buffer_inv ?b" using inv lv by (auto simp: buffer_inv_def)
  moreover have "contents ?b = d @ contents b" using c by (simp add: contents_def)
  ultimately show ?thesis using lv by (simp add: buffer_size_def prependableBytes_def)
qed

lemma prepend_abort: "prependableBytes b < length d \<Longrightarrow> prepend_data b d (length d) = None"
  by (simp add: prepend_data_def)

section \<open>Integers on the wire\<close>

lemma append_int_wire:
  "appendInt32 b x = append_data b (be_bytes 4 x) (length (be_bytes 4 x))"
  "appendInt16 b y = append_data b (be_bytes 2 y) (length (be_bytes 2 y))"
  "appendInt8 b z = append_data b (be_bytes 1 z) (length (be_bytes 1 z))"
  "prependInt32 b x = prepend_data b (be_bytes 4 x) (length (be_bytes 4 x))"
  "prependInt16 b y = prepend_data b (be_bytes 2 y) (length (be_bytes 2 y))"
  "prependInt8 b z = prepend_data b (be_bytes 1 z) (length (be_bytes 1 z))"
  by (simp_all add: appendInt32_def appendInt16_def appendInt8_def prependInt32_def
      prependInt16_def prependInt8_def wire_bytes) (simp_all add: be_bytes_def bytes_le_def)

lemma front_bytes:
  assumes "buffer_inv b" "n \<le> length (contents b)"
  shows "subrange (peek b) (peek b + n) (bufData b) = take n (contents b)"
proof -
  have "readerIndex b + n \<le> writerIndex b"
    using assms buffer_invD [OF assms(1)] by (simp add: length_contents buffer_sizes)
  then show ?thesis by (simp add: contents_def peek_def take_subrange)
qed

text \<open>What the front of the contents decodes to.\<close>

definition be_int32 :: "byte list \<Rightarrow> 32 word" where
  "be_int32 xs = networkToHost32 (word_le (take 4 xs))"

lemma be_int32_be_bytes [wire_simps]: "be_int32 (be_bytes 4 x @ ys) = x"
  by (simp add: be_int32_def read_wire)

lemma be_int32_prefix: "4 \<le> length xs \<Longrightarrow> be_int32 (xs @ ys) = be_int32 xs"
  by (simp add: be_int32_def)

lemma peekInt32_eq:
  assumes "buffer_inv b"
  shows "peekInt32 b = (if 4 \<le> length (contents b) then Some (be_int32 (contents b)) else None)"
  using assms by (simp add: peekInt32_def length_contents [symmetric] front_bytes be_int32_def)

lemma readInt32_ok:
  assumes "buffer_inv b" "4 \<le> length (contents b)"
  shows "\<exists>b'. readInt32 b = Some (be_int32 (contents b), b') \<and> buffer_inv b' \<and>
    contents b' = drop 4 (contents b)"
  using retrieve_ok [OF assms] assms
  by (auto simp: readInt32_def peekInt32_eq retrieveInt32_def)

lemma peekInt16_eq:
  assumes "buffer_inv b"
  shows "peekInt16 b = (if 2 \<le> length (contents b)
    then Some (networkToHost16 (word_le (take 2 (contents b)))) else None)"
  using front_bytes [OF assms, of 2] assms by (simp add: peekInt16_def length_contents [symmetric])

lemma peekInt8_eq:
  assumes "buffer_inv b"
  shows "peekInt8 b = (if 1 \<le> length (contents b) then Some (word_le (take 1 (contents b))) else None)"
  using front_bytes [OF assms, of 1] assms by (simp add: peekInt8_def length_contents [symmetric])

lemma word_le_be_bytes_1 [wire_simps]: "word_le (be_bytes 1 (z :: 8 word)) = z"
proof -
  have "be_bytes 1 z = bytes_le 1 z" by (simp add: be_bytes_def bytes_le_def)
  then show ?thesis using word_le_bytes_le [of 1 z] by simp
qed

section \<open>The interface\<close>

interpretation buf_fifo: byte_fifo buffer_inv contents buffer_size vector_max
  "\<lambda>b d. append_data b d (length d)" retrieve
  by unfold_locales (use append_ok retrieve_ok retrieve_abort in auto)

section \<open>Searching, reading from a socket, shrinking\<close>

lemma findCRLF_eq:
  assumes inv: "buffer_inv b"
  shows "findCRLF b =
    (let k = std_search kCRLF (contents b)
     in if k = length (contents b) then None else Some (peek b + k))"
proof -
  have "peek b + std_search kCRLF (contents b) = beginWrite b \<longleftrightarrow>
    std_search kCRLF (contents b) = length (contents b)"
    using buffer_invD [OF inv] by (auto simp: peek_def beginWrite_def length_contents inv buffer_sizes)
  then show ?thesis
    by (simp add: findCRLF_def Let_def contents_def peek_def beginWrite_def)
qed

lemma retrieveUntil_ok:
  assumes inv: "buffer_inv b" and k: "k \<le> length (contents b)"
  shows "\<exists>b'. retrieveUntil b (peek b + k) = Some b' \<and> buffer_inv b' \<and>
    contents b' = drop k (contents b) \<and> buffer_size b' = buffer_size b"
proof -
  have "peek b + k \<le> beginWrite b"
    using k buffer_invD [OF inv] by (simp add: peek_def beginWrite_def length_contents inv buffer_sizes)
  then show ?thesis using retrieve_ok [OF inv k] by (simp add: retrieveUntil_def)
qed

lemma retrieveAllAsString_ok:
  assumes inv: "buffer_inv b"
  shows "retrieveAllAsString b = Some (contents b, retrieveAll b)"
proof -
  have "subrange (peek b) (peek b + readableBytes b) (bufData b) = contents b"
    using front_bytes [OF inv, of "length (contents b)"] by (simp add: length_contents inv)
  then show ?thesis
    by (simp add: retrieveAllAsString_def retrieveAsString_def retrieve_def)
qed

lemma readFd_ok:
  assumes inv: "buffer_inv b" and rv: "readv_ok b (Inr d)"
    and lim: "buffer_size b + length d \<le> vector_max"
  shows "\<exists>b'. readFd b (Inr d) = Some (int (length d), None, b') \<and> buffer_inv b' \<and>
    contents b' = contents b @ d \<and> buffer_size b' \<le> buffer_size b + length d"
proof -
  note I = buffer_invD [OF inv] and S = buffer_sizes [OF inv]
  let ?w = "writableBytes b"
  let ?d1 = "take ?w d" and ?d2 = "drop ?w d"
  have "length ?d1 \<le> ?w" by simp
  from write_at_end [OF inv this] obtain v where v: "copy_to (bufData b) (writerIndex b) ?d1 = Some v"
    "size_add (writerIndex b) (length ?d1) = writerIndex b + length ?d1"
    "buffer_inv (b\<lparr>bufData := v, writerIndex := writerIndex b + length ?d1\<rparr>)"
    "contents (b\<lparr>bufData := v, writerIndex := writerIndex b + length ?d1\<rparr>) = contents b @ ?d1"
    "length v = length (bufData b)" by blast
  show ?thesis
  proof (cases "length d \<le> ?w")
    case True
    with v show ?thesis by (simp add: readFd_def buffer_size_def)
  next
    case False
    let ?b = "b\<lparr>bufData := v, writerIndex := length v\<rparr>"
    have wl: "writerIndex b + length ?d1 = length v" using False S I v(5) by simp
    have inv': "buffer_inv ?b" and c': "contents ?b = contents b @ ?d1" using v(3,4) wl by simp_all
    have sz: "buffer_size ?b = buffer_size b" using v(5) by (simp add: buffer_size_def)
    have len: "size_sub (length d) ?w = length ?d2"
      using False lim I by (simp add: size_sub_exact vector_max_def)
    have "buffer_size ?b + length ?d2 \<le> vector_max" using lim sz by simp
    from append_ok [OF inv' this] obtain b' where b': "append_data ?b ?d2 (length ?d2) = Some b'"
      "buffer_inv b'" "contents b' = contents ?b @ ?d2" "buffer_size b' \<le> buffer_size ?b + length ?d2"
      by blast
    have "readFd b (Inr d) = Some (int (length d), None, b')"
      using False v(1) b'(1) len by (simp add: readFd_def)
    moreover have "contents b' = contents b @ d" using b'(3) c' by simp
    ultimately show ?thesis using b' sz by simp
  qed
qed

text \<open>\<open>toStringPiece\<close> narrows the length to \<open>int\<close>, so \<open>shrink\<close> keeps the contents when they
  are shorter than 2 GiB.\<close>

lemma shrink_keeps:
  assumes inv: "buffer_inv b" and len: "length (contents b) < 2 ^ 31" and res: "reserve < 2 ^ 31"
  shows "\<exists>b'. shrink b reserve = Some b' \<and> buffer_inv b' \<and> contents b' = contents b"
proof -
  let ?n = "length (contents b)"
  have rb: "readableBytes b = ?n" using inv by (simp add: length_contents)
  have add: "size_add (readableBytes b) reserve = ?n + reserve"
    using len res rb by (simp add: size_add_exact)
  have "buffer_size Buffer_new + (?n + reserve) \<le> vector_max"
    using len res by (simp add: vector_max_def)
  from ensureWritableBytes_ok [OF Buffer_new_inv this] obtain e where e:
    "ensureWritableBytes Buffer_new (?n + reserve) = Some e" "buffer_inv e" "contents e = []"
    "buffer_size e \<le> 1032 + (?n + reserve)" by auto
  have sp: "spLength (toStringPiece b) = int ?n"
    using len rb by (simp add: toStringPiece_def int_of_size_exact)
  have data: "take ?n (spData (toStringPiece b)) = contents b"
    using front_bytes [OF inv order_refl] by (simp add: toStringPiece_def subrange_def)
  then have "?n \<le> length (spData (toStringPiece b))"
    by (metis length_take min.cobounded1)
  from append_piece_ok [OF e(2) sp this] e(4) len res obtain b' where
    "append_piece e (toStringPiece b) = Some b'" "buffer_inv b'" "contents b' = contents b"
    using data e(3) by (auto simp: vector_max_def)
  then show ?thesis using e(1) by (simp add: shrink_def add)
qed

section \<open>Properties\<close>

text \<open>C22: A \<open>Buffer\<close> is a byte FIFO. Starting from the default-constructed buffer, any sequence of
  appends and retrieves returns exactly the bytes that a list used as a queue returns and leaves
  exactly the bytes that are left there; the sequence aborts precisely where a \<open>retrieve\<close> asks for
  more than is readable. The growth, the internal move and the reset of the indices are not
  observable.\<close>

theorem buffer_refines_fifo:
  assumes "1032 + put_total ops \<le> vector_max"
  shows "map_option (map_prod id contents)
      (fifo_run contents (\<lambda>b d. append_data b d (length d)) retrieve Buffer_new ops) =
    fifo_spec [] ops"
  using buf_fifo.run_refines [of Buffer_new ops] assms by simp

theorem buffer_refines_fifo_witness:
  "map_option (map_prod id contents)
     (fifo_run contents (\<lambda>b d. append_data b d (length d)) retrieve Buffer_new
        [Put ''abcde'', Get 2, Put ''fg'', Get 5]) = Some ([''ab'', ''cdefg''], [])"
  using buffer_refines_fifo [of "[Put ''abcde'', Get 2, Put ''fg'', Get 5]"]
  by (simp add: vector_max_def)

text \<open>\<open>ensureWritableBytes(len)\<close> always succeeds within the vector's size limit: neither the
  assertion \<open>kCheapPrepend < readerIndex_\<close> of \<open>makeSpace\<close> nor its own postcondition can fail,
  at least \<open>len\<close> bytes are writable afterwards, the readable bytes are unchanged and the indices stay
  ordered, whether the vector grew or the data moved to the front.\<close>

lemma ensureWritableBytes_safe:
  assumes "buffer_inv b" and "buffer_size b + len \<le> vector_max"
  shows "\<exists>b'. ensureWritableBytes b len = Some b' \<and> len \<le> writableBytes b' \<and>
    contents b' = contents b \<and> buffer_inv b'"
  using ensureWritableBytes_ok [OF assms] by blast

text \<open>\<open>readFd\<close> appends exactly the bytes the kernel delivered, in order, for every length up
  to the writable space plus the 64 KiB stack block: whether they fit the writable range or spill
  into \<open>extrabuf\<close>. It returns their number and keeps the buffer's invariant.\<close>

theorem readFd_appends:
  assumes "buffer_inv b" and "readv_ok b (Inr d)" and "buffer_size b + length d \<le> vector_max"
  shows "\<exists>b'. readFd b (Inr d) = Some (int (length d), None, b') \<and> buffer_inv b' \<and>
    contents b' = contents b @ d"
  using readFd_ok [OF assms] by blast

theorem readFd_appends_witness:
  "\<exists>b'. readFd Buffer_new (Inr (replicate 3000 (CHR ''x''))) = Some (3000, None, b') \<and>
    buffer_inv b' \<and> contents b' = replicate 3000 (CHR ''x'')"
  using readFd_appends [of Buffer_new "replicate 3000 (CHR ''x'')"]
  by (simp add: readv_ok_def kExtraBuf_def vector_max_def)

text \<open>Writing and reading several integers.\<close>

fun appendInt32s :: "buffer \<Rightarrow> 32 word list \<Rightarrow> buffer option" where
  "appendInt32s b [] = Some b"
| "appendInt32s b (x # xs) = do { b' \<leftarrow> appendInt32 b x; appendInt32s b' xs }"

fun readInt32s :: "buffer \<Rightarrow> nat \<Rightarrow> (32 word list \<times> buffer) option" where
  "readInt32s b 0 = Some ([], b)"
| "readInt32s b (Suc n) =
     do { (x, b') \<leftarrow> readInt32 b; (xs, b'') \<leftarrow> readInt32s b' n; Some (x # xs, b'') }"

lemma appendInt32s_ok:
  "buffer_inv b \<Longrightarrow> buffer_size b + 4 * length xs \<le> vector_max \<Longrightarrow>
   \<exists>b'. appendInt32s b xs = Some b' \<and> buffer_inv b' \<and>
     contents b' = contents b @ concat (map (be_bytes 4) xs)"
proof (induction xs arbitrary: b)
  case (Cons x xs)
  then have "buffer_size b + length (be_bytes 4 x) \<le> vector_max" by simp
  from append_ok [OF Cons.prems(1) this] obtain b' where b': "appendInt32 b x = Some b'"
    "buffer_inv b'" "contents b' = contents b @ be_bytes 4 x"
    "buffer_size b' \<le> buffer_size b + 4" by (auto simp: append_int_wire)
  with Cons.prems have "buffer_size b' + 4 * length xs \<le> vector_max" by simp
  with Cons.IH [OF b'(2)] b' show ?case by auto
qed simp

lemma readInt32s_ok:
  "buffer_inv b \<Longrightarrow> contents b = concat (map (be_bytes 4) xs) @ ys \<Longrightarrow>
   \<exists>b'. readInt32s b (length xs) = Some (xs, b') \<and> contents b' = ys"
proof (induction xs arbitrary: b)
  case (Cons x xs)
  then have c: "contents b = be_bytes 4 x @ concat (map (be_bytes 4) xs) @ ys" by simp
  then have "4 \<le> length (contents b)" by simp
  from readInt32_ok [OF Cons.prems(1) this] c obtain b' where b':
    "readInt32 b = Some (x, b')" "buffer_inv b'" "contents b' = concat (map (be_bytes 4) xs) @ ys"
    by (auto simp: be_int32_be_bytes)
  from Cons.IH [OF b'(2,3)] b'(1) show ?case by auto
qed simp

text \<open>Integers survive the buffer. Any list of \<open>int32_t\<close> values written with \<open>appendInt32\<close>
  to an empty buffer is read back by \<open>readInt32\<close> in the same order, leaving the buffer empty; each value
  is four bytes, most significant first.\<close>

theorem int32_roundtrip:
  assumes "buffer_inv b" and "contents b = []" and "buffer_size b + 4 * length xs \<le> vector_max"
  shows "\<exists>b' b''. appendInt32s b xs = Some b' \<and>
    contents b' = concat (map (\<lambda>x. [char_of (unat x div 16777216), char_of (unat x div 65536),
      char_of (unat x div 256), char_of (unat x)]) xs) \<and>
    readInt32s b' (length xs) = Some (xs, b'') \<and> contents b'' = []"
proof -
  from appendInt32s_ok [OF assms(1,3)] assms(2) obtain b' where b': "appendInt32s b xs = Some b'"
    "buffer_inv b'" "contents b' = concat (map (be_bytes 4) xs)" by auto
  have "map (be_bytes 4) xs = map (\<lambda>x. [char_of (unat x div 16777216),
      char_of (unat x div 65536), char_of (unat x div 256), char_of (unat x)]) xs"
    by (simp add: be_bytes_32)
  with b' readInt32s_ok [OF b'(2), of xs "[]"] show ?thesis by auto
qed

theorem int32_roundtrip_witness:
  "\<exists>b' b''. appendInt32s Buffer_new [2, 515] = Some b' \<and>
    contents b' = [CHR 0x00, CHR 0x00, CHR 0x00, CHR 0x02, CHR 0x00, CHR 0x00, CHR 0x02, CHR 0x03] \<and>
    readInt32s b' 2 = Some ([2, 515], b'') \<and> contents b'' = []"
proof -
  have len: "length [2, 515 :: 32 word] = 2" by simp
  show ?thesis using int32_roundtrip [of Buffer_new "[2, 515]", unfolded len]
    by (simp add: vector_max_def char_of_def bit_0 del: readInt32s.simps appendInt32s.simps)
qed

text \<open>A length prefix written with \<open>prependInt32\<close> into the reserved headroom is what
  \<open>readInt32\<close> reads first, and reading it uncovers the original payload; \<open>prepend\<close> never moves
  the payload and uses up headroom by exactly four bytes.\<close>

lemma prepend_header_roundtrip:
  assumes "buffer_inv b" and "4 \<le> prependableBytes b"
  shows "\<exists>b' b''. prependInt32 b x = Some b' \<and> contents b' = be_bytes 4 x @ contents b \<and>
    prependableBytes b' = prependableBytes b - 4 \<and> buffer_size b' = buffer_size b \<and>
    readInt32 b' = Some (x, b'') \<and> contents b'' = contents b"
proof -
  from prepend_ok [OF assms(1), of "be_bytes 4 x"] assms(2) obtain b' where b':
    "prependInt32 b x = Some b'" "buffer_inv b'" "contents b' = be_bytes 4 x @ contents b"
    "buffer_size b' = buffer_size b" "prependableBytes b' = prependableBytes b - 4"
    by (auto simp: append_int_wire)
  have "4 \<le> length (contents b')" using b'(3) by simp
  from readInt32_ok [OF b'(2) this] b' show ?thesis by (auto simp: be_int32_be_bytes)
qed

text \<open>\<open>shrink\<close> keeps the readable bytes for contents below 2 GiB (the narrowing of the length
  to \<open>int\<close> in \<open>toStringPiece\<close> sets the bound) and yields a well-formed buffer.\<close>

lemma shrink_preserves:
  assumes "buffer_inv b" and "length (contents b) < 2 ^ 31" and "reserve < 2 ^ 31"
  shows "\<exists>b'. shrink b reserve = Some b' \<and> buffer_inv b' \<and> contents b' = contents b"
  using shrink_keeps [OF assms] .

end
