(* ===== verification/Muduo_Framing.thy ===== *)
theory Muduo_Framing
  imports Muduo_Buffer
begin

text \<open>
  The contract of a message codec over \<open>Buffer\<close>, on top of \<open>stream_decoder\<close>: what the
  sender writes for a message is what one iteration of the receiver decodes, and the receiver's
  \<open>onMessage\<close> on the buffer does what the decoder does on its contents. The client side, proved once:
  messages written one after the other arrive intact and in order however the stream is cut.
  Provided by \<open>Muduo_Codec\<close> and \<open>Muduo_Protobuf\<close>.
\<close>

text \<open>The receiving side of a connection: each chunk is read with \<open>readFd\<close>, then \<open>onMessage\<close>
  runs on the input buffer, as in \<open>TcpConnection::handleRead\<close>.\<close>

fun receive_chunks :: "(buffer \<Rightarrow> (buffer \<times> 'e list) outcome) \<Rightarrow> buffer \<Rightarrow> byte list list \<Rightarrow>
    ('e list \<times> buffer) option" where
  "receive_chunks onMessage b [] = Some ([], b)"
| "receive_chunks onMessage b (c # cs) =
     do { (n, e, b1) \<leftarrow> readFd b (Inr c);
          case onMessage b1 of
            Finished (b2, ev) \<Rightarrow>
              do { (ev', b3) \<leftarrow> receive_chunks onMessage b2 cs; Some (ev @ ev', b3) }
          | _ \<Rightarrow> None }"

locale framed_codec = stream_decoder step
  for step :: "unit \<Rightarrow> byte list \<Rightarrow> (unit \<times> 'm list \<times> nat) option" +
  fixes encode :: "'m \<Rightarrow> byte list"
    and sendable :: "'m \<Rightarrow> bool"
    and event :: "'m \<Rightarrow> 'e"
    and onMessage :: "buffer \<Rightarrow> (buffer \<times> 'e list) outcome"
  assumes step_encode: "sendable m \<Longrightarrow> step () (encode m @ ys) = Some ((), [m], length (encode m))"
    and onMessage_law: "buffer_inv b \<Longrightarrow> drain step () (contents b) = (u, out, rest) \<Longrightarrow>
      \<forall>m \<in> set ms. sendable m \<Longrightarrow> rest @ ys = concat (map encode ms) \<Longrightarrow>
      \<exists>b'. onMessage b = Finished (b', map event out) \<and> buffer_inv b' \<and> contents b' = rest \<and>
        buffer_size b' = buffer_size b"
begin

lemma drain_encode:
  "\<forall>m \<in> set ms. sendable m \<Longrightarrow> drain step () (concat (map encode ms)) = ((), ms, [])"
proof (induction ms)
  case Nil
  then show ?case by (simp add: drain_def)
next
  case (Cons m ms)
  with step_encode [of m "concat (map encode ms)"] show ?case
    by (simp add: drain_unfold [of "()" "encode m @ concat (map encode ms)"])
qed

lemma drain_suffix:
  assumes "\<forall>m \<in> set ms. sendable m" "xs @ ys = concat (map encode ms)"
    "drain step () xs = (u, out, rest)"
  shows "\<exists>ms'. ms = out @ ms' \<and> rest @ ys = concat (map encode ms')"
  using assms
proof (induction "length xs" arbitrary: xs ms out rule: less_induct)
  case less
  show ?case
  proof (cases "step () xs")
    case None
    with less.prems show ?thesis by (auto simp: drain_unfold)
  next
    case (Some r)
    obtain w o1 k where r: "r = (w, o1, k)" by (cases r)
    from consumes [of "()" xs w o1 k] Some r have k: "0 < k" "k \<le> length xs" by auto
    with less.prems(2) obtain m ms1 where ms: "ms = m # ms1" by (cases ms) auto
    have "step () (xs @ ys) = Some (w, o1, k)" using stable Some r by blast
    with less.prems(1,2) ms step_encode [of m "concat (map encode ms1)"]
    have o1: "o1 = [m]" "k = length (encode m)" by auto
    have "drop k xs @ ys = drop k (xs @ ys)" using k by simp
    then have suf: "drop k xs @ ys = concat (map encode ms1)"
      using less.prems(2) ms o1(2) by simp
    obtain u2 o2 r2 where d: "drain step () (drop k xs) = (u2, o2, r2)"
      by (cases "drain step () (drop k xs)")
    have eq: "out = m # o2" "r2 = rest" "u2 = u"
      using less.prems(3) Some r o1 d by (simp_all add: drain_unfold [of "()" xs])
    have "\<exists>ms'. ms1 = o2 @ ms' \<and> rest @ ys = concat (map encode ms')"
      using k less.prems(1) ms suf d eq by (intro less.hyps [of "drop k xs"]) auto
    then show ?thesis using ms eq by auto
  qed
qed

lemma receive_ok:
  "buffer_inv b \<Longrightarrow> step () (contents b) = None \<Longrightarrow> \<forall>m \<in> set ms. sendable m \<Longrightarrow>
   contents b @ concat cs = concat (map encode ms) \<Longrightarrow> \<forall>c \<in> set cs. length c \<le> kExtraBuf \<Longrightarrow>
   buffer_size b + length (concat cs) \<le> vector_max \<Longrightarrow>
   \<exists>b'. receive_chunks onMessage b cs = Some (map event ms, b') \<and> contents b' = []"
proof (induction cs arbitrary: b ms)
  case Nil
  have "ms = []"
  proof (cases ms)
    case (Cons m ms')
    with Nil.prems step_encode [of m "concat (map encode ms')"] show ?thesis by simp
  qed simp
  with Nil.prems show ?case by simp
next
  case (Cons c cs)
  have "readv_ok b (Inr c)" using Cons.prems(5) by (simp add: readv_ok_def trans_le_add2)
  from readFd_ok [OF Cons.prems(1) this] Cons.prems(6) obtain b1 where b1:
    "readFd b (Inr c) = Some (int (length c), None, b1)" "buffer_inv b1"
    "contents b1 = contents b @ c" "buffer_size b1 \<le> buffer_size b + length c" by auto
  obtain u out rest where d: "drain step () (contents b1) = (u, out, rest)"
    by (cases "drain step () (contents b1)")
  have "contents b1 @ concat cs = concat (map encode ms)" using Cons.prems(4) b1(3) by simp
  from drain_suffix [OF Cons.prems(3) this d] obtain ms' where ms': "ms = out @ ms'"
    "rest @ concat cs = concat (map encode ms')" by blast
  have stop: "step () rest = None" using drain_stops [OF d] by simp
  have small: "\<forall>m \<in> set ms'. sendable m" using Cons.prems(3) ms'(1) by simp
  from onMessage_law [OF b1(2) d small ms'(2)] obtain b2 where b2:
    "onMessage b1 = Finished (b2, map event out)" "buffer_inv b2" "contents b2 = rest"
    "buffer_size b2 = buffer_size b1" by auto
  have "\<exists>b'. receive_chunks onMessage b2 cs = Some (map event ms', b') \<and> contents b' = []"
    using b2 stop small ms'(2) Cons.prems(5,6) b1(4) by (intro Cons.IH) auto
  then show ?case using b1(1) b2(1) ms'(1) by auto
qed

lemma end_to_end:
  assumes "\<forall>m \<in> set ms. sendable m" "concat chunks = concat (map encode ms)"
    "\<forall>c \<in> set chunks. length c \<le> kExtraBuf" "1032 + length (concat chunks) \<le> vector_max"
  shows "\<exists>b'. receive_chunks onMessage Buffer_new chunks = Some (map event ms, b') \<and> contents b' = []"
proof -
  have "step () [] = None" using consumes [of "()" "[]"] by (cases "step () []") auto
  with assms receive_ok [of Buffer_new ms chunks] show ?thesis by simp
qed

end

end
