(* ===== verification/Muduo_Codec.thy ===== *)
theory Muduo_Codec
  imports Muduo_Framing
begin

text \<open>
  Message framing over the buffer.
  \<open>LengthHeaderCodec\<close> (\<open>examples/asio/chat/codec.h\<close>): a message is a big-endian
  \<open>int32\<close> length and that many bytes; \<open>lhc_*\<close>. What a codec does besides consuming its
  buffer is the list of its calls, \<open>codec_event\<close>: the message callback, and \<open>conn->shutdown()\<close>.

  The decoder on byte lists, \<open>lhc_step\<close>, is a \<open>stream_decoder\<close>; \<open>lhc_onMessage\<close> refines its
  \<open>drain\<close>, which gives the main theorem: messages sent one after the other arrive intact and in
  order however TCP cuts the stream.
\<close>

section \<open>LengthHeaderCodec\<close>

datatype codec_event = Message string | ShutdownConn

definition kHeaderLen :: nat where
  "kHeaderLen = 4"

type_synonym codec_state = "buffer \<times> codec_event list"

definition lhc_iter :: "codec_state \<Rightarrow> codec_state iter" where
  "lhc_iter s =
     (case s of (buf, ev) \<Rightarrow>
      if readableBytes buf \<ge> kHeaderLen
      then let be32 = word_le (subrange (peek buf) (peek buf + 4) (bufData buf));
               len = sint (networkToHost32 be32)
           in if len > 65536 \<or> len < 0
              then Break (buf, ev @ [ShutdownConn])
              else if readableBytes buf \<ge> size_add (size_of_int len) kHeaderLen
              then (case retrieve buf kHeaderLen of
                      None \<Rightarrow> Abort
                    | Some buf1 \<Rightarrow>
                        let message = subrange (peek buf1) (peek buf1 + size_of_int len) (bufData buf1)
                        in (case retrieve buf1 (size_of_int len) of
                              None \<Rightarrow> Abort
                            | Some buf2 \<Rightarrow> Again (buf2, ev @ [Message message])))
              else Break (buf, ev)
      else Break (buf, ev))"

text \<open>Each iteration consumes the four header bytes at least, which bounds their number.\<close>

definition lhc_onMessage :: "buffer \<Rightarrow> codec_state outcome" where
  "lhc_onMessage buf = run_loop lhc_iter (Suc (readableBytes buf)) (buf, [])"

text \<open>\<open>send\<close>: the buffer handed to \<open>TcpConnection::send(Buffer*)\<close>.\<close>

definition lhc_send :: "string_piece \<Rightarrow> buffer option" where
  "lhc_send message =
     do { buf \<leftarrow> append_data Buffer_new (spData message) (size_of_int (spLength message));
          let be32 = hostToNetwork32 (word_of_int (spLength message));
          prepend_data buf (bytes_le 4 be32) 4 }"

definition piece_of :: "string \<Rightarrow> string_piece" where
  "piece_of m = \<lparr>spData = m, spLength = int (length m)\<rparr>"

subsection \<open>The decoder on byte lists\<close>

definition lhc_len :: "byte list \<Rightarrow> int" where
  "lhc_len xs = sint (be_int32 xs)"

definition lhc_bad :: "byte list \<Rightarrow> bool" where
  "lhc_bad xs \<longleftrightarrow> 4 \<le> length xs \<and> (lhc_len xs > 65536 \<or> lhc_len xs < 0)"

definition lhc_step :: "unit \<Rightarrow> byte list \<Rightarrow> (unit \<times> string list \<times> nat) option" where
  "lhc_step u xs =
     (if 4 \<le> length xs \<and> 0 \<le> lhc_len xs \<and> lhc_len xs \<le> 65536 \<and>
         nat (lhc_len xs) + 4 \<le> length xs
      then Some ((), [take (nat (lhc_len xs)) (drop 4 xs)], 4 + nat (lhc_len xs))
      else None)"

interpretation lhc: stream_decoder lhc_step
proof
  fix s s' :: unit and xs out k
  assume "lhc_step s xs = Some (s', out, k)"
  then show "0 < k \<and> k \<le> length xs" by (auto simp: lhc_step_def split: if_splits)
next
  fix s :: unit and xs ys r
  assume step: "lhc_step s xs = Some r"
  then have "4 \<le> length xs" by (auto simp: lhc_step_def split: if_splits)
  then have "lhc_len (xs @ ys) = lhc_len xs" by (simp add: lhc_len_def be_int32_prefix)
  with step show "lhc_step s (xs @ ys) = Some r"
    by (auto simp: lhc_step_def split: if_splits)
qed

definition lhc_encode :: "string \<Rightarrow> byte list" where
  "lhc_encode m = be_bytes 4 (word_of_int (int (length m)) :: 32 word) @ m"

lemma lhc_len_encode:
  assumes "length m \<le> 65536"
  shows "lhc_len (lhc_encode m @ ys) = int (length m)"
proof -
  have "sint (word_of_int (int (length m)) :: 32 word) = int (length m)"
    using assms by (simp only: sint_sbintrunc') (simp add: signed_take_bit_int_eq_self)
  then show ?thesis by (simp add: lhc_len_def lhc_encode_def be_int32_be_bytes)
qed

lemma lhc_step_encode:
  "length m \<le> 65536 \<Longrightarrow> lhc_step () (lhc_encode m @ ys) = Some ((), [m], 4 + length m)"
  using lhc_len_encode [of m ys] by (simp add: lhc_step_def lhc_encode_def)

subsection \<open>The buffer loop refines the decoder\<close>

lemma lhc_iter_cases:
  assumes inv: "buffer_inv b"
  shows "case lhc_step () (contents b) of
      None \<Rightarrow> lhc_iter (b, ev) = Break (b, if lhc_bad (contents b) then ev @ [ShutdownConn] else ev)
    | Some (u, out, k) \<Rightarrow> \<exists>b' m. out = [m] \<and> lhc_iter (b, ev) = Again (b', ev @ [Message m]) \<and>
        buffer_inv b' \<and> contents b' = drop k (contents b) \<and> buffer_size b' = buffer_size b"
proof (cases "4 \<le> length (contents b)")
  case False
  then show ?thesis
    using inv by (simp add: lhc_step_def lhc_iter_def lhc_bad_def kHeaderLen_def length_contents)
next
  case h: True
  let ?len = "lhc_len (contents b)"
  have front: "networkToHost32 (word_le (subrange (peek b) (peek b + 4) (bufData b))) = be_int32 (contents b)"
    using front_bytes [OF inv h] by (simp add: be_int32_def)
  have rb: "readableBytes b = length (contents b)" using inv by (simp add: length_contents)
  show ?thesis
  proof (cases "?len > 65536 \<or> ?len < 0")
    case True
    then show ?thesis using h rb
      by (auto simp: lhc_step_def lhc_iter_def lhc_bad_def kHeaderLen_def front lhc_len_def Let_def)
  next
    case False
    then obtain n where n: "?len = int n" "n \<le> 65536"
      by (metis nat_int_comparison(3) nonneg_int_cases not_less of_nat_numeral)
    have sz: "size_of_int ?len = n" "size_add n 4 = n + 4"
      using n by (simp_all add: size_of_int_exact size_add_exact)
    show ?thesis
    proof (cases "n + 4 \<le> length (contents b)")
      case short: False
      with False n sz rb h show ?thesis
        by (auto simp: lhc_step_def lhc_iter_def lhc_bad_def kHeaderLen_def front
            lhc_len_def [symmetric] Let_def)
    next
      case full: True
      from retrieve_ok [OF inv h] obtain b1 where b1: "retrieve b 4 = Some b1" "buffer_inv b1"
        "contents b1 = drop 4 (contents b)" "buffer_size b1 = buffer_size b" by blast
      have n1: "n \<le> length (contents b1)" using full b1(3) by simp
      from retrieve_ok [OF b1(2) n1] obtain b2 where b2: "retrieve b1 n = Some b2" "buffer_inv b2"
        "contents b2 = drop n (contents b1)" "buffer_size b2 = buffer_size b1" by blast
      have msg: "subrange (peek b1) (peek b1 + n) (bufData b1) = take n (drop 4 (contents b))"
        using front_bytes [OF b1(2) n1] b1(3) by simp
      have "lhc_iter (b, ev) = Again (b2, ev @ [Message (take n (drop 4 (contents b)))])"
        using False full h rb n sz b1(1) b2(1) msg
        by (simp add: lhc_iter_def kHeaderLen_def front lhc_len_def [symmetric])
      moreover have "lhc_step () (contents b) = Some ((), [take n (drop 4 (contents b))], 4 + n)"
        using h full n by (simp add: lhc_step_def)
      ultimately show ?thesis using b1 b2 by (simp add: add.commute)
    qed
  qed
qed

lemma lhc_loop_refines:
  "buffer_inv b \<Longrightarrow> length (contents b) < n \<Longrightarrow>
   drain lhc_step () (contents b) = (u, out, rest) \<Longrightarrow>
   \<exists>b'. run_loop lhc_iter n (b, ev) =
       Finished (b', ev @ map Message out @ (if lhc_bad rest then [ShutdownConn] else [])) \<and>
     buffer_inv b' \<and> contents b' = rest \<and> buffer_size b' = buffer_size b"
proof (induction n arbitrary: b ev out)
  case (Suc n)
  show ?case
  proof (cases "lhc_step () (contents b)")
    case None
    with lhc_iter_cases [OF Suc.prems(1), of ev] Suc.prems show ?thesis
      by (simp add: lhc.drain_unfold)
  next
    case (Some r)
    obtain w o1 k where r: "r = (w, o1, k)" by (cases r)
    from lhc_iter_cases [OF Suc.prems(1), of ev] Some r obtain b1 m where b1: "o1 = [m]"
      "lhc_iter (b, ev) = Again (b1, ev @ [Message m])" "buffer_inv b1"
      "contents b1 = drop k (contents b)" "buffer_size b1 = buffer_size b" by auto
    from lhc.consumes [of "()" "contents b" w o1 k] Some r have "0 < k" "k \<le> length (contents b)" by auto
    with Suc.prems b1(4) have len: "length (contents b1) < n" by simp
    obtain u2 o2 rest2 where d: "drain lhc_step () (contents b1) = (u2, o2, rest2)"
      by (cases "drain lhc_step () (contents b1)")
    have out: "out = m # o2" and "rest2 = rest" "u2 = u"
      using Suc.prems(3) Some r b1(1,4) d by (simp_all add: lhc.drain_unfold [of "()" "contents b"])
    with d have "drain lhc_step () (contents b1) = (u, o2, rest)" by simp
    from Suc.IH [OF b1(3) len this, of "ev @ [Message m]"] b1(2,5) out show ?thesis
      by auto
  qed
qed simp

lemma lhc_onMessage_refines:
  assumes "buffer_inv b" "drain lhc_step () (contents b) = (u, out, rest)"
  shows "\<exists>b'. lhc_onMessage b =
      Finished (b', map Message out @ (if lhc_bad rest then [ShutdownConn] else [])) \<and>
    buffer_inv b' \<and> contents b' = rest \<and> buffer_size b' = buffer_size b"
  using lhc_loop_refines [OF assms(1) _ assms(2), of "Suc (readableBytes b)" "[]"] assms(1)
  by (simp add: lhc_onMessage_def length_contents)

subsection \<open>From sender to receiver\<close>

text \<open>The sending side: the bytes of each message's buffer, one after the other.\<close>

fun lhc_wire :: "string list \<Rightarrow> byte list option" where
  "lhc_wire [] = Some []"
| "lhc_wire (m # ms) =
     do { b \<leftarrow> lhc_send (piece_of m); w \<leftarrow> lhc_wire ms; Some (contents b @ w) }"

lemma lhc_send_contents:
  assumes "length m < 2 ^ 31"
  shows "\<exists>b. lhc_send (piece_of m) = Some b \<and> contents b = lhc_encode m"
proof -
  have sz: "size_of_int (spLength (piece_of m)) = length m"
    using assms by (simp add: piece_of_def size_of_int_exact)
  have "buffer_size Buffer_new + length m \<le> vector_max"
    using assms by (simp add: vector_max_def)
  from append_ok [OF Buffer_new_inv this] obtain b where b:
    "append_data Buffer_new m (length m) = Some b" "buffer_inv b" "contents b = m" by auto
  have r: "prependableBytes b = 8"
  proof -
    from \<open>append_data Buffer_new m (length m) = Some b\<close> obtain e v where
      e: "ensureWritableBytes Buffer_new (length m) = Some e" and
      "b = hasWritten (e\<lparr>bufData := v\<rparr>) (length m)"
      by (auto simp: append_data_def split: Option.bind_splits if_splits)
    then have "readerIndex b = readerIndex e" by (simp add: hasWritten_def)
    moreover have "readerIndex e = 8"
      using e by (auto simp: ensureWritableBytes_def makeSpace_def Buffer_new_def buffer_consts
          split: Option.bind_splits if_splits)
    ultimately show ?thesis by (simp add: prependableBytes_def)
  qed
  have be: "bytes_le 4 (hostToNetwork32 (word_of_int (spLength (piece_of m)))) =
      be_bytes 4 (word_of_int (int (length m)) :: 32 word)"
    by (simp add: wire_bytes piece_of_def)
  from prepend_ok [OF b(2), of "be_bytes 4 (word_of_int (int (length m)) :: 32 word)"] r b(3)
  obtain b' where
    "prepend_data b (be_bytes 4 (word_of_int (int (length m)) :: 32 word)) 4 = Some b'"
    "contents b' = lhc_encode m" by (auto simp: lhc_encode_def)
  then show ?thesis using b(1) sz be by (simp add: lhc_send_def piece_of_def)
qed

lemma lhc_wire_encode:
  "\<forall>m \<in> set ms. length m \<le> 65536 \<Longrightarrow> lhc_wire ms = Some (concat (map lhc_encode ms))"
proof (induction ms)
  case (Cons m ms)
  then have "length m < 2 ^ 31" by simp
  from lhc_send_contents [OF this] Cons show ?case by auto
qed simp

lemma lhc_prefix_not_bad:
  assumes "\<forall>m \<in> set ms. length m \<le> 65536" "xs @ ys = concat (map lhc_encode ms)"
    "lhc_step () xs = None"
  shows "\<not> lhc_bad xs"
proof
  assume bad: "lhc_bad xs"
  then have l4: "4 \<le> length xs" by (simp add: lhc_bad_def)
  with assms(2) obtain m ms' where ms: "ms = m # ms'" by (cases ms) auto
  have "lhc_len xs = lhc_len (xs @ ys)" using l4 by (simp add: lhc_len_def be_int32_prefix)
  also have "\<dots> = int (length m)" using assms(1,2) ms lhc_len_encode by simp
  finally show False using bad assms(1) ms by (simp add: lhc_bad_def)
qed

interpretation lhc_codec: framed_codec lhc_step lhc_encode "\<lambda>m. length m \<le> 65536" Message lhc_onMessage
proof
  fix m :: string and ys
  assume "length m \<le> 65536"
  then show "lhc_step () (lhc_encode m @ ys) = Some ((), [m], length (lhc_encode m))"
    using lhc_step_encode [of m ys] by (simp add: lhc_encode_def)
next
  fix b u out rest ms ys
  assume b: "buffer_inv b" "drain lhc_step () (contents b) = (u, out, rest)"
    and ms: "\<forall>m \<in> set ms. length m \<le> 65536" "rest @ ys = concat (map lhc_encode ms)"
  have "lhc_step () rest = None" using lhc.drain_stops [OF b(2)] by simp
  from lhc_prefix_not_bad [OF ms this] lhc_onMessage_refines [OF b]
  show "\<exists>b'. lhc_onMessage b = Finished (b', map Message out) \<and> buffer_inv b' \<and>
      contents b' = rest \<and> buffer_size b' = buffer_size b" by auto
qed

text \<open>C23: End-to-end framing. Let a sender send any messages of at most 64 KiB with
  \<open>LengthHeaderCodec::send\<close>, and let TCP deliver the concatenated bytes cut into arbitrary chunks of at
  most 64 KiB: the receiver's \<open>onMessage\<close> calls the message callback with exactly these messages in
  order, never aborts, loops or shuts the connection down, and ends with an empty input buffer.\<close>

theorem length_codec_end_to_end:
  assumes "\<forall>m \<in> set ms. length m \<le> 65536" and "lhc_wire ms = Some wire"
    and "concat chunks = wire" and "\<forall>c \<in> set chunks. length c \<le> 65536"
    and "1032 + length wire \<le> vector_max"
  shows "\<exists>b'. receive_chunks lhc_onMessage Buffer_new chunks = Some (map Message ms, b') \<and> contents b' = []"
proof -
  have "wire = concat (map lhc_encode ms)" using lhc_wire_encode [OF assms(1)] assms(2) by simp
  with assms lhc_codec.end_to_end [of ms chunks] show ?thesis by (simp add: kExtraBuf_def)
qed

theorem length_codec_end_to_end_witness:
  "\<exists>b'. receive_chunks lhc_onMessage Buffer_new
      [take 3 (lhc_encode ''hi'' @ lhc_encode []), drop 3 (lhc_encode ''hi'' @ lhc_encode [])] =
      Some ([Message ''hi'', Message []], b') \<and> contents b' = []"
proof -
  have w: "lhc_wire [''hi'', []] = Some (lhc_encode ''hi'' @ lhc_encode [])"
    by (subst lhc_wire_encode) simp_all
  show ?thesis
    using length_codec_end_to_end [OF _ w, of "[take 3 (lhc_encode ''hi'' @ lhc_encode []),
        drop 3 (lhc_encode ''hi'' @ lhc_encode [])]"]
    by (simp add: lhc_encode_def vector_max_def)
qed

text \<open>A header whose length is negative or above 64 KiB is not waited for: \<open>onMessage\<close> delivers
  the complete messages before it, shuts the connection down and returns with the offending bytes
  still in the buffer.\<close>

theorem length_codec_rejects_bad_length:
  assumes "buffer_inv b" and "\<forall>m \<in> set ms. length m \<le> 65536"
    and "contents b = concat (map lhc_encode ms) @ bad" and "lhc_bad bad"
  shows "\<exists>b'. lhc_onMessage b = Finished (b', map Message ms @ [ShutdownConn]) \<and> contents b' = bad"
proof -
  have "lhc_step () bad = None" using assms(4) by (auto simp: lhc_step_def lhc_bad_def)
  then have "drain lhc_step () (contents b) = ((), ms, bad)"
    using lhc_codec.drain_encode [OF assms(2)] assms(3)
      lhc.drain_append [of "()" "concat (map lhc_encode ms)" bad]
    by (simp add: lhc.drain_unfold [of "()" bad])
  from lhc_onMessage_refines [OF assms(1) this] assms(4) show ?thesis by auto
qed

lemma bad_header: "lhc_bad (be_bytes 4 (65537 :: 32 word))"
  using be_int32_be_bytes [of 65537 "[]"] by (simp add: lhc_bad_def lhc_len_def)

theorem length_codec_rejects_bad_length_witness:
  "\<exists>b b'. append_data Buffer_new (lhc_encode ''ok'' @ be_bytes 4 (65537 :: 32 word)) 10 = Some b \<and>
     lhc_onMessage b = Finished (b', [Message ''ok'', ShutdownConn]) \<and>
     contents b' = be_bytes 4 (65537 :: 32 word)"
proof -
  have "buffer_size Buffer_new + length (lhc_encode ''ok'' @ be_bytes 4 (65537 :: 32 word)) \<le> vector_max"
    by (simp add: lhc_encode_def vector_max_def)
  from append_ok [OF Buffer_new_inv this] obtain b where b:
    "append_data Buffer_new (lhc_encode ''ok'' @ be_bytes 4 (65537 :: 32 word)) 10 = Some b"
    "buffer_inv b" "contents b = lhc_encode ''ok'' @ be_bytes 4 (65537 :: 32 word)"
    by (auto simp: lhc_encode_def)
  from length_codec_rejects_bad_length [OF b(2), of "[''ok'']", OF _ _ bad_header] b show ?thesis
    by auto
qed

end
