(* ===== verification/Muduo_Timestamp.thy ===== *)
theory Muduo_Timestamp
  imports Muduo_Prelude "HOL-Library.Product_Lexorder" "HOL-Library.Signed_Division"
begin

text \<open>
  \<open>muduo::Timestamp\<close> (\<open>muduo/base/Timestamp.h\<close>, \<open>Timestamp.cc\<close>): a number of microseconds since the
  epoch. The code's \<open>int64_t\<close> is an \<open>int\<close> here: the values it holds are clock readings and offsets
  far from \<open>2 ^ 63\<close>. The order is the code's \<open>operator<\<close>; the instance of \<open>linorder\<close> is what
  \<open>std::set\<close> and \<open>std::pair\<close> use of it.

  A \<open>double\<close> number of seconds is used by the code in two ways only: compared with \<open>0.0\<close>, and
  multiplied by a million and truncated to \<open>int64_t\<close>. \<open>seconds\<close> holds the truncated value and,
  for the values it truncates to zero, whether the number is positive.
\<close>

datatype Timestamp = Timestamp (microSecondsSinceEpoch: int)

datatype seconds = Seconds (toMicroSeconds: int) (positiveBelowMicro: bool)

definition isPositive :: "seconds \<Rightarrow> bool" where
  "isPositive x \<longleftrightarrow> toMicroSeconds x > 0 \<or> toMicroSeconds x = 0 \<and> positiveBelowMicro x"

instantiation Timestamp :: linorder
begin

definition less_Timestamp :: "Timestamp \<Rightarrow> Timestamp \<Rightarrow> bool" where
  "less_Timestamp lhs rhs \<longleftrightarrow> microSecondsSinceEpoch lhs < microSecondsSinceEpoch rhs"

definition less_eq_Timestamp :: "Timestamp \<Rightarrow> Timestamp \<Rightarrow> bool" where
  "less_eq_Timestamp lhs rhs \<longleftrightarrow> microSecondsSinceEpoch lhs \<le> microSecondsSinceEpoch rhs"

instance
proof
  fix x y z :: Timestamp
  show "x < y \<longleftrightarrow> x \<le> y \<and> \<not> y \<le> x" by (auto simp: less_Timestamp_def less_eq_Timestamp_def)
  show "x \<le> x" by (simp add: less_eq_Timestamp_def)
  show "x \<le> y \<Longrightarrow> y \<le> z \<Longrightarrow> x \<le> z" by (simp add: less_eq_Timestamp_def)
  show "x \<le> y \<Longrightarrow> y \<le> x \<Longrightarrow> x = y" by (cases x; cases y) (simp add: less_eq_Timestamp_def)
  show "x \<le> y \<or> y \<le> x" by (auto simp: less_eq_Timestamp_def)
qed

end

lemmas timestamp_order = less_Timestamp_def less_eq_Timestamp_def

definition kMicroSecondsPerSecond :: int where
  "kMicroSecondsPerSecond = 1000 * 1000"

definition Timestamp_invalid :: Timestamp where
  "Timestamp_invalid = Timestamp 0"

definition Timestamp_valid :: "Timestamp \<Rightarrow> bool" where
  "Timestamp_valid t \<longleftrightarrow> microSecondsSinceEpoch t > 0"

definition secondsSinceEpoch :: "Timestamp \<Rightarrow> int" where
  "secondsSinceEpoch t = microSecondsSinceEpoch t sdiv kMicroSecondsPerSecond"

text \<open>\<open>gettimeofday\<close> gives seconds and microseconds.\<close>

definition Timestamp_now :: "int \<Rightarrow> int \<Rightarrow> Timestamp" where
  "Timestamp_now tv_sec tv_usec = Timestamp (tv_sec * kMicroSecondsPerSecond + tv_usec)"

definition addTime :: "Timestamp \<Rightarrow> seconds \<Rightarrow> Timestamp" where
  "addTime timestamp s = Timestamp (microSecondsSinceEpoch timestamp + toMicroSeconds s)"

lemma Timestamp_now_split:
  assumes "0 \<le> tv_sec" "0 \<le> tv_usec" "tv_usec < 1000000"
  shows "secondsSinceEpoch (Timestamp_now tv_sec tv_usec) = tv_sec"
  using assms by (simp add: secondsSinceEpoch_def Timestamp_now_def kMicroSecondsPerSecond_def
      signed_divide_int_def sgn_if abs_if)

end
