(* ===== verification/Muduo_TimerQueue.thy ===== *)
theory Muduo_TimerQueue
  imports Muduo_Timestamp "HOL-Library.AList" "HOL-Library.Multiset"
    "HOL-Library.Extended_Nat"
begin

text \<open>
  \<open>muduo::net::TimerQueue\<close> (\<open>muduo/net/TimerQueue.h\<close>, \<open>TimerQueue.cc\<close>), with \<open>Timer\<close>
  and \<open>TimerId\<close>. A \<open>Timer*\<close> is an address in the heap, an association list of live objects; the
  two \<open>std::set\<close>s are sorted lists of pairs under the lexicographic order of \<open>std::pair\<close>.
  \<open>None\<close> is a failed \<open>assert\<close> or the use of a deleted timer.

  Addresses are \<open>enat\<close>: memory is unbounded, and the sentinel \<open>UINTPTR_MAX\<close> of \<open>getExpired\<close> is
  \<open>\<infinity>\<close>, above every address. \<open>new Timer\<close> takes its address from the parameter \<open>alloc\<close>, of which \<open>malloc_ok\<close> says that it
  returns an address not in use. A user callback is the list of timer operations it
  performs (\<open>timer_call\<close>), a function of the callback and of the queue. \<open>timerfd\<close> is the instant at
  which it fires, with the instant it was set; \<open>runs\<close> logs the callbacks, for the statements only.

  The reachable states of \<open>tq_step\<close> interleave the operations of the loop thread, the requests
  of other threads (queued functors) and the alarms of the timer.
\<close>

section \<open>State\<close>

record 'c timer =
  callback :: 'c
  expiration :: Timestamp
  interval :: seconds
  repeat :: bool
  sequence :: int

type_synonym addr = enat
type_synonym entry = "Timestamp \<times> addr"
type_synonym active_timer = "addr \<times> int"

datatype queued = QAddTimer addr | QCancel addr int

record 'c tq =
  timers :: "entry list"
  activeTimers :: "active_timer list"
  callingExpiredTimers :: bool
  cancelingTimers :: "active_timer list"
  heap :: "(addr \<times> 'c timer) list"
  numCreated :: int
  timerfd :: "(int \<times> int) option"
  queuedCalls :: "queued list"
  runs :: "active_timer list"

definition UINTPTR_MAX :: addr where
  "UINTPTR_MAX = \<infinity>"

definition TimerQueue_new :: "'c tq" where
  "TimerQueue_new = \<lparr>timers = [], activeTimers = [], callingExpiredTimers = False,
     cancelingTimers = [], heap = [], numCreated = 0, timerfd = None, queuedCalls = [], runs = []\<rparr>"

definition Timer_new :: "'c \<Rightarrow> Timestamp \<Rightarrow> seconds \<Rightarrow> int \<Rightarrow> 'c timer" where
  "Timer_new cb when iv seq =
     \<lparr>callback = cb, expiration = when, interval = iv, repeat = isPositive iv, sequence = seq\<rparr>"

definition Timer_restart :: "'c timer \<Rightarrow> Timestamp \<Rightarrow> 'c timer" where
  "Timer_restart t now =
     (if repeat t then t\<lparr>expiration := addTime now (interval t)\<rparr>
      else t\<lparr>expiration := Timestamp_invalid\<rparr>)"

section \<open>Operations\<close>

text \<open>\<open>struct timespec\<close> as seconds and nanoseconds, and the instant at which a timer set to it fires.\<close>

definition howMuchTimeFromNow :: "Timestamp \<Rightarrow> Timestamp \<Rightarrow> int \<times> int" where
  "howMuchTimeFromNow when now =
     (let microseconds = microSecondsSinceEpoch when - microSecondsSinceEpoch now;
          microseconds = (if microseconds < 100 then 100 else microseconds)
      in (microseconds sdiv kMicroSecondsPerSecond,
          (microseconds smod kMicroSecondsPerSecond) * 1000))"

definition resetTimerfd :: "Timestamp \<Rightarrow> Timestamp \<Rightarrow> 'c tq \<Rightarrow> 'c tq" where
  "resetTimerfd when now s =
     (case howMuchTimeFromNow when now of (tv_sec, tv_nsec) \<Rightarrow>
        s\<lparr>timerfd := Some (microSecondsSinceEpoch now,
            microSecondsSinceEpoch now + tv_sec * kMicroSecondsPerSecond + tv_nsec div 1000)\<rparr>)"

definition tq_insert :: "addr \<Rightarrow> 'c tq \<Rightarrow> ('c tq \<times> bool) option" where
  "tq_insert p s =
     do { assertion (length (timers s) = length (activeTimers s));
          t \<leftarrow> map_of (heap s) p;
          let when = expiration t;
          let earliestChanged = (case timers s of [] \<Rightarrow> True | it # _ \<Rightarrow> when < fst it);
          assertion ((when, p) \<notin> set (timers s));
          assertion ((p, sequence t) \<notin> set (activeTimers s));
          let s' = s\<lparr>timers := insort (when, p) (timers s),
                      activeTimers := insort (p, sequence t) (activeTimers s)\<rparr>;
          assertion (length (timers s') = length (activeTimers s'));
          Some (s', earliestChanged) }"

definition addTimerInLoop :: "addr \<Rightarrow> Timestamp \<Rightarrow> 'c tq \<Rightarrow> 'c tq option" where
  "addTimerInLoop p now s =
     do { (s', earliestChanged) \<leftarrow> tq_insert p s;
          t \<leftarrow> map_of (heap s') p;
          Some (if earliestChanged then resetTimerfd (expiration t) now s' else s') }"

definition newTimer :: "((addr \<times> 'c timer) list \<Rightarrow> addr) \<Rightarrow> 'c \<Rightarrow> Timestamp \<Rightarrow> seconds \<Rightarrow> 'c tq \<Rightarrow>
    addr \<times> 'c tq" where
  "newTimer alloc cb when iv s =
     (let p = alloc (heap s); seq = numCreated s + 1
      in (p, s\<lparr>heap := (p, Timer_new cb when iv seq) # heap s, numCreated := seq\<rparr>))"

text \<open>\<open>addTimer\<close> in the loop thread and from another thread (the functor is queued).\<close>

definition addTimer :: "((addr \<times> 'c timer) list \<Rightarrow> addr) \<Rightarrow> 'c \<Rightarrow> Timestamp \<Rightarrow> seconds \<Rightarrow> Timestamp \<Rightarrow>
    'c tq \<Rightarrow> 'c tq option" where
  "addTimer alloc cb when iv now s =
     (case newTimer alloc cb when iv s of (p, s') \<Rightarrow> addTimerInLoop p now s')"

definition addTimer_other :: "((addr \<times> 'c timer) list \<Rightarrow> addr) \<Rightarrow> 'c \<Rightarrow> Timestamp \<Rightarrow> seconds \<Rightarrow>
    'c tq \<Rightarrow> 'c tq" where
  "addTimer_other alloc cb when iv s =
     (case newTimer alloc cb when iv s of (p, s') \<Rightarrow>
        s'\<lparr>queuedCalls := queuedCalls s' @ [QAddTimer p]\<rparr>)"

definition cancelInLoop :: "active_timer \<Rightarrow> 'c tq \<Rightarrow> 'c tq option" where
  "cancelInLoop timerId s =
     do { assertion (length (timers s) = length (activeTimers s));
          s' \<leftarrow>
            (if timerId \<in> set (activeTimers s)
             then do { t \<leftarrow> map_of (heap s) (fst timerId);
                       assertion ((expiration t, fst timerId) \<in> set (timers s));
                       Some (s\<lparr>timers := remove1 (expiration t, fst timerId) (timers s),
                               heap := AList.delete (fst timerId) (heap s),
                               activeTimers := remove1 timerId (activeTimers s)\<rparr>) }
             else if callingExpiredTimers s
             then Some (s\<lparr>cancelingTimers := List.insert timerId (cancelingTimers s)\<rparr>)
             else Some s);
          assertion (length (timers s') = length (activeTimers s'));
          Some s' }"

definition cancel_other :: "active_timer \<Rightarrow> 'c tq \<Rightarrow> 'c tq" where
  "cancel_other timerId s =
     s\<lparr>queuedCalls := queuedCalls s @ [QCancel (fst timerId) (snd timerId)]\<rparr>"

text \<open>\<open>getExpired\<close>: \<open>lower_bound\<close> of the sentry, the two erasures, the assertions.\<close>

fun erase_active :: "entry list \<Rightarrow> 'c tq \<Rightarrow> 'c tq option" where
  "erase_active [] s = Some s"
| "erase_active (e # es) s =
     do { t \<leftarrow> map_of (heap s) (snd e);
          assertion ((snd e, sequence t) \<in> set (activeTimers s));
          erase_active es (s\<lparr>activeTimers := remove1 (snd e, sequence t) (activeTimers s)\<rparr>) }"

definition getExpired :: "Timestamp \<Rightarrow> 'c tq \<Rightarrow> (entry list \<times> 'c tq) option" where
  "getExpired now s =
     do { assertion (length (timers s) = length (activeTimers s));
          let sentry = (now, UINTPTR_MAX);
          let rest = dropWhile (\<lambda>e. e < sentry) (timers s);
          assertion (rest = [] \<or> now < fst (hd rest));
          let expired = takeWhile (\<lambda>e. e < sentry) (timers s);
          s' \<leftarrow> erase_active expired (s\<lparr>timers := rest\<rparr>);
          assertion (length (timers s') = length (activeTimers s'));
          Some (expired, s') }"

fun reset_loop :: "Timestamp \<Rightarrow> entry list \<Rightarrow> 'c tq \<Rightarrow> 'c tq option" where
  "reset_loop now [] s = Some s"
| "reset_loop now (e # es) s =
     do { t \<leftarrow> map_of (heap s) (snd e);
          s' \<leftarrow> (if repeat t \<and> (snd e, sequence t) \<notin> set (cancelingTimers s)
                 then map_option fst (tq_insert (snd e)
                   (s\<lparr>heap := AList.update (snd e) (Timer_restart t now) (heap s)\<rparr>))
                 else Some (s\<lparr>heap := AList.delete (snd e) (heap s)\<rparr>));
          reset_loop now es s' }"

definition tq_reset :: "entry list \<Rightarrow> Timestamp \<Rightarrow> Timestamp \<Rightarrow> 'c tq \<Rightarrow> 'c tq option" where
  "tq_reset expired now now' s =
     do { s' \<leftarrow> reset_loop now expired s;
          nextExpire \<leftarrow> (case timers s' of
                            [] \<Rightarrow> Some Timestamp_invalid
                          | e # _ \<Rightarrow> map_option expiration (map_of (heap s') (snd e)));
          Some (if Timestamp_valid nextExpire then resetTimerfd nextExpire now' s' else s') }"

text \<open>What a user callback does to the queue it runs on; \<open>now\<close> is the clock \<open>addTimer\<close> reads.\<close>

datatype 'c timer_call = CallAddTimer 'c Timestamp seconds Timestamp | CallCancel active_timer

fun do_timer_call :: "((addr \<times> 'c timer) list \<Rightarrow> addr) \<Rightarrow> 'c timer_call \<Rightarrow> 'c tq \<Rightarrow> 'c tq option" where
  "do_timer_call alloc (CallAddTimer cb when iv now) s = addTimer alloc cb when iv now s"
| "do_timer_call alloc (CallCancel timerId) s = cancelInLoop timerId s"

fun timer_calls :: "((addr \<times> 'c timer) list \<Rightarrow> addr) \<Rightarrow> 'c timer_call list \<Rightarrow> 'c tq \<Rightarrow> 'c tq option" where
  "timer_calls alloc [] s = Some s"
| "timer_calls alloc (c # cs) s = do { s' \<leftarrow> do_timer_call alloc c s; timer_calls alloc cs s' }"

fun run_expired :: "((addr \<times> 'c timer) list \<Rightarrow> addr) \<Rightarrow> ('c \<Rightarrow> 'c tq \<Rightarrow> 'c timer_call list) \<Rightarrow>
    entry list \<Rightarrow> 'c tq \<Rightarrow> 'c tq option" where
  "run_expired alloc user [] s = Some s"
| "run_expired alloc user (e # es) s =
     do { t \<leftarrow> map_of (heap s) (snd e);
          s' \<leftarrow> timer_calls alloc (user (callback t) s)
                  (s\<lparr>runs := runs s @ [(snd e, sequence t)]\<rparr>);
          run_expired alloc user es s' }"

definition tq_handleRead :: "((addr \<times> 'c timer) list \<Rightarrow> addr) \<Rightarrow> ('c \<Rightarrow> 'c tq \<Rightarrow> 'c timer_call list) \<Rightarrow>
    Timestamp \<Rightarrow> Timestamp \<Rightarrow> 'c tq \<Rightarrow> 'c tq option" where
  "tq_handleRead alloc user now now' s =
     do { (expired, s1) \<leftarrow> getExpired now s;
          s2 \<leftarrow> run_expired alloc user expired (s1\<lparr>callingExpiredTimers := True, cancelingTimers := []\<rparr>);
          tq_reset expired now now' (s2\<lparr>callingExpiredTimers := False\<rparr>) }"

text \<open>A functor queued by another thread, when the loop runs it.\<close>

fun run_queued :: "queued \<Rightarrow> Timestamp \<Rightarrow> 'c tq \<Rightarrow> 'c tq option" where
  "run_queued (QAddTimer p) now s = addTimerInLoop p now s"
| "run_queued (QCancel p q) now s = cancelInLoop (p, q) s"

section \<open>Steps of the loop and of other threads\<close>

inductive tq_step :: "((addr \<times> 'c timer) list \<Rightarrow> addr) \<Rightarrow> ('c \<Rightarrow> 'c tq \<Rightarrow> 'c timer_call list) \<Rightarrow>
    'c tq \<Rightarrow> 'c tq \<Rightarrow> bool"
  for alloc :: "(addr \<times> 'c timer) list \<Rightarrow> addr"
  and user :: "'c \<Rightarrow> 'c tq \<Rightarrow> 'c timer_call list"
  where
    step_call: "do_timer_call alloc c s = Some s' \<Longrightarrow> tq_step alloc user s s'"
  | step_add_other: "tq_step alloc user s (addTimer_other alloc cb when iv s)"
  | step_cancel_other: "tq_step alloc user s (cancel_other timerId s)"
  | step_queued: "queuedCalls s = q # qs \<Longrightarrow> run_queued q now (s\<lparr>queuedCalls := qs\<rparr>) = Some s' \<Longrightarrow>
      tq_step alloc user s s'"
  | step_alarm: "timerfd s = Some a \<Longrightarrow> Timestamp_valid now \<Longrightarrow>
      tq_handleRead alloc user now now' (s\<lparr>timerfd := None\<rparr>) = Some s' \<Longrightarrow> tq_step alloc user s s'"

inductive_cases tq_stepE: "tq_step alloc user s s'"

definition malloc_ok :: "((addr \<times> 'c timer) list \<Rightarrow> addr) \<Rightarrow> bool" where
  "malloc_ok alloc \<longleftrightarrow> (\<forall>h. alloc h \<notin> fst ` set h \<and> alloc h < UINTPTR_MAX)"

section \<open>Well-formedness\<close>

text \<open>\<open>E\<close> are the live timers outside the queue: those of queued \<open>QAddTimer\<close>s and the expired ones
  whose callbacks run. The two sets hold the same timers, every pointer is live, nothing leaks.\<close>

definition tq_wf :: "addr set \<Rightarrow> 'c tq \<Rightarrow> bool" where
  "tq_wf E s \<longleftrightarrow>
     sorted (timers s) \<and> distinct (map snd (timers s)) \<and>
     sorted (activeTimers s) \<and> distinct (map fst (activeTimers s)) \<and>
     snd ` set (timers s) = fst ` set (activeTimers s) \<and>
     (\<forall>(w, p) \<in> set (timers s). \<exists>t. map_of (heap s) p = Some t \<and> expiration t = w) \<and>
     (\<forall>(p, q) \<in> set (activeTimers s). \<exists>t. map_of (heap s) p = Some t \<and> sequence t = q) \<and>
     distinct (map fst (heap s)) \<and> fst ` set (heap s) = E \<union> snd ` set (timers s) \<and>
     E \<inter> snd ` set (timers s) = {} \<and> (\<forall>p \<in> fst ` set (heap s). p < UINTPTR_MAX)"

definition queued_adds :: "queued list \<Rightarrow> addr list" where
  "queued_adds qs = concat (map (\<lambda>q. case q of QAddTimer p \<Rightarrow> [p] | QCancel _ _ \<Rightarrow> []) qs)"

lemma queued_adds_simps [simp]:
  "queued_adds [] = []"
  "queued_adds (QAddTimer p # qs) = p # queued_adds qs"
  "queued_adds (QCancel p q # qs) = queued_adds qs"
  "queued_adds (qs @ qs') = queued_adds qs @ queued_adds qs'"
  by (simp_all add: queued_adds_def)

lemma tq_wfD:
  assumes "tq_wf E s"
  shows tq_wf_sorted: "sorted (timers s)" "sorted (activeTimers s)"
    and tq_wf_distinct: "distinct (map snd (timers s))" "distinct (map fst (activeTimers s))"
      "distinct (map fst (heap s))"
    and tq_wf_same: "snd ` set (timers s) = fst ` set (activeTimers s)"
    and tq_wf_timers: "\<forall>(w, p) \<in> set (timers s). \<exists>t. map_of (heap s) p = Some t \<and> expiration t = w"
    and tq_wf_actives: "\<forall>(p, q) \<in> set (activeTimers s). \<exists>t. map_of (heap s) p = Some t \<and> sequence t = q"
    and tq_wf_heap: "fst ` set (heap s) = E \<union> snd ` set (timers s)"
    and tq_wf_disjoint: "E \<inter> snd ` set (timers s) = {}"
    and tq_wf_addr: "\<forall>p \<in> fst ` set (heap s). p < UINTPTR_MAX"
  by (insert assms [unfolded tq_wf_def], (elim conjE, assumption)+)

lemma tq_wf_lengths: "tq_wf E s \<Longrightarrow> length (timers s) = length (activeTimers s)"
proof -
  assume wf: "tq_wf E s"
  have "length (timers s) = card (snd ` set (timers s))"
    using distinct_card [OF tq_wf_distinct(1) [OF wf]] by simp
  also have "\<dots> = card (fst ` set (activeTimers s))" using tq_wf_same [OF wf] by simp
  also have "\<dots> = length (activeTimers s)"
    using distinct_card [OF tq_wf_distinct(2) [OF wf]] by simp
  finally show ?thesis .
qed

lemma tq_wf_live: "tq_wf E s \<Longrightarrow> p \<in> E \<or> p \<in> snd ` set (timers s) \<Longrightarrow> \<exists>t. map_of (heap s) p = Some t"
proof -
  assume wf: "tq_wf E s" and "p \<in> E \<or> p \<in> snd ` set (timers s)"
  then have "p \<in> fst ` set (heap s)" using tq_wf_heap [OF wf] by blast
  then show ?thesis by (metis map_of_eq_None_iff not_None_eq)
qed

lemma tq_wf_timer: "tq_wf E s \<Longrightarrow> (w, p) \<in> set (timers s) \<Longrightarrow> map_of (heap s) p = Some t \<Longrightarrow> expiration t = w"
  using tq_wf_timers [of E s] by fastforce

lemma tq_wf_active: "tq_wf E s \<Longrightarrow> (p, q) \<in> set (activeTimers s) \<Longrightarrow>
    \<exists>t. map_of (heap s) p = Some t \<and> sequence t = q \<and> (expiration t, p) \<in> set (timers s)"
proof -
  assume wf: "tq_wf E s" and a: "(p, q) \<in> set (activeTimers s)"
  from bspec [OF tq_wf_actives [OF wf] a] obtain t where
    t: "map_of (heap s) p = Some t" "sequence t = q" by auto
  have "p \<in> fst ` set (activeTimers s)" using a by (rule image_eqI [rotated]) simp
  then have "p \<in> snd ` set (timers s)" by (simp only: tq_wf_same [OF wf])
  then obtain w where w: "(w, p) \<in> set (timers s)" by auto
  with tq_wf_timer [OF wf w t(1)] t show ?thesis by auto
qed

lemma tq_wf_timer_active: "tq_wf E s \<Longrightarrow> (w, p) \<in> set (timers s) \<Longrightarrow> map_of (heap s) p = Some t \<Longrightarrow>
    (p, sequence t) \<in> set (activeTimers s)"
proof -
  assume wf: "tq_wf E s" and w: "(w, p) \<in> set (timers s)" and t: "map_of (heap s) p = Some t"
  have "p \<in> snd ` set (timers s)" using w by (rule image_eqI [rotated]) simp
  then have "p \<in> fst ` set (activeTimers s)" by (simp only: tq_wf_same [OF wf])
  then obtain q where q: "(p, q) \<in> set (activeTimers s)" by auto
  with tq_wf_active [OF wf q] t show ?thesis by auto
qed

lemma distinct_map_insort: "distinct (map f (insort x xs)) \<longleftrightarrow> distinct (map f (x # xs))"
proof -
  have "mset (map f (insort x xs)) = mset (map f (x # xs))" by (simp only: mset_map mset_insort mset.simps)
  then show ?thesis by (rule mset_eq_imp_distinct_iff)
qed

text \<open>\<open>insert\<close> of a live timer that is not in the queue cannot fail.\<close>

lemma tq_insert_ok:
  assumes wf: "tq_wf E s" and p: "p \<in> E" and t: "map_of (heap s) p = Some t"
  shows "\<exists>s' ec. tq_insert p s = Some (s', ec) \<and> tq_wf (E - {p}) s' \<and>
    s' = s\<lparr>timers := insort (expiration t, p) (timers s),
           activeTimers := insort (p, sequence t) (activeTimers s)\<rparr> \<and>
    ec = (case timers s of [] \<Rightarrow> True | e # _ \<Rightarrow> expiration t < fst e)"
proof -
  have np: "p \<notin> snd ` set (timers s)" using tq_wf_disjoint [OF wf] p by blast
  then have na: "p \<notin> fst ` set (activeTimers s)" using tq_wf_same [OF wf] by simp
  have n: "(expiration t, p) \<notin> set (timers s)" "(p, sequence t) \<notin> set (activeTimers s)"
    using np na by force+
  let ?s = "s\<lparr>timers := insort (expiration t, p) (timers s),
    activeTimers := insort (p, sequence t) (activeTimers s)\<rparr>"
  have "tq_wf (E - {p}) ?s"
    unfolding tq_wf_def
  proof (intro conjI)
    show "sorted (timers ?s)" "sorted (activeTimers ?s)"
      using tq_wf_sorted [OF wf] by (simp_all add: sorted_insort)
    show "distinct (map snd (timers ?s))" "distinct (map fst (activeTimers ?s))" "distinct (map fst (heap ?s))"
      using tq_wf_distinct [OF wf] np na by (simp_all add: distinct_map_insort)
    show "snd ` set (timers ?s) = fst ` set (activeTimers ?s)"
      using tq_wf_same [OF wf] by (simp add: set_insort_key)
    show "\<forall>(w, p) \<in> set (timers ?s). \<exists>t. map_of (heap ?s) p = Some t \<and> expiration t = w"
      using tq_wf_timers [OF wf] t by (simp add: set_insort_key)
    show "\<forall>(p, q) \<in> set (activeTimers ?s). \<exists>t. map_of (heap ?s) p = Some t \<and> sequence t = q"
      using tq_wf_actives [OF wf] t by (simp add: set_insort_key)
    show "fst ` set (heap ?s) = (E - {p}) \<union> snd ` set (timers ?s)"
      using tq_wf_heap [OF wf] p by (auto simp: set_insort_key)
    show "(E - {p}) \<inter> snd ` set (timers ?s) = {}"
      using tq_wf_disjoint [OF wf] by (auto simp: set_insort_key)
    show "\<forall>p \<in> fst ` set (heap ?s). p < UINTPTR_MAX" using tq_wf_addr [OF wf] by simp
  qed
  then show ?thesis using t n tq_wf_lengths [OF wf] by (simp add: tq_insert_def Let_def)
qed

lemma resetTimerfd_fields [simp]:
  "timers (resetTimerfd e now s) = timers s" "activeTimers (resetTimerfd e now s) = activeTimers s"
  "heap (resetTimerfd e now s) = heap s" "queuedCalls (resetTimerfd e now s) = queuedCalls s"
  "runs (resetTimerfd e now s) = runs s" "numCreated (resetTimerfd e now s) = numCreated s"
  "callingExpiredTimers (resetTimerfd e now s) = callingExpiredTimers s"
  "cancelingTimers (resetTimerfd e now s) = cancelingTimers s"
  by (simp_all add: resetTimerfd_def split_beta)

lemma tq_wf_cong:
  "timers s' = timers s \<Longrightarrow> activeTimers s' = activeTimers s \<Longrightarrow> heap s' = heap s \<Longrightarrow>
   tq_wf E s' = tq_wf E s"
  by (simp add: tq_wf_def)

lemma addTimerInLoop_ok:
  assumes wf: "tq_wf E s" and p: "p \<in> E" and t: "map_of (heap s) p = Some t"
  shows "\<exists>s'. addTimerInLoop p now s = Some s' \<and> tq_wf (E - {p}) s' \<and>
    timers s' = insort (expiration t, p) (timers s) \<and>
    activeTimers s' = insort (p, sequence t) (activeTimers s) \<and> heap s' = heap s \<and>
    queuedCalls s' = queuedCalls s \<and> runs s' = runs s \<and> numCreated s' = numCreated s \<and>
    cancelingTimers s' = cancelingTimers s \<and>
    callingExpiredTimers s' = callingExpiredTimers s \<and>
    timerfd s' = (if (case timers s of [] \<Rightarrow> True | e # _ \<Rightarrow> expiration t < fst e)
      then timerfd (resetTimerfd (expiration t) now s) else timerfd s)"
proof -
  from tq_insert_ok [OF assms] obtain s1 ec where s1: "tq_insert p s = Some (s1, ec)"
    "tq_wf (E - {p}) s1" "s1 = s\<lparr>timers := insort (expiration t, p) (timers s),
           activeTimers := insort (p, sequence t) (activeTimers s)\<rparr>"
    and ec: "ec = (case timers s of [] \<Rightarrow> True | e # _ \<Rightarrow> expiration t < fst e)" by blast
  define s' where "s' = (if ec then resetTimerfd (expiration t) now s1 else s1)"
  have t1: "map_of (heap s1) p = Some t" using s1(3) t by simp
  have "addTimerInLoop p now s = Some s'"
    unfolding addTimerInLoop_def s1(1) s'_def by (simp add: t1)
  moreover have "tq_wf (E - {p}) s'"
    using s1(2) by (simp add: s'_def tq_wf_cong [of "resetTimerfd (expiration t) now s1" s1])
  moreover have "timerfd (resetTimerfd (expiration t) now s1) = timerfd (resetTimerfd (expiration t) now s)"
    by (simp add: resetTimerfd_def split_beta)
  ultimately show ?thesis
    unfolding ec [symmetric] by (intro exI [of _ s']) (simp add: s'_def s1(3))
qed

lemma tq_wf_cases:
  assumes "sorted (timers s)" "sorted (activeTimers s)" "distinct (map snd (timers s))"
    "distinct (map fst (activeTimers s))" "distinct (map fst (heap s))"
    "snd ` set (timers s) = fst ` set (activeTimers s)"
    "\<And>w p. (w, p) \<in> set (timers s) \<Longrightarrow> \<exists>t. map_of (heap s) p = Some t \<and> expiration t = w"
    "\<And>p q. (p, q) \<in> set (activeTimers s) \<Longrightarrow> \<exists>t. map_of (heap s) p = Some t \<and> sequence t = q"
    "fst ` set (heap s) = E \<union> snd ` set (timers s)" "E \<inter> snd ` set (timers s) = {}"
    "\<And>p. p \<in> fst ` set (heap s) \<Longrightarrow> p < UINTPTR_MAX"
  shows "tq_wf E s"
  unfolding tq_wf_def by (intro conjI; (rule assms | (intro ballI, rule assms, assumption) |
      (clarify, rule assms, assumption)))

lemma tq_wf_not_in_E:
  assumes "tq_wf E s" "p \<in> E"
  shows "(w, p) \<notin> set (timers s)" "(p, q) \<notin> set (activeTimers s)"
proof -
  have np: "p \<notin> snd ` set (timers s)" using tq_wf_disjoint [OF assms(1)] assms(2) by blast
  then show "(w, p) \<notin> set (timers s)" by force
  from np have "p \<notin> fst ` set (activeTimers s)" using tq_wf_same [OF assms(1)] by simp
  then show "(p, q) \<notin> set (activeTimers s)" by force
qed

lemma tq_wf_new:
  assumes wf: "tq_wf E s" and p: "p \<notin> fst ` set (heap s)" "p < UINTPTR_MAX"
  shows "tq_wf (insert p E) (s\<lparr>heap := (p, t) # heap s, numCreated := n\<rparr>)"
proof (rule tq_wf_cases)
  have pt: "p \<notin> snd ` set (timers s)" "p \<notin> E" using p tq_wf_heap [OF wf] by auto
  then have pa: "p \<notin> fst ` set (activeTimers s)" using tq_wf_same [OF wf] by simp
  let ?s = "s\<lparr>heap := (p, t) # heap s, numCreated := n\<rparr>"
  fix w q
  assume "(w, q) \<in> set (timers ?s)"
  moreover from this pt have "q \<noteq> p" by force
  ultimately show "\<exists>t. map_of (heap ?s) q = Some t \<and> expiration t = w"
    using bspec [OF tq_wf_timers [OF wf], of "(w, q)"] by simp
next
  have pt: "p \<notin> snd ` set (timers s)" "p \<notin> E" using p tq_wf_heap [OF wf] by auto
  then have pa: "p \<notin> fst ` set (activeTimers s)" using tq_wf_same [OF wf] by simp
  let ?s = "s\<lparr>heap := (p, t) # heap s, numCreated := n\<rparr>"
  fix q i
  assume "(q, i) \<in> set (activeTimers ?s)"
  moreover from this pa have "q \<noteq> p" by force
  ultimately show "\<exists>t. map_of (heap ?s) q = Some t \<and> sequence t = i"
    using bspec [OF tq_wf_actives [OF wf], of "(q, i)"] by simp
qed (use p tq_wf_heap [OF wf] tq_wf_disjoint [OF wf] tq_wf_sorted [OF wf] tq_wf_distinct [OF wf]
      tq_wf_same [OF wf] tq_wf_addr [OF wf] in auto)

lemma tq_wf_heap_other:
  assumes wf: "tq_wf E s" and p: "p \<in> E"
    and h: "\<And>q. q \<noteq> p \<Longrightarrow> map_of h q = map_of (heap s) q"
    and d: "distinct (map fst h)" "fst ` set h = E' \<union> snd ` set (timers s)" "E' \<subseteq> E"
  shows "tq_wf E' (s\<lparr>heap := h\<rparr>)"
proof (rule tq_wf_cases)
  fix w q
  assume "(w, q) \<in> set (timers (s\<lparr>heap := h\<rparr>))"
  moreover from this tq_wf_not_in_E [OF wf p] have "q \<noteq> p" by force
  ultimately show "\<exists>t. map_of (heap (s\<lparr>heap := h\<rparr>)) q = Some t \<and> expiration t = w"
    using bspec [OF tq_wf_timers [OF wf], of "(w, q)"] h by simp
next
  fix q i
  assume "(q, i) \<in> set (activeTimers (s\<lparr>heap := h\<rparr>))"
  moreover from this tq_wf_not_in_E [OF wf p] have "q \<noteq> p" by force
  ultimately show "\<exists>t. map_of (heap (s\<lparr>heap := h\<rparr>)) q = Some t \<and> sequence t = i"
    using bspec [OF tq_wf_actives [OF wf], of "(q, i)"] h by simp
next
  fix q
  assume "q \<in> fst ` set (heap (s\<lparr>heap := h\<rparr>))"
  then have "q \<in> fst ` set (heap s)" using d tq_wf_heap [OF wf] by auto
  then show "q < UINTPTR_MAX" using tq_wf_addr [OF wf] by blast
qed (use d p tq_wf_disjoint [OF wf] tq_wf_sorted [OF wf] tq_wf_distinct [OF wf]
      tq_wf_same [OF wf] in auto)

lemma tq_wf_update:
  assumes "tq_wf E s" "p \<in> E"
  shows "tq_wf E (s\<lparr>heap := AList.update p t (heap s)\<rparr>)"
proof (rule tq_wf_heap_other [OF assms])
  have "p \<in> fst ` set (heap s)" using assms tq_wf_heap [OF assms(1)] by blast
  then show "fst ` set (AList.update p t (heap s)) = E \<union> snd ` set (timers s)"
    using tq_wf_heap [OF assms(1)] dom_update [of p t "heap s"] by auto
qed (use tq_wf_distinct(3) [OF assms(1)] in \<open>auto simp: update_conv' distinct_update\<close>)

lemma tq_wf_delete:
  assumes "tq_wf E s" "p \<in> E"
  shows "tq_wf (E - {p}) (s\<lparr>heap := AList.delete p (heap s)\<rparr>)"
proof (rule tq_wf_heap_other [OF assms])
  have "p \<notin> snd ` set (timers s)" using tq_wf_disjoint [OF assms(1)] assms(2) by blast
  then show "fst ` set (AList.delete p (heap s)) = (E - {p}) \<union> snd ` set (timers s)"
    using tq_wf_heap [OF assms(1)] by (auto simp flip: dom_map_of_conv_image_fst simp: delete_conv')
qed (use tq_wf_distinct(3) [OF assms(1)] in \<open>auto simp: delete_conv' distinct_delete\<close>)

lemma cancelInLoop_ok:
  assumes wf: "tq_wf E s"
  shows "\<exists>s'. cancelInLoop (p, q) s = Some s' \<and> tq_wf E s' \<and>
    set (activeTimers s') = set (activeTimers s) - {(p, q)} \<and>
    set (timers s') \<subseteq> set (timers s) \<and> runs s' = runs s \<and> numCreated s' = numCreated s \<and>
    queuedCalls s' = queuedCalls s \<and> timerfd s' = timerfd s \<and> set (heap s') \<subseteq> set (heap s) \<and>
    (\<forall>p' \<in> E. map_of (heap s') p' = map_of (heap s) p') \<and>
    callingExpiredTimers s' = callingExpiredTimers s \<and>
    set (cancelingTimers s') = set (cancelingTimers s) \<union>
      (if callingExpiredTimers s \<and> (p, q) \<notin> set (activeTimers s) then {(p, q)} else {})"
proof (cases "(p, q) \<in> set (activeTimers s)")
  case False
  then show ?thesis using wf tq_wf_lengths [OF wf]
    by (simp add: cancelInLoop_def tq_wf_cong [of "s\<lparr>cancelingTimers := c\<rparr>" s for c])
next
  case True
  from tq_wf_active [OF wf True] obtain t where t: "map_of (heap s) p = Some t" "sequence t = q"
    "(expiration t, p) \<in> set (timers s)" by blast
  let ?s = "s\<lparr>timers := remove1 (expiration t, p) (timers s), heap := AList.delete p (heap s),
    activeTimers := remove1 (p, q) (activeTimers s)\<rparr>"
  have pt: "p \<in> snd ` set (timers s)" using t(3) by force
  have dt: "distinct (timers s)" "distinct (activeTimers s)"
    using tq_wf_distinct [OF wf] by (auto simp: distinct_map)
  have timers_uniq: "snd y \<noteq> snd (expiration t, p)"
    if "y \<in> set (timers s)" "y \<noteq> (expiration t, p)" for y
    using tq_wf_timer [OF wf _ t(1), of "fst y"] that by (cases y) auto
  have active_uniq: "fst y \<noteq> fst (p, q)"
    if "y \<in> set (activeTimers s)" "y \<noteq> (p, q)" for y
    using tq_wf_active [OF wf, of "fst y" "snd y"] that t by (cases y) auto
  have keysT: "snd ` set (timers ?s) = snd ` set (timers s) - {p}"
    using image_remove_key [of "set (timers s)" "(expiration t, p)" snd, OF timers_uniq] dt
    by (simp add: set_remove1_eq)
  have keysA: "fst ` set (activeTimers ?s) = fst ` set (activeTimers s) - {p}"
    using image_remove_key [of "set (activeTimers s)" "(p, q)" fst, OF active_uniq] dt
    by (simp add: set_remove1_eq)
  have keysH: "fst ` set (heap ?s) = fst ` set (heap s) - {p}"
    by (auto simp flip: dom_map_of_conv_image_fst simp: delete_conv')
  have "tq_wf E ?s"
  proof (rule tq_wf_cases)
    fix w i
    assume a: "(w, i) \<in> set (timers ?s)"
    then have "i \<noteq> p" using keysT by force
    with a dt show "\<exists>t. map_of (heap ?s) i = Some t \<and> expiration t = w"
      using bspec [OF tq_wf_timers [OF wf], of "(w, i)"] by (simp add: delete_conv')
  next
    fix i k
    assume a: "(i, k) \<in> set (activeTimers ?s)"
    then have "i \<noteq> p" using keysA by force
    with a dt show "\<exists>t. map_of (heap ?s) i = Some t \<and> sequence t = k"
      using bspec [OF tq_wf_actives [OF wf], of "(i, k)"] by (simp add: delete_conv')
  next
    show "snd ` set (timers ?s) = fst ` set (activeTimers ?s)"
      unfolding keysT keysA tq_wf_same [OF wf] ..
    show "fst ` set (heap ?s) = E \<union> snd ` set (timers ?s)"
      unfolding keysT keysH using tq_wf_heap [OF wf] tq_wf_disjoint [OF wf] pt by blast
    show "E \<inter> snd ` set (timers ?s) = {}"
      unfolding keysT using tq_wf_disjoint [OF wf] by blast
    fix i
    assume "i \<in> fst ` set (heap ?s)"
    then show "i < UINTPTR_MAX" unfolding keysH using tq_wf_addr [OF wf] by blast
  qed (use tq_wf_sorted [OF wf] tq_wf_distinct [OF wf] in
      \<open>simp_all add: sorted_remove1 distinct_delete distinct_map_remove1\<close>)
  moreover have "cancelInLoop (p, q) s = Some ?s"
    using True t tq_wf_lengths [OF wf] by (simp add: cancelInLoop_def length_remove1)
  moreover have "\<forall>p' \<in> E. map_of (heap ?s) p' = map_of (heap s) p'"
    using pt tq_wf_disjoint [OF wf] by (auto simp: delete_conv')
  moreover have "set (heap ?s) \<subseteq> set (heap s)" by (auto simp: AList.delete_eq)
  ultimately show ?thesis using True dt
    by (intro exI [of _ ?s]) (auto simp: set_remove1_eq dest: notin_set_remove1)
qed

section \<open>Expiration\<close>

lemma below_sentry:
  assumes "tq_wf E s" "e \<in> set (timers s)"
  shows "e < (now, UINTPTR_MAX) \<longleftrightarrow> fst e \<le> now"
proof -
  have "snd e \<in> fst ` set (heap s)" using assms tq_wf_heap [OF assms(1)] by blast
  then have "snd e < UINTPTR_MAX" using tq_wf_addr [OF assms(1)] by blast
  then show ?thesis by (cases e) (auto simp: less_prod_def less_le)
qed

definition expired_at :: "Timestamp \<Rightarrow> 'c tq \<Rightarrow> entry list" where
  "expired_at now s = filter (\<lambda>e. fst e \<le> now) (timers s)"

lemma sorted_takeWhile_filter:
  "sorted xs \<Longrightarrow> takeWhile (\<lambda>x. x < a) xs = filter (\<lambda>x. x < a) xs"
proof (induction xs)
  case (Cons x xs)
  then show ?case
  proof (cases "x < a")
    case False
    with Cons.prems have "\<forall>y \<in> set (x # xs). \<not> y < a" by auto
    then have "filter (\<lambda>x. x < a) (x # xs) = []" by (simp only: filter_empty_conv)
    with False show ?thesis by simp
  qed simp
qed simp

lemma sorted_dropWhile_filter:
  "sorted xs \<Longrightarrow> dropWhile (\<lambda>x. x < a) xs = filter (\<lambda>x. \<not> x < a) xs"
proof (induction xs)
  case (Cons x xs)
  then show ?case
  proof (cases "x < a")
    case False
    with Cons.prems have "\<forall>y \<in> set (x # xs). \<not> y < a" by auto
    then have "filter (\<lambda>x. \<not> x < a) (x # xs) = x # xs" by (simp only: filter_id_conv)
    with False show ?thesis by simp
  qed simp
qed simp

lemma split_expired:
  assumes "tq_wf E s"
  shows "takeWhile (\<lambda>e. e < (now, UINTPTR_MAX)) (timers s) = expired_at now s"
    and "dropWhile (\<lambda>e. e < (now, UINTPTR_MAX)) (timers s) = filter (\<lambda>e. now < fst e) (timers s)"
  using below_sentry [OF assms, of _ now] tq_wf_sorted(1) [OF assms]
  by (auto simp: sorted_takeWhile_filter sorted_dropWhile_filter expired_at_def not_le
      intro!: filter_cong)

lemma erase_active_ok:
  assumes "distinct (map fst (activeTimers s))" "distinct (map snd es)"
    "\<forall>e \<in> set es. \<exists>t. map_of (heap s) (snd e) = Some t \<and> (snd e, sequence t) \<in> set (activeTimers s)"
  shows "erase_active es s =
    Some (s\<lparr>activeTimers := filter (\<lambda>a. fst a \<notin> snd ` set es) (activeTimers s)\<rparr>)"
  using assms
proof (induction es arbitrary: s)
  case (Cons e es)
  then obtain t where t: "map_of (heap s) (snd e) = Some t"
    "(snd e, sequence t) \<in> set (activeTimers s)" by auto
  have inj: "inj_on fst (set (activeTimers s))" using Cons.prems(1) by (simp add: distinct_map)
  have rm: "remove1 (snd e, sequence t) (activeTimers s) = filter (\<lambda>a. fst a \<noteq> snd e) (activeTimers s)"
  proof -
    have "remove1 (snd e, sequence t) (activeTimers s) =
      filter (\<lambda>a. (snd e, sequence t) \<noteq> a) (activeTimers s)"
      using Cons.prems(1) by (simp add: distinct_map distinct_remove1_removeAll removeAll_filter_not_eq)
    also have "\<dots> = filter (\<lambda>a. fst a \<noteq> snd e) (activeTimers s)"
      using inj_onD [OF inj] t(2) by (intro filter_cong) fastforce+
    finally show ?thesis .
  qed
  let ?s = "s\<lparr>activeTimers := filter (\<lambda>a. fst a \<noteq> snd e) (activeTimers s)\<rparr>"
  have "erase_active es ?s = Some (?s\<lparr>activeTimers := filter (\<lambda>a. fst a \<notin> snd ` set es) (activeTimers ?s)\<rparr>)"
  proof (rule Cons.IH)
    show "distinct (map fst (activeTimers ?s))" using Cons.prems(1) by (simp add: distinct_map_filter)
    show "distinct (map snd es)" using Cons.prems(2) by simp
    show "\<forall>e \<in> set es. \<exists>t. map_of (heap ?s) (snd e) = Some t \<and> (snd e, sequence t) \<in> set (activeTimers ?s)"
      using Cons.prems(2,3) by (force simp: image_iff)
  qed
  moreover have "filter (\<lambda>a. fst a \<notin> snd ` set es) (activeTimers ?s) =
    filter (\<lambda>a. fst a \<notin> snd ` set (e # es)) (activeTimers s)"
    by (simp add: conj_commute)
  ultimately show ?case using t rm by simp
qed simp

lemma getExpired_ok:
  assumes wf: "tq_wf E s"
  shows "\<exists>s'. getExpired now s = Some (expired_at now s, s') \<and>
    tq_wf (E \<union> snd ` set (expired_at now s)) s' \<and>
    s' = s\<lparr>timers := filter (\<lambda>e. now < fst e) (timers s),
           activeTimers := filter (\<lambda>a. fst a \<notin> snd ` set (expired_at now s)) (activeTimers s)\<rparr>"
proof -
  let ?ex = "expired_at now s"
  let ?s = "s\<lparr>timers := filter (\<lambda>e. now < fst e) (timers s),
           activeTimers := filter (\<lambda>a. fst a \<notin> snd ` set ?ex) (activeTimers s)\<rparr>"
  have parts: "set (timers s) = set ?ex \<union> set (timers ?s)" by (auto simp: expired_at_def not_le)
  have inj: "inj_on snd (set (timers s))" using tq_wf_distinct(1) [OF wf] by (simp add: distinct_map)
  have disj: "snd ` set ?ex \<inter> snd ` set (timers ?s) = {}"
  proof -
    have sub: "set ?ex \<subseteq> set (timers s)" "set (timers ?s) \<subseteq> set (timers s)"
      by (auto simp: expired_at_def)
    have "set ?ex \<inter> set (timers ?s) = {}" by (auto simp: expired_at_def)
    then show ?thesis using inj_on_image_Int [OF inj sub] by (simp only: image_empty)
  qed
  have er: "erase_active ?ex (s\<lparr>timers := filter (\<lambda>e. now < fst e) (timers s)\<rparr>) = Some ?s"
  proof (subst erase_active_ok)
    show "\<forall>e \<in> set ?ex. \<exists>t. map_of (heap (s\<lparr>timers := filter (\<lambda>e. now < fst e) (timers s)\<rparr>)) (snd e) = Some t \<and>
      (snd e, sequence t) \<in> set (activeTimers (s\<lparr>timers := filter (\<lambda>e. now < fst e) (timers s)\<rparr>))"
    proof
      fix e
      assume "e \<in> set ?ex"
      then have e: "(fst e, snd e) \<in> set (timers s)" by (simp add: expired_at_def)
      then obtain t where "map_of (heap s) (snd e) = Some t" using bspec [OF tq_wf_timers [OF wf] e] by auto
      with tq_wf_timer_active [OF wf e this]
      show "\<exists>t. map_of (heap (s\<lparr>timers := filter (\<lambda>e. now < fst e) (timers s)\<rparr>)) (snd e) = Some t \<and>
        (snd e, sequence t) \<in> set (activeTimers (s\<lparr>timers := filter (\<lambda>e. now < fst e) (timers s)\<rparr>))"
        by simp
    qed
  qed (use tq_wf_distinct [OF wf] in \<open>auto simp: expired_at_def distinct_map_filter\<close>)
  have "tq_wf (E \<union> snd ` set ?ex) ?s"
  proof (rule tq_wf_cases)
    show "snd ` set (timers ?s) = fst ` set (activeTimers ?s)"
    proof -
      have "snd ` set (timers ?s) = snd ` set (timers s) - snd ` set ?ex"
        using disj unfolding parts image_Un by blast
      also have "\<dots> = fst ` set (activeTimers s) - snd ` set ?ex" using tq_wf_same [OF wf] by simp
      also have "\<dots> = fst ` set (activeTimers ?s)" by auto
      finally show ?thesis .
    qed
    show "fst ` set (heap ?s) = E \<union> snd ` set ?ex \<union> snd ` set (timers ?s)"
      using tq_wf_heap [OF wf] unfolding parts by (simp add: image_Un Un_assoc)
    show "(E \<union> snd ` set ?ex) \<inter> snd ` set (timers ?s) = {}"
      using disj tq_wf_disjoint [OF wf] unfolding parts by (simp add: image_Un) blast
  qed (use tq_wf_sorted [OF wf] tq_wf_distinct [OF wf] tq_wf_timers [OF wf] tq_wf_actives [OF wf]
      tq_wf_addr [OF wf] in \<open>auto simp: sorted_wrt_filter distinct_map_filter\<close>)
  moreover have "filter (\<lambda>e. now < fst e) (timers s) = [] \<or>
      now < fst (hd (filter (\<lambda>e. now < fst e) (timers s)))"
    using hd_in_set [of "filter (\<lambda>e. now < fst e) (timers s)"] by auto
  ultimately show ?thesis
    using er tq_wf_lengths [OF wf] tq_wf_lengths [of "E \<union> snd ` set ?ex" ?s]
    by (simp add: getExpired_def split_expired [OF wf] Let_def del: dropWhile_eq_Nil_conv)
qed

section \<open>Frames\<close>

text \<open>What the operations on a queue leave alone while the timers of \<open>E\<close> are out of it.\<close>

definition tq_frame :: "addr set \<Rightarrow> 'c tq \<Rightarrow> 'c tq \<Rightarrow> bool" where
  "tq_frame E s s' \<longleftrightarrow>
     runs s' = runs s \<and> queuedCalls s' = queuedCalls s \<and>
     (\<forall>p \<in> E. map_of (heap s') p = map_of (heap s) p) \<and>
     callingExpiredTimers s' = callingExpiredTimers s \<and>
     set (cancelingTimers s) \<subseteq> set (cancelingTimers s') \<and> numCreated s \<le> numCreated s'"

lemma tq_frame_refl [simp]: "tq_frame E s s"
  by (simp add: tq_frame_def)

lemma tq_frame_trans: "tq_frame E s s' \<Longrightarrow> tq_frame E s' s'' \<Longrightarrow> tq_frame E s s''"
  by (auto simp: tq_frame_def)

lemma tq_frame_mono: "tq_frame E s s' \<Longrightarrow> E' \<subseteq> E \<Longrightarrow> tq_frame E' s s'"
  by (auto simp: tq_frame_def)

text \<open>The identifier \<open>a\<close> belongs to no live timer and will not be given out again.\<close>

definition dead :: "active_timer \<Rightarrow> 'c tq \<Rightarrow> bool" where
  "dead a s \<longleftrightarrow> snd a \<le> numCreated s \<and> (\<forall>t. map_of (heap s) (fst a) = Some t \<longrightarrow> sequence t \<noteq> snd a)"

definition seqs_bounded :: "'c tq \<Rightarrow> bool" where
  "seqs_bounded s \<longleftrightarrow> (\<forall>p t. map_of (heap s) p = Some t \<longrightarrow> sequence t \<le> numCreated s)"

text \<open>The timer descriptor fires no later than the earliest expiration, or 100 microseconds after it
  was set, whichever is later; \<open>P\<close> selects the expirations for which this is claimed.\<close>

definition armed_if :: "(Timestamp \<Rightarrow> bool) \<Rightarrow> 'c tq \<Rightarrow> bool" where
  "armed_if P s \<longleftrightarrow>
     (case timers s of
        [] \<Rightarrow> True
      | e # _ \<Rightarrow> P (fst e) \<longrightarrow>
          (\<exists>since fires. timerfd s = Some (since, fires) \<and>
             fires \<le> max (microSecondsSinceEpoch (fst e)) (since + 100)))"

lemma armed_if_cong:
  "timers s' = timers s \<Longrightarrow> timerfd s' = timerfd s \<Longrightarrow> armed_if P s' = armed_if P s"
  by (simp only: armed_if_def)

definition down_closed :: "(Timestamp \<Rightarrow> bool) \<Rightarrow> bool" where
  "down_closed P \<longleftrightarrow> (\<forall>w w'. P w' \<longrightarrow> w \<le> w' \<longrightarrow> P w)"

lemma resetTimerfd_fires:
  "timerfd (resetTimerfd when now s) =
    Some (microSecondsSinceEpoch now,
      microSecondsSinceEpoch now + max 100 (microSecondsSinceEpoch when - microSecondsSinceEpoch now))"
proof -
  define m where "m = max 100 (microSecondsSinceEpoch when - microSecondsSinceEpoch now)"
  have "(if microSecondsSinceEpoch when - microSecondsSinceEpoch now < 100 then 100
      else microSecondsSinceEpoch when - microSecondsSinceEpoch now) = m" by (simp add: m_def max_def)
  moreover have "m sdiv 1000000 * 1000000 + m smod 1000000 * 1000 div 1000 = m"
  proof -
    have "0 < m" by (simp add: m_def)
    then show ?thesis by (simp add: signed_divide_int_def signed_modulo_int_def)
  qed
  ultimately show ?thesis
    by (simp add: resetTimerfd_def howMuchTimeFromNow_def kMicroSecondsPerSecond_def Let_def
        add.assoc flip: m_def)
qed

lemma arm_bound: "(a :: int) + max 100 (w - a) \<le> max w (a + 100)"
  by (simp add: max_def)

lemma armed_reset:
  "(\<And>e es. timers s = e # es \<Longrightarrow> fst e = when) \<Longrightarrow> armed_if P (resetTimerfd when now s)"
  by (auto simp: armed_if_def resetTimerfd_fires arm_bound split: list.splits)

lemma armed_insort:
  assumes "armed_if P s" "timers s' = insort (w, p) (timers s)"
    "timerfd s' = (if (case timers s of [] \<Rightarrow> True | e # _ \<Rightarrow> w < fst e)
       then timerfd (resetTimerfd w now s) else timerfd s)"
  shows "armed_if P s'"
proof (cases "timers s")
  case Nil
  then show ?thesis using assms by (simp add: armed_if_def resetTimerfd_fires arm_bound)
next
  case (Cons e es)
  show ?thesis
  proof (cases "w < fst e")
    case True
    then have "timers s' = (w, p) # e # es" using assms(2) Cons by (cases e) (simp add: less_imp_le)
    then show ?thesis using assms(3) Cons True by (simp add: armed_if_def resetTimerfd_fires arm_bound)
  next
    case False
    then obtain x xs where "timers s' = x # xs" "fst x = fst e"
      using assms(2) Cons by (cases e) (auto split: if_splits)
    then show ?thesis using assms(1,3) Cons False by (simp add: armed_if_def)
  qed
qed

lemma armed_subset:
  assumes "armed_if P s" "down_closed P" "sorted (timers s)" "set (timers s') \<subseteq> set (timers s)"
    "timerfd s' = timerfd s"
  shows "armed_if P s'"
proof (cases "timers s'")
  case (Cons e' es')
  then obtain e es where s: "timers s = e # es" using assms(4) by (cases "timers s") auto
  have "e' \<in> set (e # es)" using assms(4) Cons s by auto
  then have le: "fst e \<le> fst e'" using assms(3) s by (cases e; cases e') (auto simp: less_eq_prod_def)
  have "armed_if P s \<longleftrightarrow> (P (fst e) \<longrightarrow> (\<exists>since fires. timerfd s = Some (since, fires) \<and>
      fires \<le> max (microSecondsSinceEpoch (fst e)) (since + 100)))"
    by (simp add: armed_if_def s)
  moreover have "P (fst e') \<Longrightarrow> P (fst e)" using assms(2) le unfolding down_closed_def by blast
  ultimately show ?thesis
    using assms(1,5) le Cons by (auto simp: armed_if_def less_eq_Timestamp_def)
qed (simp add: armed_if_def)

section \<open>Calls from user callbacks\<close>

lemma addTimer_ok:
  assumes wf: "tq_wf E s" and m: "malloc_ok alloc"
  shows "\<exists>s'. addTimer alloc cb when iv now s = Some s' \<and> tq_wf E s' \<and> tq_frame E s s' \<and>
    (armed_if P s \<longrightarrow> armed_if P s') \<and> (dead a s \<longrightarrow> dead a s') \<and>
    (seqs_bounded s \<longrightarrow> seqs_bounded s')"
proof -
  let ?p = "alloc (heap s)" and ?t = "Timer_new cb when iv (numCreated s + 1)"
  let ?s = "s\<lparr>heap := (?p, ?t) # heap s, numCreated := numCreated s + 1\<rparr>"
  have p: "?p \<notin> fst ` set (heap s)" "?p < UINTPTR_MAX" using m by (auto simp: malloc_ok_def)
  then have pE: "?p \<notin> E" using tq_wf_heap [OF wf] by blast
  have "tq_wf (insert ?p E) ?s" by (rule tq_wf_new [OF wf p])
  from addTimerInLoop_ok [OF this, of ?p ?t now] obtain s' where r:
    "addTimerInLoop ?p now ?s = Some s'" "tq_wf (insert ?p E - {?p}) s'"
    "timers s' = insort (expiration ?t, ?p) (timers ?s)" "heap s' = heap ?s"
    "queuedCalls s' = queuedCalls ?s" "runs s' = runs ?s" "numCreated s' = numCreated ?s"
    "cancelingTimers s' = cancelingTimers ?s"
    "callingExpiredTimers s' = callingExpiredTimers ?s"
    "timerfd s' = (if (case timers ?s of [] \<Rightarrow> True | e # _ \<Rightarrow> expiration ?t < fst e)
      then timerfd (resetTimerfd (expiration ?t) now ?s) else timerfd ?s)" by fastforce
  have exp: "expiration ?t = when" by (simp add: Timer_new_def)
  from r [unfolded exp] have s': "timers s' = insort (when, ?p) (timers s)" "heap s' = (?p, ?t) # heap s"
    "queuedCalls s' = queuedCalls s" "runs s' = runs s" "numCreated s' = numCreated s + 1"
    "cancelingTimers s' = cancelingTimers s"
    "timerfd s' = (if (case timers s of [] \<Rightarrow> True | e # _ \<Rightarrow> when < fst e)
      then timerfd (resetTimerfd when now s) else timerfd s)"
    by (simp_all add: resetTimerfd_fires)
  have call: "callingExpiredTimers s' = callingExpiredTimers s" using r(9) by simp
  have "tq_wf E s'" using r(2) pE by simp
  moreover have "tq_frame E s s'"
    using s' call pE by (auto simp: tq_frame_def)
  moreover have "armed_if P s \<longrightarrow> armed_if P s'" using armed_insort [OF _ s'(1,7)] by blast
  moreover have "dead a s \<longrightarrow> dead a s'"
    using s'(2,5) by (auto simp: dead_def Timer_new_def)
  moreover have "seqs_bounded s \<longrightarrow> seqs_bounded s'"
    using s'(2,5) by (fastforce simp: seqs_bounded_def Timer_new_def)
  ultimately show ?thesis using r(1) by (simp add: addTimer_def newTimer_def Let_def)
qed

lemma do_timer_call_ok:
  assumes wf: "tq_wf E s" and m: "malloc_ok alloc" and P: "down_closed P"
  shows "\<exists>s'. do_timer_call alloc c s = Some s' \<and> tq_wf E s' \<and> tq_frame E s s' \<and>
    (armed_if P s \<longrightarrow> armed_if P s') \<and> (dead a s \<longrightarrow> dead a s') \<and>
    (seqs_bounded s \<longrightarrow> seqs_bounded s')"
proof (cases c)
  case (CallAddTimer cb w iv now)
  then show ?thesis using addTimer_ok [OF wf m] by simp
next
  case (CallCancel i)
  obtain p q where i: "i = (p, q)" by (cases i)
  from cancelInLoop_ok [OF wf, of p q] obtain s' where s': "cancelInLoop (p, q) s = Some s'"
    "tq_wf E s'" "set (timers s') \<subseteq> set (timers s)" "runs s' = runs s"
    "numCreated s' = numCreated s" "queuedCalls s' = queuedCalls s" "timerfd s' = timerfd s"
    "set (heap s') \<subseteq> set (heap s)" "\<forall>p' \<in> E. map_of (heap s') p' = map_of (heap s) p'"
    "callingExpiredTimers s' = callingExpiredTimers s"
    "set (cancelingTimers s) \<subseteq> set (cancelingTimers s')" by auto
  have sub: "map_of (heap s) k = Some t" if "map_of (heap s') k = Some t" for k t
    using that s'(8) tq_wf_distinct(3) [OF wf] by (auto dest!: map_of_SomeD)
  have "dead a s \<longrightarrow> dead a s'" using s'(5) sub by (auto simp: dead_def)
  moreover have "seqs_bounded s \<longrightarrow> seqs_bounded s'" using s'(5) sub by (auto simp: seqs_bounded_def)
  moreover have "armed_if P s \<longrightarrow> armed_if P s'"
    using armed_subset [OF _ P tq_wf_sorted(1) [OF wf] s'(3,7)] by blast
  moreover have "tq_frame E s s'" using s' by (simp add: tq_frame_def)
  ultimately show ?thesis using s'(1,2) CallCancel i by simp
qed

lemma timer_calls_ok:
  assumes m: "malloc_ok alloc" and P: "down_closed P"
  shows "tq_wf E s \<Longrightarrow> \<exists>s'. timer_calls alloc cs s = Some s' \<and> tq_wf E s' \<and> tq_frame E s s' \<and>
    (armed_if P s \<longrightarrow> armed_if P s') \<and> (dead a s \<longrightarrow> dead a s') \<and>
    (seqs_bounded s \<longrightarrow> seqs_bounded s')"
proof (induction cs arbitrary: s)
  case (Cons c cs)
  from do_timer_call_ok [OF Cons.prems m P, of c a] obtain s1 where s1:
    "do_timer_call alloc c s = Some s1" "tq_wf E s1" "tq_frame E s s1"
    "armed_if P s \<longrightarrow> armed_if P s1" "dead a s \<longrightarrow> dead a s1" "seqs_bounded s \<longrightarrow> seqs_bounded s1" by blast
  from Cons.IH [OF s1(2)] obtain s2 where s2:
    "timer_calls alloc cs s1 = Some s2" "tq_wf E s2" "tq_frame E s1 s2"
    "armed_if P s1 \<longrightarrow> armed_if P s2" "dead a s1 \<longrightarrow> dead a s2" "seqs_bounded s1 \<longrightarrow> seqs_bounded s2" by blast
  show ?case using s1 s2 tq_frame_trans [OF s1(3) s2(3)] by auto
qed simp

text \<open>A cancellation among the calls of a callback is either executed at once or remembered.\<close>

lemma timer_calls_cancel:
  assumes m: "malloc_ok alloc"
  shows "tq_wf E s \<Longrightarrow> callingExpiredTimers s \<Longrightarrow> CallCancel a \<in> set cs \<Longrightarrow> fst a \<in> E \<Longrightarrow>
    timer_calls alloc cs s = Some s' \<Longrightarrow> a \<in> set (cancelingTimers s')"
proof (induction cs arbitrary: s)
  case (Cons c cs)
  have P: "down_closed (\<lambda>_. True)" by (simp add: down_closed_def)
  from do_timer_call_ok [OF Cons.prems(1) m P, of c a] obtain s1 where s1:
    "do_timer_call alloc c s = Some s1" "tq_wf E s1" "tq_frame E s s1" by blast
  with Cons.prems have rest: "timer_calls alloc cs s1 = Some s'" "callingExpiredTimers s1"
    by (simp_all add: tq_frame_def)
  show ?case
  proof (cases "CallCancel a \<in> set cs")
    case True
    from Cons.IH [OF s1(2) rest(2) True Cons.prems(4) rest(1)] show ?thesis .
  next
    case False
    with Cons.prems(3) have c: "c = CallCancel a" by simp
    obtain p q where a: "a = (p, q)" by (cases a)
    have "(p, q) \<notin> set (activeTimers s)"
      using tq_wf_not_in_E(2) [OF Cons.prems(1,4)] a by simp
    with cancelInLoop_ok [OF Cons.prems(1), of p q] s1(1) c a Cons.prems(2)
    have "a \<in> set (cancelingTimers s1)" by auto
    moreover from timer_calls_ok [OF m P s1(2), of cs a] rest(1)
    have "set (cancelingTimers s1) \<subseteq> set (cancelingTimers s')" by (auto simp: tq_frame_def)
    ultimately show ?thesis by blast
  qed
qed simp

definition entry_id :: "'c tq \<Rightarrow> entry \<Rightarrow> active_timer" where
  "entry_id s e = (snd e, sequence (the (map_of (heap s) (snd e))))"

definition entry_callback :: "'c tq \<Rightarrow> entry \<Rightarrow> 'c" where
  "entry_callback s e = callback (the (map_of (heap s) (snd e)))"

lemma run_expired_ok:
  assumes m: "malloc_ok alloc" and P: "down_closed P"
  shows "tq_wf E s \<Longrightarrow> snd ` set es \<subseteq> E \<Longrightarrow> \<exists>s'. run_expired alloc user es s = Some s' \<and> tq_wf E s' \<and>
    tq_frame E (s\<lparr>runs := runs s @ map (entry_id s) es\<rparr>) s' \<and>
    (armed_if P s \<longrightarrow> armed_if P s') \<and> (dead a s \<longrightarrow> dead a s') \<and>
    (seqs_bounded s \<longrightarrow> seqs_bounded s') \<and>
    (\<forall>e \<in> set es. callingExpiredTimers s \<longrightarrow> fst b \<in> E \<longrightarrow>
       (\<forall>s. CallCancel b \<in> set (user (entry_callback s' e) s)) \<longrightarrow> b \<in> set (cancelingTimers s'))"
proof (induction es arbitrary: s)
  case (Cons e es)
  from Cons.prems have "snd e \<in> E" by simp
  from tq_wf_live [OF Cons.prems(1)] this obtain t where t: "map_of (heap s) (snd e) = Some t" by blast
  let ?s = "s\<lparr>runs := runs s @ [(snd e, sequence t)]\<rparr>" and ?cs = "user (callback t) s"
  have wf: "tq_wf E ?s" using Cons.prems(1) by (simp add: tq_wf_cong [of ?s s])
  have keep: "armed_if P ?s = armed_if P s" "dead a ?s = dead a s" "seqs_bounded ?s = seqs_bounded s"
    by (simp_all add: armed_if_cong [of ?s s] dead_def seqs_bounded_def)
  from timer_calls_ok [OF m P wf, of ?cs a, unfolded keep] obtain s1 where s1:
    "timer_calls alloc ?cs ?s = Some s1" "tq_wf E s1" "tq_frame E ?s s1"
    "armed_if P s \<longrightarrow> armed_if P s1" "dead a s \<longrightarrow> dead a s1" "seqs_bounded s \<longrightarrow> seqs_bounded s1" by blast
  have "snd ` set es \<subseteq> E" using Cons.prems(2) by simp
  from Cons.IH [OF s1(2) this] obtain s2 where s2: "run_expired alloc user es s1 = Some s2"
    "tq_wf E s2" "tq_frame E (s1\<lparr>runs := runs s1 @ map (entry_id s1) es\<rparr>) s2"
    "armed_if P s1 \<longrightarrow> armed_if P s2" "dead a s1 \<longrightarrow> dead a s2" "seqs_bounded s1 \<longrightarrow> seqs_bounded s2"
    "\<forall>e \<in> set es. callingExpiredTimers s1 \<longrightarrow> fst b \<in> E \<longrightarrow>
       (\<forall>s. CallCancel b \<in> set (user (entry_callback s2 e) s)) \<longrightarrow> b \<in> set (cancelingTimers s2)"
    by blast
  have same: "map (entry_id s1) es = map (entry_id s) es"
    using s1(3) Cons.prems(2) by (auto simp: tq_frame_def entry_id_def image_subset_iff)
  have fr: "tq_frame E (s\<lparr>runs := runs s @ map (entry_id s) (e # es)\<rparr>) s2"
    using s1(3) s2(3) same t by (auto simp: tq_frame_def entry_id_def)
  have cb: "entry_callback s2 e = callback t"
    using fr t \<open>snd e \<in> E\<close> by (simp add: tq_frame_def entry_callback_def)
  have ca: "b \<in> set (cancelingTimers s1)" if "callingExpiredTimers s" "fst b \<in> E" "CallCancel b \<in> set ?cs"
    using timer_calls_cancel [OF m wf _ that(3,2) s1(1)] that(1) by simp
  have sub: "set (cancelingTimers s1) \<subseteq> set (cancelingTimers s2)"
    "callingExpiredTimers s1 = callingExpiredTimers s"
    using s1(3) s2(3) by (simp_all add: tq_frame_def)
  have "\<forall>e' \<in> set (e # es). callingExpiredTimers s \<longrightarrow> fst b \<in> E \<longrightarrow>
       (\<forall>s. CallCancel b \<in> set (user (entry_callback s2 e') s)) \<longrightarrow> b \<in> set (cancelingTimers s2)"
    using ca sub s2(7) cb by auto
  moreover have "run_expired alloc user (e # es) s = Some s2" using t s1(1) s2(1) by simp
  ultimately show ?case using fr s1 s2 by auto
qed (simp add: tq_frame_def)

section \<open>Restarting\<close>

definition invalid_time :: "Timestamp \<Rightarrow> bool" where
  "invalid_time w \<longleftrightarrow> \<not> Timestamp_valid w"

lemma invalid_time_down: "down_closed invalid_time"
  by (auto simp: down_closed_def invalid_time_def Timestamp_valid_def less_eq_Timestamp_def)

text \<open>Inserting a timer whose expiration is valid does not weaken what is known of the others.\<close>

lemma armed_invalid_insort:
  assumes "armed_if invalid_time s" "Timestamp_valid w" "timers s' = insort (w, p) (timers s)"
    "timerfd s' = timerfd s"
  shows "armed_if invalid_time s'"
proof (cases "timers s")
  case Nil
  then show ?thesis using assms by (simp add: armed_if_def invalid_time_def)
next
  case (Cons e es)
  then obtain x xs where x: "timers s' = x # xs" "fst x = w \<or> x = e"
    using assms(3) by (auto split: if_splits)
  show ?thesis
  proof (cases "fst x = w")
    case True
    then show ?thesis using x assms(2) by (simp add: armed_if_def invalid_time_def)
  next
    case False
    then show ?thesis using x assms(1,4) Cons by (simp add: armed_if_def)
  qed
qed

lemma Timer_restart_fields [simp]:
  "sequence (Timer_restart t now) = sequence t" "repeat (Timer_restart t now) = repeat t"
  "interval (Timer_restart t now) = interval t" "callback (Timer_restart t now) = callback t"
  by (simp_all add: Timer_restart_def)

text \<open>\<open>repeat_\<close> is the sign of the interval, in every timer.\<close>

definition timers_ok :: "'c tq \<Rightarrow> bool" where
  "timers_ok s \<longleftrightarrow> (\<forall>p t. map_of (heap s) p = Some t \<longrightarrow> repeat t = isPositive (interval t))"

lemma restart_valid:
  "repeat t = isPositive (interval t) \<Longrightarrow> repeat t \<Longrightarrow> Timestamp_valid now \<Longrightarrow>
   Timestamp_valid (expiration (Timer_restart t now))"
  by (auto simp: Timer_restart_def addTime_def Timestamp_valid_def isPositive_def)

text \<open>The identifiers that \<open>reset\<close> puts back.\<close>

definition restarted :: "'c tq \<Rightarrow> entry list \<Rightarrow> active_timer set" where
  "restarted s es = entry_id s ` {e \<in> set es. repeat (the (map_of (heap s) (snd e))) \<and>
     entry_id s e \<notin> set (cancelingTimers s)}"

lemma restarted_Cons:
  "restarted s (e # es) =
    (if repeat (the (map_of (heap s) (snd e))) \<and> entry_id s e \<notin> set (cancelingTimers s)
     then insert (entry_id s e) (restarted s es) else restarted s es)"
proof -
  have "{f \<in> set (e # es). P f} = (if P e then insert e {f \<in> set es. P f} else {f \<in> set es. P f})" for P
    by auto
  then show ?thesis by (simp add: restarted_def)
qed

lemma restarted_cong:
  "(\<And>f. f \<in> set es \<Longrightarrow> map_of (heap s') (snd f) = map_of (heap s) (snd f)) \<Longrightarrow>
   cancelingTimers s' = cancelingTimers s \<Longrightarrow> restarted s' es = restarted s es"
  by (induction es) (simp_all add: restarted_Cons entry_id_def, simp add: restarted_def)

lemma reset_loop_ok:
  assumes now: "Timestamp_valid now"
  shows "tq_wf E s \<Longrightarrow> snd ` set es \<subseteq> E \<Longrightarrow> distinct (map snd es) \<Longrightarrow>
    \<exists>s'. reset_loop now es s = Some s' \<and> tq_wf (E - snd ` set es) s' \<and>
      runs s' = runs s \<and> queuedCalls s' = queuedCalls s \<and> numCreated s' = numCreated s \<and>
      timerfd s' = timerfd s \<and> cancelingTimers s' = cancelingTimers s \<and>
      set (activeTimers s') = set (activeTimers s) \<union> restarted s es \<and>
      (\<forall>p \<in> E - snd ` set es. map_of (heap s') p = map_of (heap s) p) \<and>
      (timers_ok s \<longrightarrow> armed_if invalid_time s \<longrightarrow> armed_if invalid_time s') \<and>
      (dead a s \<longrightarrow> dead a s') \<and> (seqs_bounded s \<longrightarrow> seqs_bounded s') \<and> (timers_ok s \<longrightarrow> timers_ok s')"
proof (induction es arbitrary: s E)
  case (Cons e es)
  from Cons.prems(2) have eE: "snd e \<in> E" by simp
  from tq_wf_live [OF Cons.prems(1)] eE obtain t where t: "map_of (heap s) (snd e) = Some t" by blast
  have esE: "snd ` set es \<subseteq> E - {snd e}" using Cons.prems(2,3) by (simp add: subset_Diff_insert)
  have dist: "distinct (map snd es)" using Cons.prems(3) by simp
  show ?case
  proof (cases "repeat t \<and> (snd e, sequence t) \<notin> set (cancelingTimers s)")
    case True
    let ?t = "Timer_restart t now"
    let ?s = "s\<lparr>heap := AList.update (snd e) ?t (heap s)\<rparr>"
    have "map_of (heap ?s) (snd e) = Some ?t" by (simp add: update_conv')
    from tq_insert_ok [OF tq_wf_update [OF Cons.prems(1) eE] eE this] obtain s1 ec where s1:
      "tq_insert (snd e) ?s = Some (s1, ec)" "tq_wf (E - {snd e}) s1"
      "s1 = ?s\<lparr>timers := insort (expiration ?t, snd e) (timers ?s),
              activeTimers := insort (snd e, sequence ?t) (activeTimers ?s)\<rparr>" by blast
    from Cons.IH [OF s1(2) esE dist] obtain s2 where s2: "reset_loop now es s1 = Some s2"
      "tq_wf (E - {snd e} - snd ` set es) s2" "runs s2 = runs s1" "queuedCalls s2 = queuedCalls s1"
      "numCreated s2 = numCreated s1" "timerfd s2 = timerfd s1" "cancelingTimers s2 = cancelingTimers s1"
      "set (activeTimers s2) = set (activeTimers s1) \<union> restarted s1 es"
      "\<forall>p \<in> E - {snd e} - snd ` set es. map_of (heap s2) p = map_of (heap s1) p"
      "timers_ok s1 \<longrightarrow> armed_if invalid_time s1 \<longrightarrow> armed_if invalid_time s2"
      "dead a s1 \<longrightarrow> dead a s2" "seqs_bounded s1 \<longrightarrow> seqs_bounded s2" "timers_ok s1 \<longrightarrow> timers_ok s2"
      by blast
    have lookup: "map_of (heap s1) k = (if k = snd e then Some ?t else map_of (heap s) k)" for k
      using s1(3) by (simp add: update_conv')
    have "snd e \<notin> snd ` set es" using Cons.prems(3) by simp
    then have ne: "snd f \<noteq> snd e" if "f \<in> set es" for f using that by (metis imageI)
    have c1: "cancelingTimers s1 = cancelingTimers s" using s1(3) by simp
    have "restarted s1 es = restarted s es" using lookup ne c1 by (intro restarted_cong) auto
    moreover have "restarted s (e # es) = insert (snd e, sequence t) (restarted s es)"
      using True t by (simp add: restarted_Cons entry_id_def)
    ultimately have act: "set (activeTimers s2) = set (activeTimers s) \<union> restarted s (e # es)"
      using s2(8) s1(3) by (auto simp: set_insort_key)
    have ok: "timers_ok s \<longrightarrow> timers_ok s1" using lookup t by (auto simp: timers_ok_def)
    have "timers_ok s \<longrightarrow> armed_if invalid_time s \<longrightarrow> armed_if invalid_time s1"
      using armed_invalid_insort [of s "expiration ?t" s1 "snd e"] restart_valid [OF _ _ now, of t]
        True t s1(3) by (auto simp: timers_ok_def)
    moreover have "dead a s \<longrightarrow> dead a s1" "seqs_bounded s \<longrightarrow> seqs_bounded s1"
      using lookup t s1(3) by (auto simp: dead_def seqs_bounded_def)
    moreover have "E - {snd e} - snd ` set es = E - snd ` set (e # es)" by auto
    moreover have "reset_loop now (e # es) s = Some s2" using True t s1(1) s2(1) by simp
    ultimately show ?thesis using act ok s1(3) s2 lookup by (intro exI [of _ s2]) auto
  next
    case False
    let ?s = "s\<lparr>heap := AList.delete (snd e) (heap s)\<rparr>"
    from Cons.IH [OF tq_wf_delete [OF Cons.prems(1) eE] esE dist] obtain s2 where s2:
      "reset_loop now es ?s = Some s2"
      "tq_wf (E - {snd e} - snd ` set es) s2" "runs s2 = runs ?s" "queuedCalls s2 = queuedCalls ?s"
      "numCreated s2 = numCreated ?s" "timerfd s2 = timerfd ?s" "cancelingTimers s2 = cancelingTimers ?s"
      "set (activeTimers s2) = set (activeTimers ?s) \<union> restarted ?s es"
      "\<forall>p \<in> E - {snd e} - snd ` set es. map_of (heap s2) p = map_of (heap ?s) p"
      "timers_ok ?s \<longrightarrow> armed_if invalid_time ?s \<longrightarrow> armed_if invalid_time s2"
      "dead a ?s \<longrightarrow> dead a s2" "seqs_bounded ?s \<longrightarrow> seqs_bounded s2" "timers_ok ?s \<longrightarrow> timers_ok s2"
      by blast
    have lookup: "map_of (heap ?s) k = (if k = snd e then None else map_of (heap s) k)" for k
      by (simp add: delete_conv')
    have "snd e \<notin> snd ` set es" using Cons.prems(3) by simp
    then have ne: "snd f \<noteq> snd e" if "f \<in> set es" for f using that by (metis imageI)
    have "restarted ?s es = restarted s es" using lookup ne by (intro restarted_cong) auto
    moreover have "restarted s (e # es) = restarted s es"
      using False t by (auto simp: restarted_Cons entry_id_def)
    ultimately have act: "set (activeTimers s2) = set (activeTimers s) \<union> restarted s (e # es)"
      using s2(8) by simp
    have "timers_ok s \<longrightarrow> timers_ok ?s" "dead a s \<longrightarrow> dead a ?s" "seqs_bounded s \<longrightarrow> seqs_bounded ?s"
      using lookup by (auto simp: timers_ok_def dead_def seqs_bounded_def split: if_splits)
    moreover have "armed_if invalid_time ?s = armed_if invalid_time s" by (rule armed_if_cong) simp_all
    moreover have "E - {snd e} - snd ` set es = E - snd ` set (e # es)" by auto
    moreover have "reset_loop now (e # es) s = Some s2" using False t s2(1) by auto
    ultimately show ?thesis using act s2 lookup by (intro exI [of _ s2]) auto
  qed
qed (simp add: restarted_def)

lemma tq_wf_id_dead:
  assumes wf: "tq_wf E s" and "snd a \<le> numCreated s" "a \<notin> set (activeTimers s)" "fst a \<notin> E"
  shows "dead a s"
  unfolding dead_def
proof (intro conjI allI impI)
  fix t
  assume t: "map_of (heap s) (fst a) = Some t"
  then have "fst a \<in> fst ` set (heap s)" by (metis map_of_SomeD image_eqI fst_conv)
  then have "fst a \<in> snd ` set (timers s)" using tq_wf_heap [OF wf] assms(4) by blast
  then obtain w where "(w, fst a) \<in> set (timers s)" by auto
  from tq_wf_timer_active [OF wf this t] assms(3) show "sequence t \<noteq> snd a" by auto
qed (use assms(2) in simp)

lemma tq_reset_ok:
  assumes now: "Timestamp_valid now" and wf: "tq_wf E s" "snd ` set es \<subseteq> E" "distinct (map snd es)"
  shows "\<exists>s'. tq_reset es now now' s = Some s' \<and> tq_wf (E - snd ` set es) s' \<and>
    runs s' = runs s \<and> queuedCalls s' = queuedCalls s \<and> numCreated s' = numCreated s \<and>
    set (activeTimers s') = set (activeTimers s) \<union> restarted s es \<and>
    (\<forall>p \<in> E - snd ` set es. map_of (heap s') p = map_of (heap s) p) \<and>
    (timers_ok s \<longrightarrow> armed_if invalid_time s \<longrightarrow> armed_if (\<lambda>_. True) s') \<and>
    (dead a s \<longrightarrow> dead a s') \<and> (seqs_bounded s \<longrightarrow> seqs_bounded s') \<and> (timers_ok s \<longrightarrow> timers_ok s')"
proof -
  from reset_loop_ok [OF now wf, of a] obtain s1 where s1: "reset_loop now es s = Some s1"
    "tq_wf (E - snd ` set es) s1" "runs s1 = runs s" "queuedCalls s1 = queuedCalls s"
    "numCreated s1 = numCreated s" "set (activeTimers s1) = set (activeTimers s) \<union> restarted s es"
    "\<forall>p \<in> E - snd ` set es. map_of (heap s1) p = map_of (heap s) p"
    "timers_ok s \<longrightarrow> armed_if invalid_time s \<longrightarrow> armed_if invalid_time s1"
    "dead a s \<longrightarrow> dead a s1" "seqs_bounded s \<longrightarrow> seqs_bounded s1" "timers_ok s \<longrightarrow> timers_ok s1"
    by blast
  have keep: "dead a (resetTimerfd w now' s1) = dead a s1"
    "seqs_bounded (resetTimerfd w now' s1) = seqs_bounded s1"
    "timers_ok (resetTimerfd w now' s1) = timers_ok s1"
    "tq_wf (E - snd ` set es) (resetTimerfd w now' s1)" for w
    using s1(2) by (simp_all add: dead_def seqs_bounded_def timers_ok_def
      tq_wf_cong [of "resetTimerfd w now' s1" s1])
  show ?thesis
  proof (cases "timers s1")
    case Nil
    then have "tq_reset es now now' s = Some s1"
      using s1(1) by (simp add: tq_reset_def Timestamp_invalid_def Timestamp_valid_def)
    moreover have "armed_if (\<lambda>_. True) s1" using Nil by (simp add: armed_if_def)
    ultimately show ?thesis using s1 by (intro exI [of _ s1]) blast
  next
    case (Cons e rest)
    then have "(fst e, snd e) \<in> set (timers s1)" by simp
    from bspec [OF tq_wf_timers [OF s1(2)] this] obtain t where
      t: "map_of (heap s1) (snd e) = Some t" "expiration t = fst e" by auto
    define s2 where "s2 = (if Timestamp_valid (fst e) then resetTimerfd (fst e) now' s1 else s1)"
    have "tq_reset es now now' s = Some s2"
      using s1(1) Cons t by (simp add: tq_reset_def s2_def)
    moreover have "timers_ok s \<longrightarrow> armed_if invalid_time s \<longrightarrow> armed_if (\<lambda>_. True) s2"
      using Cons s1(8) by (auto simp: s2_def armed_if_def invalid_time_def resetTimerfd_fires arm_bound)
    moreover have "runs s2 = runs s" "queuedCalls s2 = queuedCalls s" "numCreated s2 = numCreated s"
      "set (activeTimers s2) = set (activeTimers s) \<union> restarted s es"
      "\<forall>p \<in> E - snd ` set es. map_of (heap s2) p = map_of (heap s) p"
      "tq_wf (E - snd ` set es) s2" "dead a s \<longrightarrow> dead a s2" "seqs_bounded s \<longrightarrow> seqs_bounded s2"
      "timers_ok s \<longrightarrow> timers_ok s2"
      using s1(2-7,9-11) by (simp_all add: s2_def keep)
    ultimately show ?thesis by - (rule exI [of _ s2], intro conjI; assumption)
  qed
qed

lemma timer_calls_timers_ok:
  assumes m: "malloc_ok alloc"
  shows "tq_wf E s \<Longrightarrow> timers_ok s \<Longrightarrow> timer_calls alloc cs s = Some s' \<Longrightarrow> timers_ok s'"
proof (induction cs arbitrary: s)
  case (Cons c cs)
  have P: "down_closed (\<lambda>_. True)" by (simp add: down_closed_def)
  from do_timer_call_ok [OF Cons.prems(1) m P, of c] obtain s1 where s1:
    "do_timer_call alloc c s = Some s1" "tq_wf E s1" by blast
  have "timers_ok s1"
  proof (cases c)
    case (CallAddTimer cb w iv now)
    then show ?thesis using s1(1) Cons.prems(2)
      by (auto simp: addTimer_def newTimer_def addTimerInLoop_def tq_insert_def Let_def timers_ok_def
          Timer_new_def split: Option.bind_splits if_splits)
  next
    case (CallCancel i)
    then show ?thesis using s1(1) Cons.prems(2)
      by (auto simp: cancelInLoop_def timers_ok_def delete_conv' split: Option.bind_splits if_splits)
  qed
  with Cons s1 show ?case by simp
qed simp

lemma run_expired_timers_ok:
  assumes m: "malloc_ok alloc"
  shows "tq_wf E s \<Longrightarrow> timers_ok s \<Longrightarrow> run_expired alloc user es s = Some s' \<Longrightarrow> timers_ok s'"
proof (induction es arbitrary: s)
  case (Cons e es)
  have P: "down_closed (\<lambda>_. True)" by (simp add: down_closed_def)
  from Cons.prems(3) obtain t where "map_of (heap s) (snd e) = Some t"
    by (cases "map_of (heap s) (snd e)") auto
  with Cons.prems(3) obtain s1 where s1:
    "timer_calls alloc (user (callback t) s) (s\<lparr>runs := runs s @ [(snd e, sequence t)]\<rparr>) = Some s1"
    "run_expired alloc user es s1 = Some s'"
    by (cases "timer_calls alloc (user (callback t) s) (s\<lparr>runs := runs s @ [(snd e, sequence t)]\<rparr>)") auto
  let ?s = "s\<lparr>runs := runs s @ [(snd e, sequence t)]\<rparr>"
  have wf: "tq_wf E ?s" using Cons.prems(1) by (simp add: tq_wf_cong [of ?s s])
  moreover have "timers_ok ?s" using Cons.prems(2) by (simp add: timers_ok_def)
  ultimately have "timers_ok s1" using timer_calls_timers_ok [OF m _ _ s1(1)] by blast
  moreover have "tq_wf E s1"
    using timer_calls_ok [OF m P wf, of "user (callback t) s"] s1(1) by auto
  ultimately show ?case using Cons.IH s1(2) by blast
qed simp

section \<open>The alarm\<close>

lemma handleRead_ok:
  assumes m: "malloc_ok alloc" and now: "Timestamp_valid now" and wf: "tq_wf E s" and ok: "timers_ok s"
  shows "\<exists>s'. tq_handleRead alloc user now now' s = Some s' \<and> tq_wf E s' \<and> timers_ok s' \<and>
    runs s' = runs s @ map (entry_id s) (expired_at now s) \<and> queuedCalls s' = queuedCalls s \<and>
    armed_if (\<lambda>_. True) s' \<and> (dead a s \<longrightarrow> dead a s') \<and> (seqs_bounded s \<longrightarrow> seqs_bounded s') \<and>
    (\<forall>p \<in> E. map_of (heap s') p = map_of (heap s) p) \<and>
    (seqs_bounded s \<longrightarrow> b \<in> entry_id s ` set (expired_at now s) \<longrightarrow>
      (\<exists>e \<in> set (expired_at now s). \<forall>s1. CallCancel b \<in> set (user (entry_callback s e) s1)) \<longrightarrow> dead b s')"
proof -
  let ?ex = "expired_at now s" let ?X = "snd ` set ?ex"
  have exs: "set ?ex \<subseteq> set (timers s)" by (auto simp: expired_at_def)
  have dis: "E \<inter> ?X = {}" using tq_wf_disjoint [OF wf] exs by blast
  have dx: "distinct (map snd ?ex)"
    using tq_wf_distinct(1) [OF wf] by (simp add: expired_at_def distinct_map_filter)
  from getExpired_ok [OF wf, of now] obtain s1 where s1: "getExpired now s = Some (?ex, s1)"
    "tq_wf (E \<union> ?X) s1" "s1 = s\<lparr>timers := filter (\<lambda>e. now < fst e) (timers s),
           activeTimers := filter (\<lambda>a. fst a \<notin> ?X) (activeTimers s)\<rparr>" by blast
  define s1' where "s1' = s1\<lparr>callingExpiredTimers := True, cancelingTimers := []\<rparr>"
  have wf1: "tq_wf (E \<union> ?X) s1'"
    using s1(2) tq_wf_cong [of s1' s1 "E \<union> ?X"] by (simp add: s1'_def)
  have f1: "heap s1' = heap s" "runs s1' = runs s" "queuedCalls s1' = queuedCalls s"
    "numCreated s1' = numCreated s" "callingExpiredTimers s1'" "timers s1' = filter (\<lambda>e. now < fst e) (timers s)"
    by (simp_all add: s1'_def s1(3))
  have id1: "entry_id s1' = entry_id s" by (rule ext) (simp add: entry_id_def f1)
  have arm1: "armed_if invalid_time s1'"
  proof (cases "timers s1'")
    case (Cons e es)
    then have "now < fst e" using f1(6) by (metis filter_eq_ConsD)
    then have "Timestamp_valid (fst e)" using now by (simp add: Timestamp_valid_def less_Timestamp_def)
    then show ?thesis using Cons by (simp add: armed_if_def invalid_time_def)
  qed (simp add: armed_if_def)
  have ok1: "timers_ok s1'" using ok f1(1) by (simp add: timers_ok_def)
  have keep1: "dead a s1' = dead a s" "seqs_bounded s1' = seqs_bounded s"
    by (simp_all add: dead_def seqs_bounded_def f1)
  have "?X \<subseteq> E \<union> ?X" by simp
  from run_expired_ok [OF m invalid_time_down wf1 this, of user a b, unfolded keep1] arm1 obtain s2 where s2:
    "run_expired alloc user ?ex s1' = Some s2" "tq_wf (E \<union> ?X) s2"
    "tq_frame (E \<union> ?X) (s1'\<lparr>runs := runs s1' @ map (entry_id s1') ?ex\<rparr>) s2"
    "armed_if invalid_time s2" "dead a s \<longrightarrow> dead a s2" "seqs_bounded s \<longrightarrow> seqs_bounded s2"
    "\<forall>e \<in> set ?ex. callingExpiredTimers s1' \<longrightarrow> fst b \<in> E \<union> ?X \<longrightarrow>
       (\<forall>s. CallCancel b \<in> set (user (entry_callback s2 e) s)) \<longrightarrow> b \<in> set (cancelingTimers s2)"
    by blast
  have ok2: "timers_ok s2" by (rule run_expired_timers_ok [OF m wf1 ok1 s2(1)])
  have f2: "runs s2 = runs s @ map (entry_id s) ?ex" "queuedCalls s2 = queuedCalls s"
    "numCreated s \<le> numCreated s2" "\<forall>p \<in> E \<union> ?X. map_of (heap s2) p = map_of (heap s) p"
    using s2(3) by (auto simp: tq_frame_def f1 id1)
  define s2' where "s2' = s2\<lparr>callingExpiredTimers := False\<rparr>"
  have wf2: "tq_wf (E \<union> ?X) s2'"
    using s2(2) tq_wf_cong [of s2' s2 "E \<union> ?X"] by (simp add: s2'_def)
  have keep2: "dead a s2' = dead a s2" "seqs_bounded s2' = seqs_bounded s2" "timers_ok s2' = timers_ok s2"
    "armed_if invalid_time s2' = armed_if invalid_time s2"
    by (simp_all add: s2'_def dead_def seqs_bounded_def timers_ok_def armed_if_cong
        [of "s2\<lparr>callingExpiredTimers := False\<rparr>" s2])
  have diff: "E \<union> ?X - ?X = E" using dis by blast
  from tq_reset_ok [OF now wf2 _ dx, of now' a, unfolded diff keep2] obtain s3 where s3:
    "tq_reset ?ex now now' s2' = Some s3" "tq_wf E s3" "runs s3 = runs s2'"
    "queuedCalls s3 = queuedCalls s2'" "numCreated s3 = numCreated s2'"
    "set (activeTimers s3) = set (activeTimers s2') \<union> restarted s2' ?ex"
    "\<forall>p \<in> E. map_of (heap s3) p = map_of (heap s2') p"
    "armed_if (\<lambda>_. True) s3" "dead a s2 \<longrightarrow> dead a s3" "seqs_bounded s2 \<longrightarrow> seqs_bounded s3"
    "timers_ok s3" using ok2 s2(4) by auto
  have res: "tq_handleRead alloc user now now' s = Some s3"
    using s1(1) s2(1) s3(1) by (simp add: tq_handleRead_def s1'_def s2'_def)
  have "dead b s3" if sb: "seqs_bounded s" and b: "b \<in> entry_id s ` set ?ex"
    and e: "e \<in> set ?ex" "\<forall>s1. CallCancel b \<in> set (user (entry_callback s e) s1)" for e
  proof (rule tq_wf_id_dead [OF s3(2)])
    from b obtain f where f: "f \<in> set ?ex" "b = entry_id s f" by blast
    then have bX: "fst b \<in> ?X" by (simp add: entry_id_def)
    then show "fst b \<notin> E" using dis by blast
    have "snd f \<in> E \<union> ?X" using f(1) by blast
    then obtain t where t: "map_of (heap s) (snd f) = Some t"
      using tq_wf_live [OF wf1] f1(1) by metis
    then show "snd b \<le> numCreated s3"
      using sb f(2) f2(3) s3(5) by (fastforce simp: seqs_bounded_def entry_id_def s2'_def)
    have "entry_callback s2 e = entry_callback s e"
      using f2(4) e(1) by (simp add: entry_callback_def)
    then have bc: "b \<in> set (cancelingTimers s2')"
      using s2(7) [rule_format, OF e(1) f1(5) UnI2 [OF bX]] e(2) by (simp add: s2'_def)
    have "b \<notin> set (activeTimers s2')"
      using tq_wf_not_in_E(2) [OF wf2, of "fst b" "snd b"] bX by auto
    moreover have "b \<notin> restarted s2' ?ex" using bc by (auto simp: restarted_def)
    ultimately show "b \<notin> set (activeTimers s3)" using s3(6) by blast
  qed
  moreover have "runs s3 = runs s @ map (entry_id s) ?ex" "queuedCalls s3 = queuedCalls s"
    "\<forall>p \<in> E. map_of (heap s3) p = map_of (heap s) p"
    using s3(3,4,7) f2 by (simp_all add: s2'_def)
  ultimately show ?thesis using res s2(5,6) s3(2,8-11) by (intro exI [of _ s3]) blast
qed

section \<open>Reachable states\<close>

definition tq_inv :: "'c tq \<Rightarrow> bool" where
  "tq_inv s \<longleftrightarrow> tq_wf (set (queued_adds (queuedCalls s))) s \<and> distinct (queued_adds (queuedCalls s)) \<and>
     seqs_bounded s \<and> timers_ok s \<and> armed_if (\<lambda>_. True) s"

lemma tq_inv_new [simp]: "tq_inv TimerQueue_new"
  by (simp add: tq_inv_def tq_wf_def TimerQueue_new_def seqs_bounded_def timers_ok_def armed_if_def)

lemma true_down: "down_closed (\<lambda>_. True)"
  by (simp add: down_closed_def)

lemma call_inv:
  assumes m: "malloc_ok alloc" and inv: "tq_inv s"
  shows "\<exists>s'. do_timer_call alloc c s = Some s' \<and> tq_inv s' \<and> runs s' = runs s \<and> (dead a s \<longrightarrow> dead a s')"
proof -
  from inv have wf: "tq_wf (set (queued_adds (queuedCalls s))) s" and rest:
    "distinct (queued_adds (queuedCalls s))" "seqs_bounded s" "timers_ok s" "armed_if (\<lambda>_. True) s"
    by (simp_all add: tq_inv_def)
  from do_timer_call_ok [OF wf m true_down, of c a] obtain s' where s': "do_timer_call alloc c s = Some s'"
    "tq_wf (set (queued_adds (queuedCalls s))) s'" "tq_frame (set (queued_adds (queuedCalls s))) s s'"
    "armed_if (\<lambda>_. True) s'" "dead a s \<longrightarrow> dead a s'" "seqs_bounded s'" using rest by blast
  have "timers_ok s'" using timer_calls_timers_ok [OF m wf rest(3), of "[c]"] s'(1) by simp
  with s' rest show ?thesis by (auto simp: tq_inv_def tq_frame_def)
qed

lemma add_other_inv:
  assumes m: "malloc_ok alloc" and inv: "tq_inv s"
  shows "tq_inv (addTimer_other alloc cb when iv s)"
    and "dead a s \<Longrightarrow> dead a (addTimer_other alloc cb when iv s)"
    and "runs (addTimer_other alloc cb when iv s) = runs s"
proof -
  let ?p = "alloc (heap s)" and ?t = "Timer_new cb when iv (numCreated s + 1)"
  let ?s = "s\<lparr>heap := (?p, ?t) # heap s, numCreated := numCreated s + 1\<rparr>"
  let ?s' = "?s\<lparr>queuedCalls := queuedCalls s @ [QAddTimer ?p]\<rparr>"
  have eq: "addTimer_other alloc cb when iv s = ?s'"
    by (simp add: addTimer_other_def newTimer_def Let_def)
  from inv have wf: "tq_wf (set (queued_adds (queuedCalls s))) s" by (simp add: tq_inv_def)
  have p: "?p \<notin> fst ` set (heap s)" "?p < UINTPTR_MAX" using m by (auto simp: malloc_ok_def)
  then have pE: "?p \<notin> set (queued_adds (queuedCalls s))" using tq_wf_heap [OF wf] by blast
  have "tq_wf (insert ?p (set (queued_adds (queuedCalls s)))) ?s" by (rule tq_wf_new [OF wf p])
  then have "tq_wf (insert ?p (set (queued_adds (queuedCalls s)))) ?s'"
    using tq_wf_cong [of ?s' ?s] by simp
  moreover have "seqs_bounded ?s'" "timers_ok ?s'"
    using inv by (fastforce simp: tq_inv_def seqs_bounded_def timers_ok_def Timer_new_def)+
  moreover have "armed_if (\<lambda>_. True) ?s'"
    using inv armed_if_cong [of ?s' s "\<lambda>_. True"] by (simp add: tq_inv_def)
  ultimately show "tq_inv (addTimer_other alloc cb when iv s)"
    using inv pE unfolding eq by (simp add: tq_inv_def)
  show "dead a s \<Longrightarrow> dead a (addTimer_other alloc cb when iv s)"
    unfolding eq by (auto simp: dead_def Timer_new_def)
  show "runs (addTimer_other alloc cb when iv s) = runs s" unfolding eq by simp
qed

lemma run_queued_inv:
  assumes inv: "tq_inv s" and q: "queuedCalls s = q # qs"
  shows "\<exists>s'. run_queued q now (s\<lparr>queuedCalls := qs\<rparr>) = Some s' \<and> tq_inv s' \<and> runs s' = runs s \<and>
    (dead a s \<longrightarrow> dead a s')"
proof -
  let ?s = "s\<lparr>queuedCalls := qs\<rparr>"
  from inv have wf: "tq_wf (set (queued_adds (q # qs))) ?s"
    and rest: "distinct (queued_adds (q # qs))" "seqs_bounded ?s" "timers_ok ?s" "armed_if (\<lambda>_. True) ?s"
    and keep: "dead a ?s = dead a s"
    using q tq_wf_cong [of ?s s] armed_if_cong [of ?s s]
    by (simp_all add: tq_inv_def seqs_bounded_def timers_ok_def dead_def)
  show ?thesis
  proof (cases q)
    case (QAddTimer p)
    then have pE: "p \<in> set (queued_adds (q # qs))" by simp
    from tq_wf_live [OF wf] pE obtain t where t: "map_of (heap ?s) p = Some t" by blast
    from addTimerInLoop_ok [OF wf pE t, of now] obtain s' where s': "addTimerInLoop p now ?s = Some s'"
      "tq_wf (set (queued_adds (q # qs)) - {p}) s'" "timers s' = insort (expiration t, p) (timers ?s)"
      "heap s' = heap ?s" "queuedCalls s' = queuedCalls ?s" "runs s' = runs ?s"
      "numCreated s' = numCreated ?s"
      "timerfd s' = (if (case timers ?s of [] \<Rightarrow> True | e # _ \<Rightarrow> expiration t < fst e)
        then timerfd (resetTimerfd (expiration t) now ?s) else timerfd ?s)" by blast
    have "set (queued_adds (q # qs)) - {p} = set (queued_adds qs)" using rest(1) QAddTimer by auto
    moreover have "armed_if (\<lambda>_. True) s'" by (rule armed_insort [OF rest(4) s'(3,8)])
    moreover have "seqs_bounded s'" "timers_ok s'" "dead a s \<longrightarrow> dead a s'"
      using rest(2,3) s'(4,7) by (simp_all add: seqs_bounded_def timers_ok_def dead_def)
    ultimately show ?thesis using s' rest(1) QAddTimer by (simp add: tq_inv_def)
  next
    case (QCancel p i)
    then have inv': "tq_inv ?s" using wf rest by (simp add: tq_inv_def)
    have m: "malloc_ok (\<lambda>h :: (addr \<times> 'a timer) list. SOME p. p \<notin> fst ` set h \<and> p < UINTPTR_MAX)"
      unfolding malloc_ok_def
    proof
      fix h :: "(addr \<times> 'a timer) list"
      have "infinite (range enat)" using finite_imageD [of enat UNIV] by (auto simp: inj_on_def)
      then obtain p where "p \<in> range enat" "p \<notin> fst ` set h"
        using finite_subset [of "range enat" "fst ` set h"] by blast
      then have "p \<notin> fst ` set h \<and> p < UINTPTR_MAX" by (auto simp: UINTPTR_MAX_def)
      then show "(SOME p. p \<notin> fst ` set h \<and> p < UINTPTR_MAX) \<notin> fst ` set h \<and>
        (SOME p. p \<notin> fst ` set h \<and> p < UINTPTR_MAX) < UINTPTR_MAX" by (rule someI)
    qed
    from call_inv [OF m inv', of "CallCancel (p, i)" a] keep QCancel show ?thesis by simp
  qed
qed

lemma alarm_inv:
  assumes m: "malloc_ok alloc" and inv: "tq_inv s" and now: "Timestamp_valid now"
  shows "\<exists>s'. tq_handleRead alloc user now now' (s\<lparr>timerfd := None\<rparr>) = Some s' \<and> tq_inv s' \<and>
    runs s' = runs s @ map (entry_id s) (expired_at now s) \<and> (dead a s \<longrightarrow> dead a s') \<and>
    (b \<in> entry_id s ` set (expired_at now s) \<longrightarrow>
      (\<exists>e \<in> set (expired_at now s). \<forall>s1. CallCancel b \<in> set (user (entry_callback s e) s1)) \<longrightarrow> dead b s')"
proof -
  let ?s = "s\<lparr>timerfd := None\<rparr>"
  have wf: "tq_wf (set (queued_adds (queuedCalls s))) ?s" and ok: "timers_ok ?s"
    and sb: "seqs_bounded ?s" and keep: "dead a ?s = dead a s"
    using inv tq_wf_cong [of ?s s] by (simp_all add: tq_inv_def timers_ok_def seqs_bounded_def dead_def)
  have same: "entry_id ?s = entry_id s" "expired_at now ?s = expired_at now s"
    "entry_callback ?s = entry_callback s"
    by (auto simp: entry_id_def expired_at_def entry_callback_def)
  from handleRead_ok [OF m now wf ok, of user now' a b, unfolded same keep] sb
  show ?thesis using inv by (auto simp: tq_inv_def)
qed

text \<open>Every step keeps the invariant, runs live timers only, and never revives an identifier.\<close>

lemma tq_step_inv:
  assumes m: "malloc_ok alloc" and step: "tq_step alloc user s s'" and inv: "tq_inv s"
  shows "tq_inv s' \<and> (dead a s \<longrightarrow> dead a s' \<and> (\<exists>l. runs s' = runs s @ l \<and> a \<notin> set l))"
  using step
proof cases
  case (step_call c)
  with call_inv [OF m inv, of c a] show ?thesis by auto
next
  case (step_add_other cb w iv)
  with add_other_inv [OF m inv] show ?thesis by auto
next
  case (step_cancel_other i)
  with inv tq_wf_cong [of "cancel_other i s" s] armed_if_cong [of "cancel_other i s" s] show ?thesis
    by (simp add: cancel_other_def tq_inv_def dead_def seqs_bounded_def timers_ok_def)
next
  case (step_queued q qs now)
  with run_queued_inv [OF inv step_queued(1), of now a] show ?thesis by auto
next
  case (step_alarm at now now')
  from alarm_inv [OF m inv step_alarm(2), of user now' a a] step_alarm(3)
  have s': "tq_inv s'" "runs s' = runs s @ map (entry_id s) (expired_at now s)" "dead a s \<longrightarrow> dead a s'"
    by auto
  have "a \<notin> set (map (entry_id s) (expired_at now s))" if d: "dead a s"
  proof
    assume "a \<in> set (map (entry_id s) (expired_at now s))"
    then obtain e where e: "e \<in> set (timers s)" "a = entry_id s e" by (auto simp: expired_at_def)
    from inv have wf: "tq_wf (set (queued_adds (queuedCalls s))) s" by (simp add: tq_inv_def)
    from tq_wf_live [OF wf, of "snd e"] e(1) obtain t where "map_of (heap s) (snd e) = Some t" by blast
    with d e(2) show False by (auto simp: dead_def entry_id_def)
  qed
  with s' show ?thesis by auto
qed

lemma tq_reachable_inv:
  "(tq_step alloc user)\<^sup>*\<^sup>* s s' \<Longrightarrow> malloc_ok alloc \<Longrightarrow> tq_inv s \<Longrightarrow>
   tq_inv s' \<and> (dead a s \<longrightarrow> dead a s' \<and> (\<exists>l. runs s' = runs s @ l \<and> a \<notin> set l))"
proof (induction rule: rtranclp_induct)
  case (step y z)
  then have y: "tq_inv y" "dead a s \<longrightarrow> dead a y \<and> (\<exists>l. runs y = runs s @ l \<and> a \<notin> set l)" by auto
  from tq_step_inv [OF step.prems(1) step.hyps(2) y(1), of a] y show ?case
    by (force simp: append_assoc)
qed simp

section \<open>Properties\<close>

text \<open>An allocator and callbacks for the examples: the next address above those in use; callback \<open>0\<close>
  cancels the first timer ever created, the others do nothing.\<close>

fun top_addr :: "(addr \<times> 'c timer) list \<Rightarrow> nat" where
  "top_addr [] = 0"
| "top_addr (x # h) = max (the_enat (fst x)) (top_addr h)"

definition demo_alloc :: "(addr \<times> 'c timer) list \<Rightarrow> addr" where
  "demo_alloc h = enat (Suc (top_addr h))"

definition demo_user :: "nat \<Rightarrow> nat tq \<Rightarrow> nat timer_call list" where
  "demo_user c s = (if c = 0 then [CallCancel (enat 1, 1)] else [])"

lemma demo_alloc_ok: "malloc_ok demo_alloc"
proof -
  have "x \<in> set h \<Longrightarrow> the_enat (fst x) \<le> top_addr h" for x and h :: "(addr \<times> 'c timer) list"
    by (induction h) auto
  then show ?thesis
    by (force simp: malloc_ok_def demo_alloc_def UINTPTR_MAX_def)
qed

lemma sorted_map_fst: "sorted xs \<Longrightarrow> sorted (map fst (xs :: ('a::linorder \<times> 'b::linorder) list))"
  by (induction xs) (auto simp: less_eq_prod_def)

text \<open>C4: No operation of the timer queue ever fails. In every state reachable by any interleaving of
  calls in the loop thread, requests queued by other threads, queued functors and alarms, with
  callbacks that add and cancel timers (themselves included), the sets \<open>timers_\<close> and
  \<open>activeTimers_\<close> hold the same timers, the live timers are those of the queue and of the queued
  additions, and every operation returns: no assertion fails and no deleted timer is used.\<close>

theorem timer_queue_never_fails:
  assumes "malloc_ok alloc" and "(tq_step alloc user)\<^sup>*\<^sup>* TimerQueue_new s"
  shows "length (timers s) = length (activeTimers s) \<and>
    (\<lambda>(w, p). p) ` set (timers s) = fst ` set (activeTimers s) \<and>
    fst ` set (heap s) = set (queued_adds (queuedCalls s)) \<union> snd ` set (timers s) \<and>
    do_timer_call alloc c s \<noteq> None \<and>
    (queuedCalls s = q # qs \<longrightarrow> run_queued q now (s\<lparr>queuedCalls := qs\<rparr>) \<noteq> None) \<and>
    (Timestamp_valid now \<longrightarrow> tq_handleRead alloc user now now' (s\<lparr>timerfd := None\<rparr>) \<noteq> None)"
proof -
  have inv: "tq_inv s" using tq_reachable_inv [OF assms(2,1)] by simp
  then have wf: "tq_wf (set (queued_adds (queuedCalls s))) s" by (simp add: tq_inv_def)
  have "(\<lambda>(w, p). p) ` set (timers s) = fst ` set (activeTimers s)"
    using tq_wf_same [OF wf] by (simp add: snd_def)
  moreover have "do_timer_call alloc c s \<noteq> None"
    using call_inv [OF assms(1) inv, of c undefined] by auto
  moreover have "queuedCalls s = q # qs \<longrightarrow> run_queued q now (s\<lparr>queuedCalls := qs\<rparr>) \<noteq> None"
    using run_queued_inv [OF inv, of q qs now undefined] by auto
  moreover have "Timestamp_valid now \<longrightarrow> tq_handleRead alloc user now now' (s\<lparr>timerfd := None\<rparr>) \<noteq> None"
    using alarm_inv [OF assms(1) inv, of now user now' undefined undefined] by auto
  ultimately show ?thesis using tq_wf_lengths [OF wf] tq_wf_heap [OF wf] by blast
qed

lemma demo_run:
  "(tq_step demo_alloc demo_user)\<^sup>*\<^sup>* TimerQueue_new
     (addTimer_other demo_alloc (7 :: nat) (Timestamp 500) (Seconds 0 False) TimerQueue_new)"
  by (rule r_into_rtranclp) (rule step_add_other)

theorem timer_queue_never_fails_witness:
  "do_timer_call demo_alloc (CallCancel (enat 1, 1))
     (addTimer_other demo_alloc (7 :: nat) (Timestamp 500) (Seconds 0 False) TimerQueue_new) \<noteq> None"
  using timer_queue_never_fails [OF demo_alloc_ok demo_run] by blast



text \<open>C7: A cancelled timer is dead for good. Once the loop has executed \<open>cancel\<close> for a timer of the
  queue, no later step, of any thread and any length of run, calls this timer's callback again, even when
  its address is reused by a new timer.\<close>

theorem timer_cancel_is_final:
  assumes "malloc_ok alloc" and "(tq_step alloc user)\<^sup>*\<^sup>* TimerQueue_new s"
    and "a \<in> set (activeTimers s)" and "cancelInLoop a s = Some s1"
    and "(tq_step alloc user)\<^sup>*\<^sup>* s1 s2"
  shows "\<exists>later. runs s2 = runs s @ later \<and> a \<notin> set later"
proof -
  have inv: "tq_inv s" using tq_reachable_inv [OF assms(2,1)] by simp
  then have wf: "tq_wf (set (queued_adds (queuedCalls s))) s" by (simp add: tq_inv_def)
  obtain p q where a: "a = (p, q)" by (cases a)
  from cancelInLoop_ok [OF wf, of p q] assms(4) a have s1: "a \<notin> set (activeTimers s1)"
    "runs s1 = runs s" "numCreated s1 = numCreated s" "queuedCalls s1 = queuedCalls s" by auto
  from call_inv [OF assms(1) inv, of "CallCancel a"] assms(4) have inv1: "tq_inv s1" by auto
  then have wf1: "tq_wf (set (queued_adds (queuedCalls s1))) s1" by (simp add: tq_inv_def)
  from tq_wf_active [OF wf, of p q] assms(3) a obtain t where
    t: "map_of (heap s) p = Some t" "sequence t = q" by blast
  then have "snd a \<le> numCreated s1" using inv s1(3) a by (auto simp: tq_inv_def seqs_bounded_def)
  moreover have "fst a \<notin> set (queued_adds (queuedCalls s1))"
    using tq_wf_not_in_E(2) [OF wf, of p q] assms(3) a s1(4) by auto
  ultimately have "dead a s1" using tq_wf_id_dead [OF wf1 _ s1(1)] by blast
  with tq_reachable_inv [OF assms(5,1) inv1, of a] s1(2) show ?thesis by auto
qed

theorem timer_cancel_is_final_witness:
  "\<exists>s s1 later. addTimer demo_alloc (7 :: nat) (Timestamp 500) (Seconds 10 False) (Timestamp 1) TimerQueue_new = Some s \<and>
     cancelInLoop (enat 1, 1) s = Some s1 \<and> runs s1 = runs s @ later \<and> (enat 1, 1) \<notin> set later"
proof -
  obtain s where s: "addTimer demo_alloc (7 :: nat) (Timestamp 500) (Seconds 10 False) (Timestamp 1)
      (TimerQueue_new :: nat tq) = Some s" "activeTimers s = [(enat 1, 1)]"
    by (simp add: addTimer_def newTimer_def addTimerInLoop_def tq_insert_def Timer_new_def
        TimerQueue_new_def demo_alloc_def Let_def one_enat_def)
  have r: "(tq_step demo_alloc demo_user)\<^sup>*\<^sup>* TimerQueue_new s"
    by (rule r_into_rtranclp, rule step_call [of _ "CallAddTimer 7 (Timestamp 500) (Seconds 10 False) (Timestamp 1)"])
      (simp add: s(1))
  have "cancelInLoop (enat 1, 1) s \<noteq> None"
    using timer_queue_never_fails [OF demo_alloc_ok r, of "CallCancel (enat 1, 1)"] by simp
  then obtain s1 where s1: "cancelInLoop (enat 1, 1) s = Some s1" by blast
  have "(enat 1, 1) \<in> set (activeTimers s)" using s(2) by simp
  from timer_cancel_is_final [OF demo_alloc_ok r this s1 rtranclp.rtrancl_refl] s s1 show ?thesis
    by blast
qed


definition demo_self :: "nat tq" where
  "demo_self = the (addTimer demo_alloc 0 (Timestamp 500) (Seconds 10 False) (Timestamp 1) TimerQueue_new)"

lemma demo_self_eq:
  "addTimer demo_alloc 0 (Timestamp 500) (Seconds 10 False) (Timestamp 1) TimerQueue_new = Some demo_self"
  "timers demo_self = [(Timestamp 500, enat 1)]"
  "heap demo_self = [(enat 1, Timer_new 0 (Timestamp 500) (Seconds 10 False) 1)]"
  by (simp_all add: demo_self_def addTimer_def newTimer_def addTimerInLoop_def tq_insert_def
      Timer_new_def TimerQueue_new_def demo_alloc_def Let_def one_enat_def)

lemma demo_self_reachable: "(tq_step demo_alloc demo_user)\<^sup>*\<^sup>* TimerQueue_new demo_self"
  by (rule r_into_rtranclp, rule step_call [of _ "CallAddTimer 0 (Timestamp 500) (Seconds 10 False) (Timestamp 1)"])
    (simp add: demo_self_eq(1))


text \<open>C5: No timer is forgotten. In every reachable state in which a timer waits, the timer
  descriptor is armed, and it fires no later than that timer's expiration, or 100 microseconds after it
  was last set if the expiration was closer than that: also right after cancellations, restarts,
  insertions from callbacks, and for expirations in the past.\<close>

theorem timer_never_forgotten:
  assumes "malloc_ok alloc" and "(tq_step alloc user)\<^sup>*\<^sup>* TimerQueue_new s" and "(w, p) \<in> set (timers s)"
  shows "\<exists>since fires. timerfd s = Some (since, fires) \<and>
    fires \<le> max (microSecondsSinceEpoch w) (since + 100)"
proof -
  have inv: "tq_inv s" using tq_reachable_inv [OF assms(2,1)] by simp
  from assms(3) obtain e es where s: "timers s = e # es" by (cases "timers s") auto
  have "sorted (timers s)" using inv by (simp add: tq_inv_def tq_wf_def)
  with s assms(3) have "fst e \<le> w" by (cases e) (auto simp: less_eq_prod_def)
  moreover have "armed_if (\<lambda>_. True) s" using inv by (simp add: tq_inv_def)
  ultimately show ?thesis using s by (auto simp: armed_if_def less_eq_Timestamp_def)
qed

theorem timer_never_forgotten_witness:
  "\<exists>since fires. timerfd demo_self = Some (since, fires) \<and> fires \<le> max 500 (since + 100)"
  using timer_never_forgotten [OF demo_alloc_ok demo_self_reachable, of "Timestamp 500" "enat 1"]
  by (simp add: demo_self_eq)

text \<open>\<open>addTimer\<close> from another thread reads \<open>timer->sequence()\<close> after it has handed the timer to
  the loop. For a one-shot timer that is already due, the loop can run the queued addition and the
  alarm first: the timer is then deleted, and the caller reads freed memory.\<close>

theorem addTimer_use_after_delete:
  fixes cb :: nat
  assumes "when \<le> now" and "Timestamp_valid now" and "\<not> isPositive iv"
  shows "\<exists>s1 s2.
    queuedCalls (addTimer_other demo_alloc cb when iv TimerQueue_new) = [QAddTimer (enat 1)] \<and>
    map_of (heap (addTimer_other demo_alloc cb when iv TimerQueue_new)) (enat 1) \<noteq> None \<and>
    run_queued (QAddTimer (enat 1)) now
      ((addTimer_other demo_alloc cb when iv TimerQueue_new)\<lparr>queuedCalls := []\<rparr>) = Some s1 \<and>
    tq_handleRead demo_alloc (\<lambda>c s. []) now now (s1\<lparr>timerfd := None\<rparr>) = Some s2 \<and>
    map_of (heap s2) (enat 1) = None"
  using assms
  by (simp add: addTimer_other_def newTimer_def Let_def TimerQueue_new_def demo_alloc_def one_enat_def
      addTimerInLoop_def tq_insert_def Timer_new_def resetTimerfd_def split_beta tq_handleRead_def
      getExpired_def tq_reset_def Timestamp_valid_def Timestamp_invalid_def UINTPTR_MAX_def
      less_prod_def less_le)

theorem addTimer_use_after_delete_witness:
  "\<exists>s1 s2.
    run_queued (QAddTimer (enat 1)) (Timestamp 5)
      ((addTimer_other demo_alloc 3 (Timestamp 5) (Seconds 0 False) (TimerQueue_new :: nat tq))\<lparr>queuedCalls := []\<rparr>) = Some s1 \<and>
    tq_handleRead demo_alloc (\<lambda>c s. []) (Timestamp 5) (Timestamp 5) (s1\<lparr>timerfd := None\<rparr>) = Some s2 \<and>
    map_of (heap s2) (enat 1) = None"
  using addTimer_use_after_delete [of "Timestamp 5" "Timestamp 5" "Seconds 0 False" 3]
  by (simp add: Timestamp_valid_def isPositive_def)

end
