(* ===== verification/Muduo_Channel.thy ===== *)
theory Muduo_Channel
  imports Muduo_Timestamp
begin

unbundle bit_operations_syntax

text \<open>
  \<open>muduo::net::Channel\<close> (\<open>muduo/net/Channel.h\<close>, \<open>Channel.cc\<close>): a file descriptor, the events
  it is interested in, and the dispatch of the events the poller reported. Event masks are the
  \<open>poll(2)\<close> constants in a \<open>32 word\<close>. Callbacks belong to the users of the channel; here they are
  the list of calls that \<open>handleEvent\<close> makes, in order. Operations that end in \<open>update()\<close> or
  \<open>remove()\<close> are completed by the pollers.
\<close>

type_synonym events = "32 word"
type_synonym chan_id = nat

definition POLLIN :: events where "POLLIN = 0x001"
definition POLLPRI :: events where "POLLPRI = 0x002"
definition POLLOUT :: events where "POLLOUT = 0x004"
definition POLLERR :: events where "POLLERR = 0x008"
definition POLLHUP :: events where "POLLHUP = 0x010"
definition POLLNVAL :: events where "POLLNVAL = 0x020"
definition POLLRDHUP :: events where "POLLRDHUP = 0x2000"

definition kNoneEvent :: events where
  "kNoneEvent = 0"

definition kReadEvent :: events where
  "kReadEvent = POLLIN OR POLLPRI"

definition kWriteEvent :: events where
  "kWriteEvent = POLLOUT"

lemmas poll_consts = POLLIN_def POLLPRI_def POLLOUT_def POLLERR_def POLLHUP_def POLLNVAL_def
  POLLRDHUP_def
lemmas event_consts = kNoneEvent_def kReadEvent_def kWriteEvent_def poll_consts

text \<open>\<open>tie_\<close> is what \<open>tie_.lock()\<close> would return: whether the tied object is alive.\<close>

record channel =
  fd :: int
  events :: events
  revents :: events
  index :: int
  logHup :: bool
  tied :: bool
  tieAlive :: bool
  hasReadCallback :: bool
  hasWriteCallback :: bool
  hasCloseCallback :: bool
  hasErrorCallback :: bool

definition Channel_new :: "int \<Rightarrow> channel" where
  "Channel_new fd_value = \<lparr>fd = fd_value, events = 0, revents = 0, index = -1, logHup = True,
     tied = False, tieAlive = False, hasReadCallback = False, hasWriteCallback = False,
     hasCloseCallback = False, hasErrorCallback = False\<rparr>"

definition isNoneEvent :: "channel \<Rightarrow> bool" where
  "isNoneEvent ch \<longleftrightarrow> events ch = kNoneEvent"

definition isWriting :: "channel \<Rightarrow> bool" where
  "isWriting ch \<longleftrightarrow> events ch AND kWriteEvent \<noteq> 0"

definition tie :: "bool \<Rightarrow> channel \<Rightarrow> channel" where
  "tie alive ch = ch\<lparr>tied := True, tieAlive := alive\<rparr>"

text \<open>The calls that change the interest set, each followed by \<open>update()\<close>, and \<open>remove()\<close>.\<close>

datatype chan_op =
    EnableReading (op_chan: chan_id) | EnableWriting (op_chan: chan_id) | DisableWriting (op_chan: chan_id)
  | DisableAll (op_chan: chan_id) | RemoveChannel (op_chan: chan_id)

fun new_events :: "chan_op \<Rightarrow> events \<Rightarrow> events" where
  "new_events (EnableReading c) e = e OR kReadEvent"
| "new_events (EnableWriting c) e = e OR kWriteEvent"
| "new_events (DisableWriting c) e = e AND NOT kWriteEvent"
| "new_events (DisableAll c) e = kNoneEvent"
| "new_events (RemoveChannel c) e = e"

datatype chan_call = CloseCallback | ErrorCallback | ReadCallback Timestamp | WriteCallback

definition handleEventWithGuard :: "channel \<Rightarrow> Timestamp \<Rightarrow> chan_call list" where
  "handleEventWithGuard ch receiveTime =
     (if revents ch AND POLLHUP \<noteq> 0 \<and> revents ch AND POLLIN = 0
      then if hasCloseCallback ch then [CloseCallback] else [] else []) @
     (if revents ch AND (POLLERR OR POLLNVAL) \<noteq> 0
      then if hasErrorCallback ch then [ErrorCallback] else [] else []) @
     (if revents ch AND (POLLIN OR POLLPRI OR POLLRDHUP) \<noteq> 0
      then if hasReadCallback ch then [ReadCallback receiveTime] else [] else []) @
     (if revents ch AND POLLOUT \<noteq> 0
      then if hasWriteCallback ch then [WriteCallback] else [] else [])"

definition handleEvent :: "channel \<Rightarrow> Timestamp \<Rightarrow> chan_call list" where
  "handleEvent ch receiveTime =
     (if tied ch then if tieAlive ch then handleEventWithGuard ch receiveTime else []
      else handleEventWithGuard ch receiveTime)"

lemma new_events_enable [simp]:
  "new_events (EnableReading c) e \<noteq> 0" "new_events (EnableWriting c) e \<noteq> 0"
proof -
  have "bit (new_events (EnableReading c) e) 0"
    by (simp add: event_consts bit_simps)
  then show "new_events (EnableReading c) e \<noteq> 0" by (metis bit_0_eq bot_apply bot_bool_def)
  have "bit (new_events (EnableWriting c) e) 2"
    by (simp add: event_consts bit_simps)
  then show "new_events (EnableWriting c) e \<noteq> 0" by (metis bit_0_eq bot_apply bot_bool_def)
qed

text \<open>A hang-up is reported to the close callback only when there is nothing left to read.\<close>

lemma handleEvent_close:
  "CloseCallback \<in> set (handleEvent ch t) \<longleftrightarrow>
     hasCloseCallback ch \<and> revents ch AND POLLHUP \<noteq> 0 \<and> revents ch AND POLLIN = 0 \<and>
     (tied ch \<longrightarrow> tieAlive ch)"
  by (auto simp: handleEvent_def handleEventWithGuard_def)

lemma handleEvent_dead_tie: "tied ch \<Longrightarrow> \<not> tieAlive ch \<Longrightarrow> handleEvent ch t = []"
  by (simp add: handleEvent_def)

lemma handleEvent_distinct: "distinct (handleEvent ch t)"
  by (auto simp: handleEvent_def handleEventWithGuard_def)

end
