(* ===== verification/Muduo_Poller.thy ===== *)
theory Muduo_Poller
  imports Muduo_Channel
begin

text \<open>
  What \<open>Channel\<close> relies on in a \<open>Poller\<close> (\<open>muduo/net/Poller.h\<close>), as a specification machine and
  a locale. The specification keeps, for each registered descriptor, its channel and the events
  the channel is interested in. \<open>EPollPoller\<close> and \<open>PollPoller\<close> provide the contract
  (\<open>Muduo_EPollPoller\<close>, \<open>Muduo_PollPoller\<close>); \<open>recycles\<close> tells them apart: whether a channel
  may be enabled again after \<open>disableAll\<close>, and registered again after \<open>remove\<close>.
\<close>

record poller_spec =
  spRegistered :: "int \<Rightarrow> (chan_id \<times> events) option"
  spFresh :: "chan_id \<Rightarrow> bool"
  spFd :: "chan_id \<Rightarrow> int"

definition spec_mask :: "poller_spec \<Rightarrow> chan_id \<Rightarrow> events" where
  "spec_mask sp c = (case spRegistered sp (spFd sp c) of Some (c', m) \<Rightarrow> m | None \<Rightarrow> 0)"

fun spec_legal :: "bool \<Rightarrow> poller_spec \<Rightarrow> chan_op \<Rightarrow> bool" where
  "spec_legal recycles sp (RemoveChannel c) \<longleftrightarrow> spRegistered sp (spFd sp c) = Some (c, 0)"
| "spec_legal recycles sp p \<longleftrightarrow>
     (let c = op_chan p; e = new_events p (spec_mask sp c) in
      0 \<le> spFd sp c \<and>
      (case spRegistered sp (spFd sp c) of
         None \<Rightarrow> spFresh sp c \<and> e \<noteq> 0
       | Some (c', m) \<Rightarrow> c' = c \<and> (m \<noteq> 0 \<or> recycles \<and> e \<noteq> 0)))"

fun spec_op :: "bool \<Rightarrow> chan_op \<Rightarrow> poller_spec \<Rightarrow> poller_spec" where
  "spec_op recycles (RemoveChannel c) sp =
     sp\<lparr>spRegistered := (spRegistered sp)(spFd sp c := None),
        spFresh := (if recycles then (spFresh sp)(c := True) else spFresh sp)\<rparr>"
| "spec_op recycles p sp =
     (let c = op_chan p in
      sp\<lparr>spRegistered := (spRegistered sp)(spFd sp c \<mapsto> (c, new_events p (spec_mask sp c))),
         spFresh := (spFresh sp)(c := False)\<rparr>)"

fun spec_run :: "bool \<Rightarrow> chan_op list \<Rightarrow> poller_spec \<Rightarrow> poller_spec option" where
  "spec_run recycles [] sp = Some sp"
| "spec_run recycles (p # ps) sp =
     (if spec_legal recycles sp p then spec_run recycles ps (spec_op recycles p sp) else None)"

fun ops_run :: "(chan_op \<Rightarrow> 's \<Rightarrow> 's option) \<Rightarrow> chan_op list \<Rightarrow> 's \<Rightarrow> 's option" where
  "ops_run do_op [] s = Some s"
| "ops_run do_op (p # ps) s = (case do_op p s of None \<Rightarrow> None | Some s' \<Rightarrow> ops_run do_op ps s')"

locale poller =
  fixes recycles :: bool
    and inv :: "'s \<Rightarrow> bool"
    and abs :: "'s \<Rightarrow> poller_spec"
    and watched :: "'s \<Rightarrow> int \<Rightarrow> events option"
    and do_op :: "chan_op \<Rightarrow> 's \<Rightarrow> 's option"
  assumes op_law: "inv s \<Longrightarrow> spec_legal recycles (abs s) p \<Longrightarrow>
      \<exists>s'. do_op p s = Some s' \<and> inv s' \<and> abs s' = spec_op recycles p (abs s)"
    and watched_law: "inv s \<Longrightarrow> watched s f =
      (case spRegistered (abs s) f of Some (c, m) \<Rightarrow> (if m = 0 then None else Some m) | None \<Rightarrow> None)"
begin

text \<open>Every legal sequence of calls succeeds, and the kernel then watches exactly the descriptors
  with a non-empty interest set, for exactly these events.\<close>

lemma run_refines:
  "inv s \<Longrightarrow> spec_run recycles ps (abs s) = Some sp \<Longrightarrow>
   \<exists>s'. ops_run do_op ps s = Some s' \<and> inv s' \<and> abs s' = sp"
proof (induction ps arbitrary: s)
  case (Cons p ps)
  then have "spec_legal recycles (abs s) p" by (simp split: if_splits)
  from op_law [OF Cons.prems(1) this] obtain s1 where s1: "do_op p s = Some s1" "inv s1"
    "abs s1 = spec_op recycles p (abs s)" by blast
  with Cons.prems(2) have "spec_run recycles ps (abs s1) = Some sp" by (simp split: if_splits)
  from Cons.IH [OF s1(2) this] s1(1) show ?case by simp
qed simp

lemma run_watches:
  assumes "inv s" "spec_run recycles ps (abs s) = Some sp"
  shows "\<exists>s'. ops_run do_op ps s = Some s' \<and> (\<forall>f. watched s' f =
    (case spRegistered sp f of Some (c, m) \<Rightarrow> (if m = 0 then None else Some m) | None \<Rightarrow> None))"
  using run_refines [OF assms] watched_law by auto

end

text \<open>The two kinds of calls, for the proofs of the laws.\<close>

lemma spec_legal_set:
  "(\<forall>c. p \<noteq> RemoveChannel c) \<Longrightarrow> spec_legal recycles sp p \<longleftrightarrow>
     (let c = op_chan p; e = new_events p (spec_mask sp c) in
      0 \<le> spFd sp c \<and>
      (case spRegistered sp (spFd sp c) of
         None \<Rightarrow> spFresh sp c \<and> e \<noteq> 0
       | Some (c', m) \<Rightarrow> c' = c \<and> (m \<noteq> 0 \<or> recycles \<and> e \<noteq> 0)))"
  by (cases p) simp_all

lemma spec_op_set:
  "(\<forall>c. p \<noteq> RemoveChannel c) \<Longrightarrow> spec_op recycles p sp =
     sp\<lparr>spRegistered := (spRegistered sp)(spFd sp (op_chan p) \<mapsto>
          (op_chan p, new_events p (spec_mask sp (op_chan p)))),
        spFresh := (spFresh sp)(op_chan p := False)\<rparr>"
  by (cases p) (simp_all add: Let_def)

end
