(* ===== verification/Muduo_EPollPoller.thy ===== *)
theory Muduo_EPollPoller
  imports Muduo_Poller
begin

text \<open>
  \<open>EPollPoller\<close> (\<open>muduo/net/poller/EPollPoller.h\<close>, \<open>EPollPoller.cc\<close>). The state holds the map
  \<open>channels_\<close>, the \<open>Channel\<close> objects by identity, the kernel's interest list (\<open>epoll_ctl(2)\<close>:
  adding a present descriptor and modifying an absent one fail), and the size of \<open>events_\<close>.
  \<open>None\<close> is a failed \<open>assert\<close> or \<open>LOG_SYSFATAL\<close>; descriptors are open.
\<close>

section \<open>State and operations\<close>

definition kNew :: int where "kNew = -1"
definition kAdded :: int where "kAdded = 1"
definition kDeleted :: int where "kDeleted = 2"

definition kInitEventListSize :: nat where
  "kInitEventListSize = 16"

record epoll =
  channels :: "int \<Rightarrow> chan_id option"
  chan :: "chan_id \<Rightarrow> channel"
  epollSet :: "int \<Rightarrow> (events \<times> chan_id) option"
  eventsSize :: nat

datatype epoll_ctl = EPOLL_CTL_ADD | EPOLL_CTL_MOD | EPOLL_CTL_DEL

definition EPollPoller_new :: "(chan_id \<Rightarrow> int) \<Rightarrow> epoll" where
  "EPollPoller_new fds = \<lparr>channels = (\<lambda>f. None), chan = (\<lambda>c. Channel_new (fds c)),
     epollSet = (\<lambda>f. None), eventsSize = kInitEventListSize\<rparr>"

definition set_chan :: "chan_id \<Rightarrow> channel \<Rightarrow> epoll \<Rightarrow> epoll" where
  "set_chan c ch s = s\<lparr>chan := (chan s)(c := ch)\<rparr>"

definition ep_set_index :: "chan_id \<Rightarrow> int \<Rightarrow> epoll \<Rightarrow> epoll" where
  "ep_set_index c i s = set_chan c ((chan s c)\<lparr>index := i\<rparr>) s"

definition ep_update :: "epoll_ctl \<Rightarrow> chan_id \<Rightarrow> epoll \<Rightarrow> epoll option" where
  "ep_update operation c s =
     (let f = fd (chan s c); event = (events (chan s c), c) in
      case operation of
        EPOLL_CTL_ADD \<Rightarrow>
          if epollSet s f = None then Some (s\<lparr>epollSet := (epollSet s)(f \<mapsto> event)\<rparr>) else None
      | EPOLL_CTL_MOD \<Rightarrow>
          if epollSet s f \<noteq> None then Some (s\<lparr>epollSet := (epollSet s)(f \<mapsto> event)\<rparr>) else None
      | EPOLL_CTL_DEL \<Rightarrow> Some (s\<lparr>epollSet := (epollSet s)(f := None)\<rparr>))"

definition ep_updateChannel :: "chan_id \<Rightarrow> epoll \<Rightarrow> epoll option" where
  "ep_updateChannel c s =
     (let ch = chan s c; f = fd ch in
      if index ch = kNew \<or> index ch = kDeleted
      then do { s1 \<leftarrow> (if index ch = kNew
                      then if channels s f = None then Some (s\<lparr>channels := (channels s)(f \<mapsto> c)\<rparr>) else None
                      else if channels s f = Some c then Some s else None);
                ep_update EPOLL_CTL_ADD c (ep_set_index c kAdded s1) }
      else if channels s f = Some c \<and> index ch = kAdded
      then if isNoneEvent ch
           then do { s1 \<leftarrow> ep_update EPOLL_CTL_DEL c s; Some (ep_set_index c kDeleted s1) }
           else ep_update EPOLL_CTL_MOD c s
      else None)"

definition ep_removeChannel :: "chan_id \<Rightarrow> epoll \<Rightarrow> epoll option" where
  "ep_removeChannel c s =
     (let ch = chan s c; f = fd ch in
      if channels s f = Some c \<and> isNoneEvent ch \<and> (index ch = kAdded \<or> index ch = kDeleted)
      then do { s1 \<leftarrow> (let s0 = s\<lparr>channels := (channels s)(f := None)\<rparr> in
                       if index ch = kAdded then ep_update EPOLL_CTL_DEL c s0 else Some s0);
                Some (ep_set_index c kNew s1) }
      else None)"

text \<open>The calls of \<open>Channel\<close> that end here; \<open>remove()\<close> asserts \<open>isNoneEvent()\<close> itself.\<close>

definition ep_channel_op :: "chan_op \<Rightarrow> epoll \<Rightarrow> epoll option" where
  "ep_channel_op p s =
     (let c = op_chan p; ch = chan s c in
      case p of
        RemoveChannel _ \<Rightarrow> if isNoneEvent ch then ep_removeChannel c s else None
      | _ \<Rightarrow> ep_updateChannel c (set_chan c (ch\<lparr>events := new_events p (events ch)\<rparr>) s))"

text \<open>\<open>poll\<close>: the argument is what \<open>epoll_wait(2)\<close> filled in, pairs of the reported events and
  \<open>data.ptr\<close>, or an error. \<open>epoll_wait_ok\<close> says that the kernel reports registered entries only, each
  once, and no more than fit.\<close>

fun ep_fillActiveChannels :: "(events \<times> chan_id) list \<Rightarrow> epoll \<Rightarrow> (chan_id list \<times> epoll) option" where
  "ep_fillActiveChannels [] s = Some ([], s)"
| "ep_fillActiveChannels ((ev, c) # es) s =
     (if channels s (fd (chan s c)) = Some c
      then do { (active, s') \<leftarrow> ep_fillActiveChannels es (set_chan c ((chan s c)\<lparr>revents := ev\<rparr>) s);
                Some (c # active, s') }
      else None)"

definition ep_poll :: "int + (events \<times> chan_id) list \<Rightarrow> epoll \<Rightarrow> (chan_id list \<times> epoll) option" where
  "ep_poll result s =
     (case result of
        Inl errno \<Rightarrow> Some ([], s)
      | Inr es \<Rightarrow>
          if es = [] then Some ([], s)
          else if length es \<le> eventsSize s
          then do { (active, s') \<leftarrow> ep_fillActiveChannels es s;
                    Some (active, if length es = eventsSize s'
                                  then s'\<lparr>eventsSize := eventsSize s' * 2\<rparr> else s') }
          else None)"

definition epoll_wait_ok :: "epoll \<Rightarrow> (events \<times> chan_id) list \<Rightarrow> bool" where
  "epoll_wait_ok s es \<longleftrightarrow>
     length es \<le> eventsSize s \<and> distinct (map snd es) \<and>
     (\<forall>(ev, c) \<in> set es. \<exists>f mask. epollSet s f = Some (mask, c))"

section \<open>Invariant\<close>

definition ep_inv :: "epoll \<Rightarrow> bool" where
  "ep_inv s \<longleftrightarrow>
     (\<forall>f c. channels s f = Some c \<longrightarrow> fd (chan s c) = f \<and>
        index (chan s c) = (if events (chan s c) = 0 then kDeleted else kAdded)) \<and>
     (\<forall>c. channels s (fd (chan s c)) \<noteq> Some c \<longrightarrow> index (chan s c) = kNew \<and> events (chan s c) = 0) \<and>
     (\<forall>f. epollSet s f = (case channels s f of
        Some c \<Rightarrow> if events (chan s c) = 0 then None else Some (events (chan s c), c)
      | None \<Rightarrow> None))"

definition ep_abs :: "epoll \<Rightarrow> poller_spec" where
  "ep_abs s = \<lparr>spRegistered = (\<lambda>f. map_option (\<lambda>c. (c, events (chan s c))) (channels s f)),
     spFresh = (\<lambda>c. index (chan s c) = kNew), spFd = (\<lambda>c. fd (chan s c))\<rparr>"

definition ep_watched :: "epoll \<Rightarrow> int \<Rightarrow> events option" where
  "ep_watched s f = map_option fst (epollSet s f)"

lemmas ep_index_consts = kNew_def kAdded_def kDeleted_def

lemma ep_inv_new [simp]: "ep_inv (EPollPoller_new fds)"
  by (simp add: ep_inv_def EPollPoller_new_def Channel_new_def kNew_def)

lemma ep_invD:
  assumes "ep_inv s"
  shows "channels s f = Some c \<Longrightarrow> fd (chan s c) = f"
    and "channels s f = Some c \<Longrightarrow> index (chan s c) = (if events (chan s c) = 0 then kDeleted else kAdded)"
    and "channels s (fd (chan s c)) \<noteq> Some c \<Longrightarrow> index (chan s c) = kNew \<and> events (chan s c) = 0"
    and "epollSet s f = (case channels s f of
        Some c \<Rightarrow> if events (chan s c) = 0 then None else Some (events (chan s c), c) | None \<Rightarrow> None)"
  using assms unfolding ep_inv_def by blast+

lemma ep_spec_mask: "ep_inv s \<Longrightarrow> channels s (fd (chan s c)) \<in> {None, Some c} \<Longrightarrow>
    spec_mask (ep_abs s) c = events (chan s c)"
  using ep_invD(3) [of s c] by (auto simp: spec_mask_def ep_abs_def)

text \<open>Updating the events of one channel, as a state: registered, indexed and in the kernel's list
  according to the new events.\<close>

definition ep_with :: "chan_id \<Rightarrow> events \<Rightarrow> epoll \<Rightarrow> epoll" where
  "ep_with c e s =
     s\<lparr>channels := (channels s)(fd (chan s c) \<mapsto> c),
       chan := (chan s)(c := (chan s c)\<lparr>events := e, index := (if e = 0 then kDeleted else kAdded)\<rparr>),
       epollSet := (epollSet s)(fd (chan s c) := (if e = 0 then None else Some (e, c)))\<rparr>"

lemma ep_with_inv:
  assumes inv: "ep_inv s" and free: "channels s (fd (chan s c)) \<in> {None, Some c}"
  shows "ep_inv (ep_with c e s)"
proof -
  note I = ep_invD [OF inv]
  show ?thesis
    unfolding ep_inv_def
  proof (intro conjI allI impI)
    fix f d
    assume "channels (ep_with c e s) f = Some d"
    then show "fd (chan (ep_with c e s) d) = f"
      and "index (chan (ep_with c e s) d) = (if events (chan (ep_with c e s) d) = 0 then kDeleted else kAdded)"
      using I(1,2) [of f d] free I(1) by (auto simp: ep_with_def split: if_splits)
  next
    fix d
    assume "channels (ep_with c e s) (fd (chan (ep_with c e s) d)) \<noteq> Some d"
    then show "index (chan (ep_with c e s) d) = kNew" and "events (chan (ep_with c e s) d) = 0"
      using I(3) [of d] free by (auto simp: ep_with_def split: if_splits)
  next
    fix f
    show "epollSet (ep_with c e s) f = (case channels (ep_with c e s) f of
        Some c' \<Rightarrow> if events (chan (ep_with c e s) c') = 0 then None
          else Some (events (chan (ep_with c e s) c'), c')
      | None \<Rightarrow> None)"
      using I(1,4) [of f] by (auto simp: ep_with_def split: option.splits)
  qed
qed

lemma channel_index_same:
  "index ch = i \<Longrightarrow> ch\<lparr>events := e, index := i\<rparr> = ch\<lparr>events := e\<rparr>"
  by (cases ch) simp

lemma ep_update_op:
  assumes inv: "ep_inv s" and set: "\<forall>c. p \<noteq> RemoveChannel c"
    and legal: "spec_legal True (ep_abs s) p"
  defines "c \<equiv> op_chan p" and "e \<equiv> new_events p (events (chan s (op_chan p)))"
  shows "ep_channel_op p s = Some (ep_with c e s)" and "channels s (fd (chan s c)) \<in> {None, Some c}"
proof -
  note I = ep_invD [OF inv]
  have L: "case channels s (fd (chan s c)) of None \<Rightarrow> index (chan s c) = kNew \<and> new_events p (spec_mask (ep_abs s) c) \<noteq> 0
    | Some c' \<Rightarrow> c' = c \<and> (events (chan s c) \<noteq> 0 \<or> new_events p (spec_mask (ep_abs s) c) \<noteq> 0)"
    using legal set by (auto simp: spec_legal_set ep_abs_def c_def Let_def split: option.splits)
  show free: "channels s (fd (chan s c)) \<in> {None, Some c}"
    using L by (auto split: option.splits)
  then have m: "new_events p (spec_mask (ep_abs s) c) = e"
    using ep_spec_mask [OF inv] by (simp add: e_def c_def)
  have op: "ep_channel_op p s = ep_updateChannel c (set_chan c ((chan s c)\<lparr>events := e\<rparr>) s)"
    using set by (cases p) (simp_all add: ep_channel_op_def c_def e_def Let_def)
  show "ep_channel_op p s = Some (ep_with c e s)"
  proof (cases "channels s (fd (chan s c))")
    case None
    then have "index (chan s c) = kNew" "e \<noteq> 0" using L m by simp_all
    then show ?thesis using None I(4) [of "fd (chan s c)"]
      by (simp add: op ep_updateChannel_def set_chan_def ep_set_index_def ep_update_def ep_with_def Let_def)
  next
    case (Some c')
    with L have c': "c' = c" "events (chan s c) \<noteq> 0 \<or> e \<noteq> 0" using m by simp_all
    then have ix: "index (chan s c) = (if events (chan s c) = 0 then kDeleted else kAdded)"
      using I(2) Some by blast
    show ?thesis
      using Some c' ix I(4) [of "fd (chan s c)"]
      by (auto simp: op ep_updateChannel_def set_chan_def ep_set_index_def ep_update_def ep_with_def
          isNoneEvent_def kNoneEvent_def ep_index_consts Let_def fun_upd_idem channel_index_same)
  qed
qed
definition ep_without :: "chan_id \<Rightarrow> epoll \<Rightarrow> epoll" where
  "ep_without c s =
     s\<lparr>channels := (channels s)(fd (chan s c) := None),
       chan := (chan s)(c := (chan s c)\<lparr>index := kNew\<rparr>)\<rparr>"

lemma ep_remove_op:
  assumes inv: "ep_inv s" and reg: "channels s (fd (chan s c)) = Some c" and none: "events (chan s c) = 0"
  shows "ep_channel_op (RemoveChannel c) s = Some (ep_without c s)" and "ep_inv (ep_without c s)"
proof -
  note I = ep_invD [OF inv]
  have ix: "index (chan s c) = kDeleted" using I(2) [OF reg] none by simp
  show "ep_channel_op (RemoveChannel c) s = Some (ep_without c s)"
    using reg none ix by (simp add: ep_channel_op_def ep_removeChannel_def ep_set_index_def set_chan_def
        isNoneEvent_def kNoneEvent_def ep_index_consts Let_def ep_without_def)
  show "ep_inv (ep_without c s)"
    unfolding ep_inv_def
  proof (intro conjI allI impI)
    fix f d
    assume "channels (ep_without c s) f = Some d"
    moreover from this have "d \<noteq> c" using I(1) [of f d] by (auto simp: ep_without_def split: if_splits)
    ultimately show "fd (chan (ep_without c s) d) = f"
      and "index (chan (ep_without c s) d) = (if events (chan (ep_without c s) d) = 0 then kDeleted else kAdded)"
      using I(1,2) [of f d] by (auto simp: ep_without_def split: if_splits)
  next
    fix d
    assume d: "channels (ep_without c s) (fd (chan (ep_without c s) d)) \<noteq> Some d"
    have "index (chan (ep_without c s) d) = kNew \<and> events (chan (ep_without c s) d) = 0"
    proof (cases "d = c")
      case True
      then show ?thesis
        using none by (simp_all add: ep_without_def)
    next
      case False
      have "channels s (fd (chan s d)) \<noteq> Some d"
      proof
        assume a: "channels s (fd (chan s d)) = Some d"
        with d False have "fd (chan s d) = fd (chan s c)" by (simp add: ep_without_def split: if_splits)
        with a reg False show False by simp
      qed
      with I(3) [of d] False
      show ?thesis
        by (simp_all add: ep_without_def)
    qed
    then show "index (chan (ep_without c s) d) = kNew" "events (chan (ep_without c s) d) = 0" by simp_all
  next
    fix f
    show "epollSet (ep_without c s) f = (case channels (ep_without c s) f of
        Some c' \<Rightarrow> if events (chan (ep_without c s) c') = 0 then None else Some (events (chan (ep_without c s) c'), c')
      | None \<Rightarrow> None)"
    proof (cases "channels s f")
      case (Some d)
      then have "d = c \<longleftrightarrow> f = fd (chan s c)" using I(1) [OF Some] reg Some by (metis option.inject)
      with Some reg none I(4) [of f] show ?thesis
        by (cases "d = c") (simp_all add: ep_without_def)
    qed (use I(4) [of f] in \<open>simp add: ep_without_def\<close>)
  qed
qed

lemma ep_without_abs:
  assumes "ep_inv s"
  shows "ep_abs (ep_without c s) = spec_op True (RemoveChannel c) (ep_abs s)"
proof -
  have own: "channels s f = Some c \<Longrightarrow> f = fd (chan s c)" for f
    using ep_invD(1) [OF assms] by blast
  show ?thesis
    by (simp add: ep_abs_def ep_without_def fun_eq_iff)
      (auto simp: map_option_case dest: own split: option.splits)
qed

section \<open>The interface\<close>

interpretation epoll_poller: poller True ep_inv ep_abs ep_watched ep_channel_op
proof
  fix s p
  assume inv: "ep_inv s" and legal: "spec_legal True (ep_abs s) p"
  show "\<exists>s'. ep_channel_op p s = Some s' \<and> ep_inv s' \<and> ep_abs s' = spec_op True p (ep_abs s)"
  proof (cases "\<exists>c. p = RemoveChannel c")
    case True
    then obtain c where c: "p = RemoveChannel c" by blast
    with legal have r: "channels s (fd (chan s c)) = Some c" "events (chan s c) = 0"
      by (auto simp: ep_abs_def)
    from ep_remove_op [OF inv r] ep_without_abs [OF inv] c show ?thesis by blast
  next
    case False
    then have set: "\<forall>c. p \<noteq> RemoveChannel c" by blast
    let ?c = "op_chan p"
    note U = ep_update_op [OF inv set legal]
    have m: "spec_mask (ep_abs s) ?c = events (chan s ?c)" by (rule ep_spec_mask [OF inv U(2)])
    have "ep_abs (ep_with ?c (new_events p (events (chan s ?c))) s) = spec_op True p (ep_abs s)"
      unfolding spec_op_set [OF set] m using ep_invD(1) [OF inv]
      by (auto simp: ep_abs_def ep_with_def ep_index_consts fun_eq_iff map_option_case split: option.splits)
    with U(1) ep_with_inv [OF inv U(2)] show ?thesis by blast
  qed
next
  fix s f
  assume "ep_inv s"
  from ep_invD(4) [OF this, of f]
  show "ep_watched s f = (case spRegistered (ep_abs s) f of
      Some (c, m) \<Rightarrow> (if m = 0 then None else Some m) | None \<Rightarrow> None)"
    by (simp add: ep_watched_def ep_abs_def split: option.splits)
qed

section \<open>Polling\<close>

lemma ep_fill_ok:
  "\<forall>(ev, c) \<in> set es. channels s (fd (chan s c)) = Some c \<Longrightarrow>
   \<exists>s'. ep_fillActiveChannels es s = Some (map snd es, s') \<and> channels s' = channels s \<and>
     epollSet s' = epollSet s \<and> eventsSize s' = eventsSize s \<and>
     (\<forall>d. \<exists>r. chan s' d = (chan s d)\<lparr>revents := r\<rparr> \<and> (d \<notin> snd ` set es \<longrightarrow> r = revents (chan s d)) \<and>
       (\<forall>ev. distinct (map snd es) \<longrightarrow> (ev, d) \<in> set es \<longrightarrow> r = ev))"
proof (induction es arbitrary: s)
  case Nil
  have "\<exists>r. chan s d = (chan s d)\<lparr>revents := r\<rparr> \<and> r = revents (chan s d)" for d by simp
  then show ?case by simp
next
  case (Cons x es)
  obtain ev c where x: "x = (ev, c)" by (cases x)
  let ?s = "set_chan c ((chan s c)\<lparr>revents := ev\<rparr>) s"
  have "\<forall>(ev, d) \<in> set es. channels ?s (fd (chan ?s d)) = Some d"
    using Cons.prems by (auto simp: set_chan_def)
  from Cons.IH [OF this] obtain s' where s': "ep_fillActiveChannels es ?s = Some (map snd es, s')"
    "channels s' = channels ?s" "epollSet s' = epollSet ?s" "eventsSize s' = eventsSize ?s"
    and ch: "\<And>d. \<exists>r. chan s' d = (chan ?s d)\<lparr>revents := r\<rparr> \<and> (d \<notin> snd ` set es \<longrightarrow> r = revents (chan ?s d)) \<and>
       (\<forall>ev. distinct (map snd es) \<longrightarrow> (ev, d) \<in> set es \<longrightarrow> r = ev)" by blast
  have "\<exists>r. chan s' d = (chan s d)\<lparr>revents := r\<rparr> \<and> (d \<notin> snd ` set (x # es) \<longrightarrow> r = revents (chan s d)) \<and>
       (\<forall>e. distinct (map snd (x # es)) \<longrightarrow> (e, d) \<in> set (x # es) \<longrightarrow> r = e)" for d
  proof -
    from ch [of d] obtain r where r: "chan s' d = (chan ?s d)\<lparr>revents := r\<rparr>"
      "d \<notin> snd ` set es \<longrightarrow> r = revents (chan ?s d)"
      "\<forall>ev. distinct (map snd es) \<longrightarrow> (ev, d) \<in> set es \<longrightarrow> r = ev" by blast
    show ?thesis
      using r x by (intro exI [of _ r]) (auto simp: set_chan_def image_iff split: if_splits)
  qed
  then show ?case using s' Cons.prems x by (simp add: set_chan_def)
qed

text \<open>\<open>fillActiveChannels\<close> on what the kernel may report: no assertion fails, the active list is the list of
  reported channels in order, each with the reported events, and nothing else changes.\<close>

lemma ep_poll_ok:
  assumes inv: "ep_inv s" and ok: "epoll_wait_ok s es"
  shows "\<exists>s'. ep_poll (Inr es) s = Some (map snd es, s') \<and> ep_inv s' \<and> ep_abs s' = ep_abs s \<and>
    (\<forall>(ev, c) \<in> set es. revents (chan s' c) = ev \<and> events (chan s' c) \<noteq> 0) \<and> length es \<le> eventsSize s' \<and>
    (es \<noteq> [] \<and> length es = eventsSize s \<longrightarrow> eventsSize s' = 2 * eventsSize s)"
proof -
  note I = ep_invD [OF inv]
  have reg: "channels s (fd (chan s c)) = Some c \<and> events (chan s c) \<noteq> 0" if m: "(ev, c) \<in> set es" for ev c
  proof -
    from ok m obtain f mask where f: "epollSet s f = Some (mask, c)"
      unfolding epoll_wait_ok_def by blast
    with I(4) [of f] have "channels s f = Some c" "events (chan s c) \<noteq> 0"
      by (auto split: option.splits if_splits)
    with I(1) [of f c] show ?thesis by simp
  qed
  then have "\<forall>(ev, c) \<in> set es. channels s (fd (chan s c)) = Some c" by auto
  from ep_fill_ok [OF this] obtain s' where s': "ep_fillActiveChannels es s = Some (map snd es, s')"
    "channels s' = channels s" "epollSet s' = epollSet s" "eventsSize s' = eventsSize s"
    and ch: "\<And>d. \<exists>r. chan s' d = (chan s d)\<lparr>revents := r\<rparr> \<and>
       (\<forall>ev. distinct (map snd es) \<longrightarrow> (ev, d) \<in> set es \<longrightarrow> r = ev)" by blast
  have dist: "distinct (map snd es)" "length es \<le> eventsSize s" using ok by (simp_all add: epoll_wait_ok_def)
  have same: "fd (chan s' d) = fd (chan s d)" "events (chan s' d) = events (chan s d)"
    "index (chan s' d) = index (chan s d)" for d
    using ch [of d] by auto
  have rev: "revents (chan s' c) = ev" if "(ev, c) \<in> set es" for ev c
    using ch [of c] dist(1) that by auto
  define s'' where "s'' = (if es \<noteq> [] \<and> length es = eventsSize s
    then s'\<lparr>eventsSize := eventsSize s' * 2\<rparr> else s')"
  have s''_fields: "channels s'' = channels s" "epollSet s'' = epollSet s" "chan s'' = chan s'"
    using s' by (simp_all add: s''_def)
  have "ep_inv s''" using inv by (simp add: ep_inv_def s''_fields same cong: option.case_cong if_cong)
  moreover have "ep_abs s'' = ep_abs s" by (simp add: ep_abs_def s''_fields same)
  moreover have "ep_poll (Inr es) s = Some (map snd es, s'')"
    using s'(1,4) dist(2) by (cases es) (auto simp: ep_poll_def s''_def)
  moreover have "\<forall>(ev, c) \<in> set es. revents (chan s'' c) = ev \<and> events (chan s'' c) \<noteq> 0"
    using rev reg same by (auto simp: s''_fields)
  ultimately show ?thesis using s'(4) dist(2) by (intro exI [of _ s'']) (auto simp: s''_def)
qed

section \<open>Properties\<close>

text \<open>C18: \<open>EPollPoller\<close> and the kernel never disagree. Any sequence of \<open>enableReading\<close>,
  \<open>enableWriting\<close>, \<open>disableWriting\<close>, \<open>disableAll\<close> and \<open>remove\<close> calls on channels that is legal
  for the specification (one channel per descriptor, removal after \<open>disableAll\<close>, no second
  \<open>disableAll\<close> in a row) runs without a failed assertion or \<open>epoll_ctl\<close> error, channels that were disabled or
  removed can come back, and at the end the kernel watches exactly the descriptors with a non-empty
  interest set, for exactly these events.\<close>

theorem epoll_interest_exact:
  assumes "spec_run True ops (ep_abs (EPollPoller_new fds)) = Some sp"
  shows "\<exists>s. ops_run ep_channel_op ops (EPollPoller_new fds) = Some s \<and>
    (\<forall>f. ep_watched s f =
      (case spRegistered sp f of Some (c, m) \<Rightarrow> (if m = 0 then None else Some m) | None \<Rightarrow> None))"
  using epoll_poller.run_watches [OF ep_inv_new assms] .

theorem epoll_interest_exact_witness:
  "\<exists>s. ops_run ep_channel_op
       [EnableReading 0, EnableWriting 1, DisableAll 0, EnableWriting 0, DisableAll 1, RemoveChannel 1,
        EnableReading 1] (EPollPoller_new (\<lambda>c. int c + 3)) = Some s \<and>
     ep_watched s 3 = Some kWriteEvent \<and> ep_watched s 4 = Some kReadEvent"
proof -
  have "\<exists>sp. spec_run True [EnableReading 0, EnableWriting 1, DisableAll 0, EnableWriting 0, DisableAll 1,
        RemoveChannel 1, EnableReading 1] (ep_abs (EPollPoller_new (\<lambda>c. int c + 3))) = Some sp \<and>
      spRegistered sp 3 = Some (0, kWriteEvent) \<and> spRegistered sp 4 = Some (1, kReadEvent)"
    by (simp add: ep_abs_def EPollPoller_new_def Channel_new_def spec_mask_def event_consts kNew_def Let_def)
  then obtain sp where sp: "spec_run True [EnableReading 0, EnableWriting 1, DisableAll 0, EnableWriting 0,
        DisableAll 1, RemoveChannel 1, EnableReading 1] (ep_abs (EPollPoller_new (\<lambda>c. int c + 3))) = Some sp"
      "spRegistered sp 3 = Some (0, kWriteEvent)" "spRegistered sp 4 = Some (1, kReadEvent)" by blast
  from epoll_interest_exact [OF sp(1)] sp(2,3) show ?thesis by (auto simp: event_consts)
qed

text \<open>Every report of the kernel is dispatched. In any state reached by legal calls, for any report of
  \<open>epoll_wait\<close> about registered descriptors, \<open>poll\<close> returns the reported channels in order with the
  reported events set, all of them channels with a non-empty interest set; no assertion fails, the
  interest set is unchanged, and the event array doubles exactly when the report filled it.\<close>

theorem epoll_poll_dispatches:
  assumes "spec_run True ops (ep_abs (EPollPoller_new fds)) = Some sp"
    and "ops_run ep_channel_op ops (EPollPoller_new fds) = Some s" and "epoll_wait_ok s es"
  shows "\<exists>s'. ep_poll (Inr es) s = Some (map snd es, s') \<and> ep_abs s' = ep_abs s \<and>
    (\<forall>(ev, c) \<in> set es. revents (chan s' c) = ev \<and> events (chan s' c) \<noteq> 0) \<and>
    length es \<le> eventsSize s' \<and> (es \<noteq> [] \<and> length es = eventsSize s \<longrightarrow> eventsSize s' = 2 * eventsSize s)"
proof -
  from epoll_poller.run_refines [OF ep_inv_new assms(1)] assms(2) have "ep_inv s" by auto
  from ep_poll_ok [OF this assms(3)] show ?thesis by blast
qed

theorem epoll_poll_dispatches_witness:
  "\<exists>s s'. ops_run ep_channel_op [EnableReading 0] (EPollPoller_new (\<lambda>c. int c + 3)) = Some s \<and>
     ep_poll (Inr [(POLLIN, 0)]) s = Some ([0], s') \<and> revents (chan s' 0) = POLLIN"
proof -
  obtain sp where sp: "spec_run True [EnableReading 0] (ep_abs (EPollPoller_new (\<lambda>c. int c + 3))) = Some sp"
    by (simp add: ep_abs_def EPollPoller_new_def Channel_new_def spec_mask_def event_consts kNew_def Let_def)
  obtain s where s: "ops_run ep_channel_op [EnableReading 0] (EPollPoller_new (\<lambda>c. int c + 3)) = Some s"
    "eventsSize s = 16" "epollSet s 3 = Some (kReadEvent, 0)"
    by (simp add: ep_channel_op_def ep_updateChannel_def ep_update_def EPollPoller_new_def set_chan_def
        ep_set_index_def Channel_new_def kInitEventListSize_def event_consts ep_index_consts Let_def)
  have "epoll_wait_ok s [(POLLIN, 0)]" using s(2,3) by (auto simp: epoll_wait_ok_def)
  from epoll_poll_dispatches [OF sp s(1) this] s(1) show ?thesis by auto
qed

text \<open>A second \<open>disableAll\<close> undoes the first in the kernel. The first call deletes the descriptor
  from the epoll set; the second one finds the channel in state \<open>kDeleted\<close> and adds the
  descriptor back with an empty mask, under which \<open>epoll\<close> still reports errors and hang-ups.\<close>

theorem epoll_double_disable_readds:
  assumes "ep_inv s" and "channels s (fd (chan s c)) = Some c" and "events (chan s c) \<noteq> 0"
  shows "\<exists>s1 s2. ep_channel_op (DisableAll c) s = Some s1 \<and> epollSet s1 (fd (chan s c)) = None \<and>
    ep_channel_op (DisableAll c) s1 = Some s2 \<and> epollSet s2 (fd (chan s c)) = Some (0, c)"
proof -
  have ix: "index (chan s c) = kAdded" using ep_invD(2) [OF assms(1,2)] assms(3) by simp
  have s1: "ep_channel_op (DisableAll c) s = Some (ep_with c 0 s)"
    using assms(2) ix
    by (simp add: ep_channel_op_def ep_updateChannel_def set_chan_def ep_update_def ep_set_index_def
        ep_with_def isNoneEvent_def kNoneEvent_def ep_index_consts Let_def fun_upd_idem)
  show ?thesis
    using s1 by (simp add: ep_channel_op_def ep_updateChannel_def set_chan_def ep_update_def ep_set_index_def
        ep_with_def isNoneEvent_def kNoneEvent_def ep_index_consts Let_def)
qed

theorem epoll_double_disable_readds_witness:
  "\<exists>s1 s2. ep_channel_op (DisableAll 0)
       (ep_with 0 kReadEvent (EPollPoller_new (\<lambda>c. 5))) = Some s1 \<and> epollSet s1 5 = None \<and>
     ep_channel_op (DisableAll 0) s1 = Some s2 \<and> epollSet s2 5 = Some (0, 0)"
proof -
  have inv: "ep_inv (ep_with 0 kReadEvent (EPollPoller_new (\<lambda>c. 5)))"
    by (rule ep_with_inv [OF ep_inv_new]) (simp add: EPollPoller_new_def)
  show ?thesis using epoll_double_disable_readds [OF inv, of 0]
    by (simp add: ep_with_def EPollPoller_new_def Channel_new_def event_consts)
qed

end
