(* ===== verification/Muduo_PollPoller.thy ===== *)
theory Muduo_PollPoller
  imports Muduo_Poller
begin

text \<open>
  \<open>PollPoller\<close> (\<open>muduo/net/poller/PollPoller.h\<close>, \<open>PollPoller.cc\<close>): the array \<open>pollfds_\<close>, the
  map \<open>channels_\<close>, and in every channel its index in the array. Removal swaps the last entry into
  the hole. \<open>None\<close> is a failed \<open>assert\<close> or an access outside the array. \<open>poll(2)\<close> ignores the
  entries whose descriptor is negative.
\<close>

section \<open>State and operations\<close>

record pollfd =
  pfd_fd :: int
  pfd_events :: events
  pfd_revents :: events

record poll_state =
  pollfds :: "pollfd list"
  pchannels :: "int \<Rightarrow> chan_id option"
  pchan :: "chan_id \<Rightarrow> channel"

definition PollPoller_new :: "(chan_id \<Rightarrow> int) \<Rightarrow> poll_state" where
  "PollPoller_new fds = \<lparr>pollfds = [], pchannels = (\<lambda>f. None), pchan = (\<lambda>c. Channel_new (fds c))\<rparr>"

definition pp_set_index :: "chan_id \<Rightarrow> nat \<Rightarrow> poll_state \<Rightarrow> poll_state" where
  "pp_set_index c i s = s\<lparr>pchan := (pchan s)(c := (pchan s c)\<lparr>index := int i\<rparr>)\<rparr>"

definition pp_updateChannel :: "chan_id \<Rightarrow> poll_state \<Rightarrow> poll_state option" where
  "pp_updateChannel c s =
     (let ch = pchan s c; f = fd ch in
      if index ch < 0
      then if pchannels s f = None
           then Some ((pp_set_index c (length (pollfds s)) s)
                  \<lparr>pollfds := pollfds s @ [\<lparr>pfd_fd = f, pfd_events = events ch, pfd_revents = 0\<rparr>],
                   pchannels := (pchannels s)(f \<mapsto> c)\<rparr>)
           else None
      else if pchannels s f = Some c \<and> nat (index ch) < length (pollfds s)
      then let idx = nat (index ch); pfd = pollfds s ! idx in
           if pfd_fd pfd = f \<or> pfd_fd pfd = - f - 1
           then Some (s\<lparr>pollfds := (pollfds s)[idx :=
                  \<lparr>pfd_fd = (if isNoneEvent ch then - f - 1 else pfd_fd pfd),
                   pfd_events = events ch, pfd_revents = 0\<rparr>]\<rparr>)
           else None
      else None)"

definition pp_removeChannel :: "chan_id \<Rightarrow> poll_state \<Rightarrow> poll_state option" where
  "pp_removeChannel c s =
     (let ch = pchan s c; f = fd ch in
      if pchannels s f = Some c \<and> isNoneEvent ch \<and> 0 \<le> index ch \<and> nat (index ch) < length (pollfds s)
      then let idx = nat (index ch); pfd = pollfds s ! idx in
           if pfd_fd pfd = - f - 1 \<and> pfd_events pfd = events ch
           then let s1 = s\<lparr>pchannels := (pchannels s)(f := None)\<rparr> in
                if idx = length (pollfds s) - 1
                then Some (s1\<lparr>pollfds := butlast (pollfds s)\<rparr>)
                else let back = last (pollfds s);
                         channelAtEnd = pfd_fd back;
                         channelAtEnd = (if channelAtEnd < 0 then - channelAtEnd - 1 else channelAtEnd)
                     in (case pchannels s1 channelAtEnd of
                           None \<Rightarrow> None
                         | Some d \<Rightarrow> Some ((pp_set_index d idx s1)
                             \<lparr>pollfds := butlast ((pollfds s)[idx := back])\<rparr>))
           else None
      else None)"

definition pp_channel_op :: "chan_op \<Rightarrow> poll_state \<Rightarrow> poll_state option" where
  "pp_channel_op p s =
     (let c = op_chan p; ch = pchan s c in
      case p of
        RemoveChannel _ \<Rightarrow> if isNoneEvent ch then pp_removeChannel c s else None
      | _ \<Rightarrow> pp_updateChannel c (s\<lparr>pchan := (pchan s)(c := ch\<lparr>events := new_events p (events ch)\<rparr>)\<rparr>))"

text \<open>\<open>poll\<close>: the argument is the return value of \<open>poll(2)\<close> and the \<open>revents\<close> it filled in.\<close>

fun pp_fillActiveChannels :: "pollfd list \<Rightarrow> nat \<Rightarrow> poll_state \<Rightarrow> (chan_id list \<times> poll_state) option" where
  "pp_fillActiveChannels [] n s = Some ([], s)"
| "pp_fillActiveChannels (pfd # ps) n s =
     (if n = 0 then Some ([], s)
      else if pfd_revents pfd \<noteq> 0
      then (case pchannels s (pfd_fd pfd) of
              None \<Rightarrow> None
            | Some c \<Rightarrow>
                if fd (pchan s c) = pfd_fd pfd
                then do { (active, s') \<leftarrow> pp_fillActiveChannels ps (n - 1)
                            (s\<lparr>pchan := (pchan s)(c := (pchan s c)\<lparr>revents := pfd_revents pfd\<rparr>)\<rparr>);
                          Some (c # active, s') }
                else None)
      else pp_fillActiveChannels ps n s)"

definition pp_poll :: "int + events list \<Rightarrow> poll_state \<Rightarrow> (chan_id list \<times> poll_state) option" where
  "pp_poll result s =
     (case result of
        Inl errno \<Rightarrow> Some ([], s)
      | Inr revs \<Rightarrow>
          let s' = s\<lparr>pollfds := map2 (\<lambda>pfd r. pfd\<lparr>pfd_revents := r\<rparr>) (pollfds s) revs\<rparr>;
              numEvents = length (filter (\<lambda>r. r \<noteq> 0) revs)
          in if numEvents > 0 then pp_fillActiveChannels (pollfds s') numEvents s' else Some ([], s'))"

definition poll_ok :: "poll_state \<Rightarrow> events list \<Rightarrow> bool" where
  "poll_ok s revs \<longleftrightarrow> length revs = length (pollfds s) \<and>
     (\<forall>i < length revs. pfd_fd (pollfds s ! i) < 0 \<longrightarrow> revs ! i = 0)"

section \<open>Invariant\<close>

text \<open>The channel an entry belongs to, and the entry of a channel.\<close>

definition entry_fd :: "pollfd \<Rightarrow> int" where
  "entry_fd p = (if pfd_fd p < 0 then - pfd_fd p - 1 else pfd_fd p)"

definition entry_of :: "channel \<Rightarrow> pollfd \<Rightarrow> bool" where
  "entry_of ch p \<longleftrightarrow> pfd_events p = events ch \<and>
     pfd_fd p = (if events ch = 0 then - fd ch - 1 else fd ch)"

definition pp_inv :: "poll_state \<Rightarrow> bool" where
  "pp_inv s \<longleftrightarrow>
     (\<forall>f c. pchannels s f = Some c \<longrightarrow> fd (pchan s c) = f \<and> 0 \<le> f \<and>
        (\<exists>i < length (pollfds s). index (pchan s c) = int i \<and> entry_of (pchan s c) (pollfds s ! i))) \<and>
     (\<forall>i < length (pollfds s). \<exists>c. pchannels s (entry_fd (pollfds s ! i)) = Some c \<and>
        index (pchan s c) = int i) \<and>
     (\<forall>c. pchannels s (fd (pchan s c)) \<noteq> Some c \<longrightarrow> events (pchan s c) = 0)"

definition pp_abs :: "poll_state \<Rightarrow> poller_spec" where
  "pp_abs s = \<lparr>spRegistered = (\<lambda>f. map_option (\<lambda>c. (c, events (pchan s c))) (pchannels s f)),
     spFresh = (\<lambda>c. index (pchan s c) < 0), spFd = (\<lambda>c. fd (pchan s c))\<rparr>"

definition pp_watched :: "poll_state \<Rightarrow> int \<Rightarrow> events option" where
  "pp_watched s f = (if 0 \<le> f then map_option pfd_events (find (\<lambda>p. pfd_fd p = f) (pollfds s)) else None)"

lemma pp_inv_new [simp]: "pp_inv (PollPoller_new fds)"
  by (simp add: pp_inv_def PollPoller_new_def Channel_new_def)

lemma pp_invD:
  assumes "pp_inv s"
  shows "pchannels s f = Some c \<Longrightarrow> fd (pchan s c) = f \<and> 0 \<le> f"
    and "pchannels s f = Some c \<Longrightarrow> \<exists>i < length (pollfds s). index (pchan s c) = int i \<and>
      entry_of (pchan s c) (pollfds s ! i)"
    and "i < length (pollfds s) \<Longrightarrow> \<exists>c. pchannels s (entry_fd (pollfds s ! i)) = Some c \<and>
      index (pchan s c) = int i"
    and "pchannels s (fd (pchan s c)) \<noteq> Some c \<Longrightarrow> events (pchan s c) = 0"
  using assms unfolding pp_inv_def by blast+

lemma entry_of_fd: "entry_of ch p \<Longrightarrow> 0 \<le> fd ch \<Longrightarrow> entry_fd p = fd ch"
  by (simp add: entry_of_def entry_fd_def)

text \<open>An entry and the channel that has its index belong together.\<close>

lemma pp_entry:
  assumes inv: "pp_inv s" and i: "i < length (pollfds s)"
  shows "\<exists>c. pchannels s (fd (pchan s c)) = Some c \<and> index (pchan s c) = int i \<and>
    entry_of (pchan s c) (pollfds s ! i) \<and> 0 \<le> fd (pchan s c)"
proof -
  from pp_invD(3) [OF inv i] obtain c where c: "pchannels s (entry_fd (pollfds s ! i)) = Some c"
    "index (pchan s c) = int i" by blast
  with pp_invD(1,2) [OF inv c(1)] show ?thesis by (intro exI [of _ c]) auto
qed

lemma pp_index_unique:
  assumes inv: "pp_inv s" and c: "pchannels s f = Some c" "index (pchan s c) = int i"
    and d: "pchannels s g = Some d" "index (pchan s d) = int i"
  shows "c = d \<and> f = g"
proof -
  from pp_invD(1,2) [OF inv c(1)] c(2) have "i < length (pollfds s)" "entry_of (pchan s c) (pollfds s ! i)"
    "fd (pchan s c) = f" "0 \<le> f" by auto
  moreover from pp_invD(1,2) [OF inv d(1)] d(2) have "entry_of (pchan s d) (pollfds s ! i)"
    "fd (pchan s d) = g" "0 \<le> g" by auto
  ultimately have "f = g" using entry_of_fd by metis
  with c(1) d(1) show ?thesis by simp
qed

lemma pp_watched_eq:
  assumes inv: "pp_inv s"
  shows "pp_watched s f = (case spRegistered (pp_abs s) f of
      Some (c, m) \<Rightarrow> (if m = 0 then None else Some m) | None \<Rightarrow> None)"
proof (cases "find (\<lambda>p. pfd_fd p = f) (pollfds s)")
  case None
  show ?thesis
  proof (cases "pchannels s f")
    case (Some c)
    from pp_invD(1,2) [OF inv Some] obtain i where i: "i < length (pollfds s)"
      "entry_of (pchan s c) (pollfds s ! i)" "fd (pchan s c) = f" by auto
    with None have "pfd_fd (pollfds s ! i) \<noteq> f" by (auto simp: find_None_iff in_set_conv_nth)
    with i have "events (pchan s c) = 0" by (auto simp: entry_of_def split: if_splits)
    then show ?thesis using None Some by (simp add: pp_watched_def pp_abs_def)
  qed (use None in \<open>simp add: pp_watched_def pp_abs_def\<close>)
next
  case (Some p)
  then obtain i where i: "i < length (pollfds s)" "p = pollfds s ! i" "pfd_fd p = f"
    by (auto simp: find_Some_iff)
  from pp_entry [OF inv i(1)] obtain c where c: "pchannels s (fd (pchan s c)) = Some c"
    "entry_of (pchan s c) p" "0 \<le> fd (pchan s c)" using i(2) by blast
  show ?thesis
  proof (cases "0 \<le> f")
    case True
    with c i(3) have "events (pchan s c) \<noteq> 0" "fd (pchan s c) = f" "pfd_events p = events (pchan s c)"
      by (auto simp: entry_of_def split: if_splits)
    with c(1) Some True show ?thesis by (simp add: pp_watched_def pp_abs_def)
  next
    case False
    then have "pchannels s f = None" using pp_invD(1) [OF inv, of f] by (cases "pchannels s f") auto
    with False show ?thesis by (simp add: pp_watched_def pp_abs_def)
  qed
qed

section \<open>The operations on well-formed states\<close>

lemma pp_invI:
  assumes "\<And>f c. pchannels s f = Some c \<Longrightarrow> fd (pchan s c) = f \<and> 0 \<le> f"
    and "\<And>f c. pchannels s f = Some c \<Longrightarrow> \<exists>i < length (pollfds s). index (pchan s c) = int i \<and>
      entry_of (pchan s c) (pollfds s ! i)"
    and "\<And>i. i < length (pollfds s) \<Longrightarrow> \<exists>c. pchannels s (entry_fd (pollfds s ! i)) = Some c \<and>
      index (pchan s c) = int i"
    and "\<And>c. pchannels s (fd (pchan s c)) \<noteq> Some c \<Longrightarrow> events (pchan s c) = 0"
  shows "pp_inv s"
  using assms unfolding pp_inv_def by blast

lemma pp_spec_mask: "pp_inv s \<Longrightarrow> pchannels s (fd (pchan s c)) \<in> {None, Some c} \<Longrightarrow>
    spec_mask (pp_abs s) c = events (pchan s c)"
  using pp_invD(4) [of s c] by (auto simp: spec_mask_def pp_abs_def)

text \<open>Registering a new channel appends its entry.\<close>

definition pp_add :: "chan_id \<Rightarrow> events \<Rightarrow> poll_state \<Rightarrow> poll_state" where
  "pp_add c e s =
     s\<lparr>pollfds := pollfds s @ [\<lparr>pfd_fd = fd (pchan s c), pfd_events = e, pfd_revents = 0\<rparr>],
       pchannels := (pchannels s)(fd (pchan s c) \<mapsto> c),
       pchan := (pchan s)(c := (pchan s c)\<lparr>events := e, index := int (length (pollfds s))\<rparr>)\<rparr>"

lemma pp_add_inv:
  assumes inv: "pp_inv s" and c: "pchannels s (fd (pchan s c)) = None" "0 \<le> fd (pchan s c)" and e: "e \<noteq> 0"
  shows "pp_inv (pp_add c e s)"
proof (rule pp_invI)
  let ?s = "pp_add c e s" and ?f = "fd (pchan s c)"
  have other: "pchan ?s d = pchan s d \<and> g \<noteq> ?f" if "pchannels s g = Some d" for g d
    using that c(1) pp_invD(1) [OF inv that] by (auto simp: pp_add_def)
  fix g d
  assume d: "pchannels ?s g = Some d"
  then have cases: "g = ?f \<and> d = c \<or> pchannels s g = Some d" by (auto simp: pp_add_def split: if_splits)
  from cases show "fd (pchan ?s d) = g \<and> 0 \<le> g"
    using other [of g d] pp_invD(1) [OF inv, of g d] c(2) by (auto simp: pp_add_def)
  from cases show "\<exists>i < length (pollfds ?s). index (pchan ?s d) = int i \<and> entry_of (pchan ?s d) (pollfds ?s ! i)"
  proof
    assume "g = ?f \<and> d = c"
    then show ?thesis using e
      by (intro exI [of _ "length (pollfds s)"]) (simp add: pp_add_def entry_of_def)
  next
    assume g: "pchannels s g = Some d"
    from pp_invD(2) [OF inv g] obtain i where "i < length (pollfds s)" "index (pchan s d) = int i"
      "entry_of (pchan s d) (pollfds s ! i)" by blast
    then show ?thesis using other [OF g]
      by (intro exI [of _ i]) (simp add: pp_add_def nth_append)
  qed
next
  let ?s = "pp_add c e s" and ?f = "fd (pchan s c)"
  fix i
  assume i: "i < length (pollfds ?s)"
  show "\<exists>d. pchannels ?s (entry_fd (pollfds ?s ! i)) = Some d \<and> index (pchan ?s d) = int i"
  proof (cases "i = length (pollfds s)")
    case True
    then show ?thesis using c(2) by (intro exI [of _ c]) (simp add: pp_add_def entry_fd_def)
  next
    case False
    then have i': "i < length (pollfds s)" using i by (simp add: pp_add_def)
    from pp_invD(3) [OF inv i'] obtain d where d: "pchannels s (entry_fd (pollfds s ! i)) = Some d"
      "index (pchan s d) = int i" by blast
    have "d \<noteq> c" using pp_invD(1) [OF inv d(1)] d(1) c(1) by auto
    moreover have "entry_fd (pollfds s ! i) \<noteq> ?f" using d(1) c(1) by auto
    ultimately show ?thesis using d i' by (intro exI [of _ d]) (simp add: pp_add_def nth_append)
  qed
next
  fix d
  assume "pchannels (pp_add c e s) (fd (pchan (pp_add c e s) d)) \<noteq> Some d"
  then show "events (pchan (pp_add c e s) d) = 0"
    using pp_invD(4) [OF inv, of d] c(1) by (auto simp: pp_add_def split: if_splits)
qed

text \<open>A registered channel whose interest set is not empty: its entry is rewritten.\<close>

definition pp_change :: "chan_id \<Rightarrow> events \<Rightarrow> poll_state \<Rightarrow> poll_state" where
  "pp_change c e s =
     s\<lparr>pollfds := (pollfds s)[nat (index (pchan s c)) :=
         \<lparr>pfd_fd = (if e = 0 then - fd (pchan s c) - 1 else fd (pchan s c)), pfd_events = e, pfd_revents = 0\<rparr>],
       pchan := (pchan s)(c := (pchan s c)\<lparr>events := e\<rparr>)\<rparr>"

lemma pp_change_inv:
  assumes inv: "pp_inv s" and c: "pchannels s (fd (pchan s c)) = Some c"
  shows "pp_inv (pp_change c e s)"
proof (rule pp_invI)
  let ?s = "pp_change c e s"
  from pp_invD(2) [OF inv c] obtain k where k: "k < length (pollfds s)" "index (pchan s c) = int k"
    "entry_of (pchan s c) (pollfds s ! k)" by blast
  fix g d
  assume "pchannels ?s g = Some d"
  then have d: "pchannels s g = Some d" by (simp add: pp_change_def)
  show "fd (pchan ?s d) = g \<and> 0 \<le> g"
    using pp_invD(1) [OF inv d] by (auto simp: pp_change_def)
  from pp_invD(2) [OF inv d] obtain i where i: "i < length (pollfds s)" "index (pchan s d) = int i"
    "entry_of (pchan s d) (pollfds s ! i)" by blast
  have "d = c \<longleftrightarrow> i = k" using pp_index_unique [OF inv c k(2) d] i(2) k(2) by auto
  then show "\<exists>i < length (pollfds ?s). index (pchan ?s d) = int i \<and> entry_of (pchan ?s d) (pollfds ?s ! i)"
    using i k by (intro exI [of _ i]) (auto simp: pp_change_def entry_of_def)
next
  let ?s = "pp_change c e s"
  from pp_invD(2) [OF inv c] obtain k where k: "k < length (pollfds s)" "index (pchan s c) = int k"
    "entry_of (pchan s c) (pollfds s ! k)" by blast
  have fc: "0 \<le> fd (pchan s c)" using pp_invD(1) [OF inv c] by simp
  fix i
  assume "i < length (pollfds ?s)"
  then have i: "i < length (pollfds s)" by (simp add: pp_change_def)
  from pp_invD(3) [OF inv i] obtain d where d: "pchannels s (entry_fd (pollfds s ! i)) = Some d"
      "index (pchan s d) = int i" by blast
  have "entry_fd (pollfds ?s ! i) = entry_fd (pollfds s ! i)"
    using entry_of_fd [OF k(3) fc] k fc i by (cases "i = k") (auto simp: pp_change_def entry_fd_def)
  then show "\<exists>d. pchannels ?s (entry_fd (pollfds ?s ! i)) = Some d \<and> index (pchan ?s d) = int i"
    using d by (intro exI [of _ d]) (auto simp: pp_change_def)
next
  fix d
  assume "pchannels (pp_change c e s) (fd (pchan (pp_change c e s) d)) \<noteq> Some d"
  then show "events (pchan (pp_change c e s) d) = 0"
    using pp_invD(4) [OF inv, of d] c by (auto simp: pp_change_def split: if_splits)
qed

lemma pp_set_op:
  assumes inv: "pp_inv s" and set: "\<forall>c. p \<noteq> RemoveChannel c" and legal: "spec_legal False (pp_abs s) p"
  defines "c \<equiv> op_chan p" and "e \<equiv> new_events p (events (pchan s (op_chan p)))"
  shows "\<exists>s'. pp_channel_op p s = Some s' \<and> pp_inv s' \<and> pp_abs s' = spec_op False p (pp_abs s)"
proof -
  have L: "0 \<le> fd (pchan s c)" "case pchannels s (fd (pchan s c)) of
      None \<Rightarrow> index (pchan s c) < 0 \<and> new_events p (spec_mask (pp_abs s) c) \<noteq> 0
    | Some c' \<Rightarrow> c' = c \<and> events (pchan s c) \<noteq> 0"
    using legal set by (auto simp: spec_legal_set pp_abs_def c_def Let_def split: option.splits)
  then have "pchannels s (fd (pchan s c)) \<in> {None, Some c}" by (auto split: option.splits)
  then have mask: "spec_mask (pp_abs s) c = events (pchan s c)" by (rule pp_spec_mask [OF inv])
  have op: "pp_channel_op p s = pp_updateChannel c (s\<lparr>pchan := (pchan s)(c := (pchan s c)\<lparr>events := e\<rparr>)\<rparr>)"
    using set by (cases p) (simp_all add: pp_channel_op_def c_def e_def Let_def)
  have spec: "spec_op False p (pp_abs s) = (pp_abs s)
      \<lparr>spRegistered := (spRegistered (pp_abs s))(fd (pchan s c) \<mapsto> (c, e)), spFresh := (spFresh (pp_abs s))(c := False)\<rparr>"
    unfolding spec_op_set [OF set] using mask by (simp add: c_def e_def pp_abs_def)
  show ?thesis
  proof (cases "pchannels s (fd (pchan s c))")
    case None
    then have n: "index (pchan s c) < 0" "e \<noteq> 0" using L(2) mask by (simp_all add: e_def c_def)
    have "pp_channel_op p s = Some (pp_add c e s)"
      using None n(1) by (simp add: op pp_updateChannel_def pp_set_index_def pp_add_def Let_def)
    moreover have own: "pchannels s g = Some c \<Longrightarrow> False" for g
      using None pp_invD(1) [OF inv, of g c] by auto
    have "pp_abs (pp_add c e s) = spec_op False p (pp_abs s)"
      unfolding spec by (simp add: pp_abs_def pp_add_def fun_eq_iff)
        (auto simp: map_option_case split: option.splits dest: own)
    ultimately show ?thesis using pp_add_inv [OF inv None L(1) n(2)] by blast
  next
    case (Some c')
    with L(2) have c: "pchannels s (fd (pchan s c)) = Some c" "events (pchan s c) \<noteq> 0" by simp_all
    from pp_invD(2) [OF inv c(1)] obtain i where i: "i < length (pollfds s)" "index (pchan s c) = int i"
      "entry_of (pchan s c) (pollfds s ! i)" by blast
    then have "pfd_fd (pollfds s ! i) = fd (pchan s c)" using c(2) by (simp add: entry_of_def)
    then have "pp_channel_op p s = Some (pp_change c e s)"
      using c i(1,2) by (simp add: op pp_updateChannel_def pp_change_def isNoneEvent_def kNoneEvent_def Let_def)
    moreover have own: "pchannels s g = Some c \<Longrightarrow> g = fd (pchan s c)" for g
      using pp_invD(1) [OF inv, of g c] by auto
    have "pp_abs (pp_change c e s) = spec_op False p (pp_abs s)"
      unfolding spec using c(1) i(2) by (simp add: pp_abs_def pp_change_def fun_eq_iff)
        (auto simp: map_option_case split: option.splits dest: own)
    ultimately show ?thesis using pp_change_inv [OF inv c(1)] by blast
  qed
qed

text \<open>Removal: the hole is filled with the last entry, whose channel gets the new index.\<close>

definition pp_del :: "chan_id \<Rightarrow> chan_id \<Rightarrow> nat \<Rightarrow> poll_state \<Rightarrow> poll_state" where
  "pp_del c d i s =
     s\<lparr>pollfds := butlast ((pollfds s)[i := last (pollfds s)]),
       pchannels := (pchannels s)(fd (pchan s c) := None),
       pchan := (if d = c then pchan s else (pchan s)(d := (pchan s d)\<lparr>index := int i\<rparr>))\<rparr>"

lemma pp_del_nth:
  "k < length (pollfds (pp_del c d i s)) \<Longrightarrow> i < length (pollfds s) \<Longrightarrow>
   pollfds (pp_del c d i s) ! k =
     (if k = i then pollfds s ! (length (pollfds s) - 1) else pollfds s ! k)"
  by (cases "pollfds s = []") (auto simp: pp_del_def nth_butlast last_conv_nth nth_list_update)

lemma pp_del_inv:
  assumes inv: "pp_inv s" and c: "pchannels s (fd (pchan s c)) = Some c" "index (pchan s c) = int i"
    and none: "events (pchan s c) = 0" and i: "i < length (pollfds s)"
    and d: "pchannels s (fd (pchan s d)) = Some d" "index (pchan s d) = int (length (pollfds s) - 1)"
  shows "pp_inv (pp_del c d i s)"
proof (rule pp_invI)
  let ?s = "pp_del c d i s" and ?n = "length (pollfds s) - 1"
  have len: "length (pollfds ?s) = ?n" by (simp add: pp_del_def)
  have dc: "d = c \<longleftrightarrow> i = ?n" using pp_index_unique [OF inv c d(1)] c(2) d(2) by auto
  fix g e
  assume "pchannels ?s g = Some e"
  then have e: "pchannels s g = Some e" "e \<noteq> c" "fd (pchan s e) = g" "0 \<le> g"
    using pp_invD(1) [OF inv, of g e] by (auto simp: pp_del_def split: if_splits)
  show "fd (pchan ?s e) = g \<and> 0 \<le> g" using e by (auto simp: pp_del_def)
  from pp_invD(2) [OF inv e(1)] obtain k where k: "k < length (pollfds s)" "index (pchan s e) = int k"
    "entry_of (pchan s e) (pollfds s ! k)" by blast
  have ki: "k \<noteq> i" using pp_index_unique [OF inv c e(1)] k(2) e(2) by auto
  have ed: "e = d \<longleftrightarrow> k = ?n" using pp_index_unique [OF inv d(1,2) e(1)] k(2) d(2) by auto
  show "\<exists>j < length (pollfds ?s). index (pchan ?s e) = int j \<and> entry_of (pchan ?s e) (pollfds ?s ! j)"
  proof (cases "e = d")
    case True
    then have "i < ?n" using ed ki i by linarith
    with True e(2) k ed i show ?thesis
      by (intro exI [of _ i]) (simp add: len pp_del_nth entry_of_def, simp add: pp_del_def)
  next
    case False
    then have "k < ?n" using ed k(1) by linarith
    with False k ki i show ?thesis
      by (intro exI [of _ k]) (simp add: len pp_del_nth, simp add: pp_del_def)
  qed
next
  let ?s = "pp_del c d i s" and ?n = "length (pollfds s) - 1"
  have dc: "d = c \<longleftrightarrow> i = ?n" using pp_index_unique [OF inv c d(1)] c(2) d(2) by auto
  fix k
  assume "k < length (pollfds ?s)"
  then have k: "k < ?n" and kl: "k < length (pollfds ?s)" by (simp_all add: pp_del_def)
  show "\<exists>e. pchannels ?s (entry_fd (pollfds ?s ! k)) = Some e \<and> index (pchan ?s e) = int k"
  proof (cases "k = i")
    case True
    then have ndc: "d \<noteq> c" using dc k by simp
    have "?n < length (pollfds s)" using i by simp
    from pp_entry [OF inv this] obtain e where e: "pchannels s (fd (pchan s e)) = Some e"
      "index (pchan s e) = int ?n" "entry_of (pchan s e) (pollfds s ! ?n)" "0 \<le> fd (pchan s e)" by blast
    then have "e = d" using pp_index_unique [OF inv d e(1,2)] by simp
    moreover have "fd (pchan s d) \<noteq> fd (pchan s c)" using c(1) d(1) ndc by auto
    ultimately show ?thesis using True e entry_of_fd [OF e(3,4)] ndc i kl
      by (intro exI [of _ d]) (simp add: pp_del_nth, simp add: pp_del_def)
  next
    case False
    have kn: "k < length (pollfds s)" using k by simp
    from pp_entry [OF inv kn] obtain e where e: "pchannels s (fd (pchan s e)) = Some e"
      "index (pchan s e) = int k" "entry_of (pchan s e) (pollfds s ! k)" "0 \<le> fd (pchan s e)" by blast
    have ne: "e \<noteq> c" using e(2) c(2) False by auto
    then have "fd (pchan s e) \<noteq> fd (pchan s c)" using c(1) e(1) by auto
    moreover have "e \<noteq> d" using e(2) d(2) k by auto
    ultimately show ?thesis using False e entry_of_fd [OF e(3,4)] i kl
      by (intro exI [of _ e]) (simp add: pp_del_nth, simp add: pp_del_def)
  qed
next
  fix e
  assume e: "pchannels (pp_del c d i s) (fd (pchan (pp_del c d i s) e)) \<noteq> Some e"
  show "events (pchan (pp_del c d i s) e) = 0"
  proof (cases "e = c")
    case False
    have "pchannels s (fd (pchan s e)) \<noteq> Some e"
    proof
      assume a: "pchannels s (fd (pchan s e)) = Some e"
      with e have "fd (pchan s e) = fd (pchan s c)" by (simp add: pp_del_def split: if_splits)
      with a c(1) False show False by simp
    qed
    then show ?thesis using pp_invD(4) [OF inv, of e] by (auto simp: pp_del_def)
  qed (use none in \<open>simp add: pp_del_def\<close>)
qed

lemma pp_remove_op:
  assumes inv: "pp_inv s" and c: "pchannels s (fd (pchan s c)) = Some c" and none: "events (pchan s c) = 0"
  shows "\<exists>s'. pp_channel_op (RemoveChannel c) s = Some s' \<and> pp_inv s' \<and>
    pp_abs s' = spec_op False (RemoveChannel c) (pp_abs s)"
proof -
  from pp_invD(1,2) [OF inv c] obtain i where i: "i < length (pollfds s)" "index (pchan s c) = int i"
    "entry_of (pchan s c) (pollfds s ! i)" and fc: "0 \<le> fd (pchan s c)" by blast
  let ?n = "length (pollfds s) - 1"
  have "?n < length (pollfds s)" using i(1) by simp
  from pp_entry [OF inv this] obtain d where d: "pchannels s (fd (pchan s d)) = Some d"
    "index (pchan s d) = int ?n" "entry_of (pchan s d) (pollfds s ! ?n)" "0 \<le> fd (pchan s d)" by blast
  have dc: "d = c \<longleftrightarrow> i = ?n" using pp_index_unique [OF inv c i(2) d(1)] i(2) d(2) by auto
  have last: "last (pollfds s) = pollfds s ! ?n" using i(1) by (intro last_conv_nth) auto
  have back_eq: "(if pfd_fd (last (pollfds s)) < 0 then - pfd_fd (last (pollfds s)) - 1
      else pfd_fd (last (pollfds s))) = fd (pchan s d)"
    using entry_of_fd [OF d(3,4)] unfolding last entry_fd_def .
  have pfd: "pfd_fd (pollfds s ! i) = - fd (pchan s c) - 1" "pfd_events (pollfds s ! i) = 0"
    using i(3) none by (simp_all add: entry_of_def)
  have "pp_channel_op (RemoveChannel c) s = Some (pp_del c d i s)"
  proof (cases "i = ?n")
    case True
    obtain n where n: "length (pollfds s) = Suc n" using i(1) by (cases "length (pollfds s)") auto
    with True have "i = n" by simp
    have "butlast ((pollfds s)[i := last (pollfds s)]) = butlast (pollfds s)"
      using True by (simp add: butlast_list_update)
    with \<open>i = n\<close> n c none i pfd dc show ?thesis
      by (simp add: pp_channel_op_def pp_removeChannel_def isNoneEvent_def kNoneEvent_def pp_del_def Let_def)
  next
    case False
    then have "fd (pchan s d) \<noteq> fd (pchan s c)" using dc c d(1) by auto
    with False c none i pfd dc d(1) show ?thesis
      by (simp add: pp_channel_op_def pp_removeChannel_def isNoneEvent_def kNoneEvent_def pp_del_def
          pp_set_index_def back_eq Let_def)
  qed
  moreover have own: "pchannels s g = Some c \<Longrightarrow> g = fd (pchan s c)" for g
    using pp_invD(1) [OF inv, of g c] by auto
  have "0 \<le> index (pchan s d)" using d(2) by simp
  then have "pp_abs (pp_del c d i s) = spec_op False (RemoveChannel c) (pp_abs s)"
    by (simp add: pp_abs_def pp_del_def fun_eq_iff) (auto simp: map_option_case split: option.splits dest: own)
  ultimately show ?thesis using pp_del_inv [OF inv c i(2) none i(1) d(1,2)] by blast
qed

section \<open>The interface\<close>

interpretation poll_poller: poller False pp_inv pp_abs pp_watched pp_channel_op
proof
  fix s p
  assume inv: "pp_inv s" and legal: "spec_legal False (pp_abs s) p"
  show "\<exists>s'. pp_channel_op p s = Some s' \<and> pp_inv s' \<and> pp_abs s' = spec_op False p (pp_abs s)"
  proof (cases "\<exists>c. p = RemoveChannel c")
    case True
    then obtain c where c: "p = RemoveChannel c" by blast
    with legal have "pchannels s (fd (pchan s c)) = Some c" "events (pchan s c) = 0"
      by (auto simp: pp_abs_def)
    from pp_remove_op [OF inv this] c show ?thesis by simp
  next
    case False
    then show ?thesis using pp_set_op [OF inv _ legal] by blast
  qed
qed (rule pp_watched_eq)

section \<open>Properties\<close>

text \<open>\<open>PollPoller\<close> keeps its array, its map and the channels' indices consistent. Any sequence of channel
  calls that is legal without recycling (a disabled channel is not enabled again, a removed one is not
  registered again) runs without a failed assertion, also when removal swaps entries, and at the end \<open>poll\<close>
  watches exactly the descriptors with a non-empty interest set, for exactly these events.\<close>

theorem poll_interest_exact:
  assumes "spec_run False ops (pp_abs (PollPoller_new fds)) = Some sp"
  shows "\<exists>s. ops_run pp_channel_op ops (PollPoller_new fds) = Some s \<and>
    (\<forall>f. pp_watched s f =
      (case spRegistered sp f of Some (c, m) \<Rightarrow> (if m = 0 then None else Some m) | None \<Rightarrow> None))"
  using poll_poller.run_watches [OF pp_inv_new assms] .

theorem poll_interest_exact_witness:
  "\<exists>s. ops_run pp_channel_op
       [EnableReading 0, EnableWriting 1, EnableReading 2, DisableAll 0, RemoveChannel 0, EnableReading 1,
        DisableWriting 1] (PollPoller_new (\<lambda>c. int c + 3)) = Some s \<and>
     pp_watched s 3 = None \<and> pp_watched s 4 = Some kReadEvent \<and> pp_watched s 5 = Some kReadEvent"
proof -
  have "\<exists>sp. spec_run False [EnableReading 0, EnableWriting 1, EnableReading 2, DisableAll 0, RemoveChannel 0,
        EnableReading 1, DisableWriting 1] (pp_abs (PollPoller_new (\<lambda>c. int c + 3))) = Some sp \<and>
      spRegistered sp 3 = None \<and> spRegistered sp 4 = Some (1, kReadEvent) \<and> spRegistered sp 5 = Some (2, kReadEvent)"
    by (simp add: pp_abs_def PollPoller_new_def Channel_new_def spec_mask_def event_consts Let_def)
  then obtain sp where sp: "spec_run False [EnableReading 0, EnableWriting 1, EnableReading 2, DisableAll 0,
        RemoveChannel 0, EnableReading 1, DisableWriting 1] (pp_abs (PollPoller_new (\<lambda>c. int c + 3))) = Some sp"
      "spRegistered sp 3 = None" "spRegistered sp 4 = Some (1, kReadEvent)"
      "spRegistered sp 5 = Some (2, kReadEvent)" by blast
  from poll_interest_exact [OF sp(1)] sp(2-4) show ?thesis by (auto simp: event_consts)
qed

text \<open>\<open>PollPoller\<close> loses a channel that is disabled and enabled again. \<open>updateChannel\<close> negates the
  entry's descriptor when the interest set becomes empty and never restores it: the channel
  counts as registered for reading, but \<open>poll(2)\<close> ignores its entry.\<close>

theorem poll_reenabled_channel_ignored:
  assumes "pp_inv s" and "pchannels s (fd (pchan s c)) = Some c" and "events (pchan s c) \<noteq> 0"
  shows "\<exists>s1 s2. pp_channel_op (DisableAll c) s = Some s1 \<and> pp_channel_op (EnableReading c) s1 = Some s2 \<and>
    events (pchan s2 c) = kReadEvent \<and> pchannels s2 (fd (pchan s c)) = Some c \<and>
    pp_watched s2 (fd (pchan s c)) = None"
proof -
  from pp_invD(1,2) [OF assms(1,2)] obtain i where i: "i < length (pollfds s)"
    "index (pchan s c) = int i" "entry_of (pchan s c) (pollfds s ! i)" and f: "0 \<le> fd (pchan s c)" by blast
  from poll_poller.op_law [OF assms(1), of "DisableAll c"] assms(2,3) f obtain s1 where s1:
    "pp_channel_op (DisableAll c) s = Some s1" "pp_inv s1" by (auto simp: pp_abs_def Let_def)
  have s1_eq: "s1 = pp_change c 0 s"
    using s1(1) assms(2,3) i f
    by (auto simp: pp_channel_op_def pp_updateChannel_def pp_change_def isNoneEvent_def kNoneEvent_def
        entry_of_def Let_def)
  define s2 where "s2 = s1\<lparr>pollfds := (pollfds s)[i := \<lparr>pfd_fd = - fd (pchan s c) - 1,
       pfd_events = kReadEvent, pfd_revents = 0\<rparr>],
     pchan := (pchan s1)(c := (pchan s1 c)\<lparr>events := kReadEvent\<rparr>)\<rparr>"
  have nz: "kReadEvent \<noteq> 0" by (simp add: event_consts)
  have op2: "pp_channel_op (EnableReading c) s1 = Some s2"
    using assms(2) i f nz
    by (simp add: s1_eq s2_def pp_channel_op_def pp_updateChannel_def pp_change_def isNoneEvent_def
        kNoneEvent_def Let_def)
  have "pfd_fd (pollfds s2 ! k) \<noteq> fd (pchan s c)" if k: "k < length (pollfds s2)" for k
  proof (cases "k = i")
    case True
    then show ?thesis using f i(1) by (simp add: s2_def)
  next
    case False
    with k have k': "k < length (pollfds s)" "pollfds s2 ! k = pollfds s ! k" by (simp_all add: s2_def)
    from pp_entry [OF assms(1) k'(1)] obtain d where d: "pchannels s (fd (pchan s d)) = Some d"
      "index (pchan s d) = int k" "entry_of (pchan s d) (pollfds s ! k)" "0 \<le> fd (pchan s d)" by blast
    have "d \<noteq> c" using d(2) i(2) False by auto
    then have "fd (pchan s d) \<noteq> fd (pchan s c)" using d(1) assms(2) by auto
    with d(3,4) f k'(2) show ?thesis by (auto simp: entry_of_def split: if_splits)
  qed
  then have "find (\<lambda>p. pfd_fd p = fd (pchan s c)) (pollfds s2) = None"
    by (auto simp: find_None_iff in_set_conv_nth)
  then have "pp_watched s2 (fd (pchan s c)) = None" by (simp add: pp_watched_def)
  with s1(1) op2 assms(2) show ?thesis
    by (intro exI [of _ s1] exI [of _ s2]) (simp add: s1_eq s2_def pp_change_def)
qed

theorem poll_reenabled_channel_ignored_witness:
  "\<exists>s1 s2. pp_channel_op (DisableAll 0) (pp_add 0 kReadEvent (PollPoller_new (\<lambda>c. 5))) = Some s1 \<and>
     pp_channel_op (EnableReading 0) s1 = Some s2 \<and> events (pchan s2 0) = kReadEvent \<and> pp_watched s2 5 = None"
proof -
  have inv: "pp_inv (pp_add 0 kReadEvent (PollPoller_new (\<lambda>c. 5)))"
    by (rule pp_add_inv [OF pp_inv_new]) (simp_all add: PollPoller_new_def Channel_new_def event_consts)
  show ?thesis using poll_reenabled_channel_ignored [OF inv, of 0]
    by (auto simp: pp_add_def PollPoller_new_def Channel_new_def event_consts)
qed

end
