(* ===== verification/Muduo_TcpConnection.thy ===== *)
theory Muduo_TcpConnection
  imports Muduo_Buffer Muduo_Poller
begin

text \<open>
  \<open>muduo::net::TcpConnection\<close> (\<open>muduo/net/TcpConnection.h\<close>, \<open>TcpConnection.cc\<close>): the state machine
  of one connection, its two buffers and its channel. System calls are arguments: the result of
  \<open>write(2)\<close> is an error number or the number of bytes the kernel took, the result of \<open>readv(2)\<close>
  is as in \<open>readFd\<close>. The callbacks of the user are recorded in \<open>calls\<close>; what the user then does
  (\<open>send\<close>, \<open>shutdown\<close>, \<open>retrieve\<close> from the input buffer) are further steps. The functors that
  \<open>queueInLoop\<close> and, from another thread, \<open>runInLoop\<close> leave with the loop are \<open>functors\<close>.
  \<open>chanOps\<close> lists the calls made on the channel; the kernel side of the socket is \<open>sent\<close> and
  \<open>finSent\<close>. \<open>submitted\<close>, \<open>dropped\<close>, \<open>received\<close> and \<open>consumed\<close> are history for the statements only.
\<close>

section \<open>State\<close>

datatype StateE = kDisconnected | kConnecting | kConnected | kDisconnecting

datatype conn_functor =
  SendInLoop "byte list" | ShutdownInLoop | WriteComplete | HighWaterMark nat

datatype conn_call = ConnectionCallback bool | MessageCallback Timestamp | CloseCallback
  | WriteCompleteCallback | HighWaterMarkCallback nat

record tcp_connection =
  state :: StateE
  connChannel :: channel
  chanOps :: "chan_op list"
  highWaterMark :: nat
  hasWriteComplete :: bool
  hasHighWater :: bool
  inputBuffer :: buffer
  outputBuffer :: buffer
  functors :: "conn_functor list"
  calls :: "conn_call list"
  sent :: "byte list"
  finSent :: bool
  submitted :: "byte list"
  dropped :: bool
  received :: "byte list"
  consumed :: "byte list"

definition EPIPE :: int where "EPIPE = 32"
definition EWOULDBLOCK :: int where "EWOULDBLOCK = 11"

text \<open>The channel of the connection has identity \<open>0\<close> in \<open>chanOps\<close>.\<close>

definition TcpConnection_new :: "int \<Rightarrow> tcp_connection" where
  "TcpConnection_new sockfd =
     \<lparr>state = kConnecting,
      connChannel = (Channel_new sockfd)\<lparr>hasReadCallback := True, hasWriteCallback := True,
        hasCloseCallback := True, hasErrorCallback := True\<rparr>,
      chanOps = [], highWaterMark = 64 * 1024 * 1024, hasWriteComplete = False, hasHighWater = False,
      inputBuffer = Buffer_new, outputBuffer = Buffer_new, functors = [], calls = [],
      sent = [], finSent = False, submitted = [], dropped = False, received = [], consumed = []\<rparr>"

definition connected :: "tcp_connection \<Rightarrow> bool" where
  "connected s \<longleftrightarrow> state s = kConnected"

definition setState :: "StateE \<Rightarrow> tcp_connection \<Rightarrow> tcp_connection" where
  "setState st s = s\<lparr>state := st\<rparr>"

definition setHighWaterMarkCallback :: "nat \<Rightarrow> tcp_connection \<Rightarrow> tcp_connection" where
  "setHighWaterMarkCallback mark s = s\<lparr>hasHighWater := True, highWaterMark := mark\<rparr>"

definition setWriteCompleteCallback :: "tcp_connection \<Rightarrow> tcp_connection" where
  "setWriteCompleteCallback s = s\<lparr>hasWriteComplete := True\<rparr>"

text \<open>A call on the channel that ends in \<open>update()\<close>, and \<open>remove()\<close>.\<close>

definition channel_set :: "chan_op \<Rightarrow> tcp_connection \<Rightarrow> tcp_connection" where
  "channel_set p s = s\<lparr>connChannel := (connChannel s)\<lparr>events := new_events p (events (connChannel s))\<rparr>,
     chanOps := chanOps s @ [p]\<rparr>"

definition channel_remove :: "tcp_connection \<Rightarrow> tcp_connection option" where
  "channel_remove s =
     (if isNoneEvent (connChannel s) then Some (s\<lparr>chanOps := chanOps s @ [RemoveChannel 0]\<rparr>) else None)"

definition conn_queueInLoop :: "conn_functor \<Rightarrow> tcp_connection \<Rightarrow> tcp_connection" where
  "conn_queueInLoop f s = s\<lparr>functors := functors s @ [f]\<rparr>"

definition user_call :: "conn_call \<Rightarrow> tcp_connection \<Rightarrow> tcp_connection" where
  "user_call c s = s\<lparr>calls := calls s @ [c]\<rparr>"

section \<open>Operations\<close>

text \<open>\<open>sendInLoop\<close> in two halves: the direct write when nothing waits in the output buffer (bytes written,
  whether the connection is broken), and storing what is left.\<close>

definition send_direct :: "byte list \<Rightarrow> int + nat \<Rightarrow> tcp_connection \<Rightarrow> nat \<times> bool \<times> tcp_connection" where
  "send_direct data w s =
     (if \<not> isWriting (connChannel s) \<and> readableBytes (outputBuffer s) = 0
      then (case w of
              Inr n \<Rightarrow>
                (n, False,
                 (if size_sub (length data) n = 0 \<and> hasWriteComplete s
                  then conn_queueInLoop WriteComplete s else s)\<lparr>sent := sent s @ take n data\<rparr>)
            | Inl errno \<Rightarrow> (0, errno \<noteq> EWOULDBLOCK \<and> errno = EPIPE, s))
      else (0, False, s))"

definition send_rest :: "byte list \<Rightarrow> nat \<Rightarrow> tcp_connection \<Rightarrow> tcp_connection option" where
  "send_rest data remaining s =
     (let oldLen = readableBytes (outputBuffer s);
          s1 = (if size_add oldLen remaining \<ge> highWaterMark s \<and> oldLen < highWaterMark s \<and> hasHighWater s
                then conn_queueInLoop (HighWaterMark (size_add oldLen remaining)) s else s)
      in do { out \<leftarrow> append_data (outputBuffer s1) data remaining;
              let s2 = s1\<lparr>outputBuffer := out\<rparr>;
              Some (if \<not> isWriting (connChannel s2) then channel_set (EnableWriting 0) s2 else s2) })"

definition sendInLoop :: "byte list \<Rightarrow> int + nat \<Rightarrow> tcp_connection \<Rightarrow> tcp_connection option" where
  "sendInLoop data w s =
     (if state s = kDisconnected then Some s
      else
        let len = length data;
            (nwrote, error, s1) = send_direct data w s;
            remaining = size_sub len nwrote;
            s2 = s1\<lparr>submitted := submitted s @ data, dropped := dropped s \<or> error \<and> len > 0\<rparr>
        in if remaining \<le> len
           then if \<not> error \<and> remaining > 0
                then send_rest (drop nwrote data) remaining s2
                else Some s2
           else None)"

definition conn_send :: "bool \<Rightarrow> byte list \<Rightarrow> int + nat \<Rightarrow> tcp_connection \<Rightarrow> tcp_connection option" where
  "conn_send inLoopThread data w s =
     (if state s = kConnected
      then if inLoopThread then sendInLoop data w s
           else Some (conn_queueInLoop (SendInLoop data) s)
      else Some s)"

text \<open>\<open>send(Buffer*)\<close> also empties the user's buffer, when the connection is up.\<close>

definition conn_send_buffer :: "bool \<Rightarrow> buffer \<Rightarrow> int + nat \<Rightarrow> tcp_connection \<Rightarrow>
    (buffer \<times> tcp_connection) option" where
  "conn_send_buffer inLoopThread buf w s =
     (if state s = kConnected
      then if inLoopThread
           then do { s' \<leftarrow> sendInLoop (subrange (peek buf) (peek buf + readableBytes buf) (bufData buf)) w s;
                     Some (retrieveAll buf, s') }
           else do { (message, buf') \<leftarrow> retrieveAllAsString buf;
                     Some (buf', conn_queueInLoop (SendInLoop message) s) }
      else Some (buf, s))"

definition shutdownInLoop :: "tcp_connection \<Rightarrow> tcp_connection" where
  "shutdownInLoop s = (if \<not> isWriting (connChannel s) then s\<lparr>finSent := True\<rparr> else s)"

definition conn_shutdown :: "bool \<Rightarrow> tcp_connection \<Rightarrow> tcp_connection" where
  "conn_shutdown inLoopThread s =
     (if state s = kConnected
      then let s1 = setState kDisconnecting s in
           if inLoopThread then shutdownInLoop s1 else conn_queueInLoop ShutdownInLoop s1
      else s)"

definition connectEstablished :: "tcp_connection \<Rightarrow> tcp_connection option" where
  "connectEstablished s =
     (if state s = kConnecting
      then let s1 = setState kConnected s;
               s2 = s1\<lparr>connChannel := tie True (connChannel s1)\<rparr>
           in Some (user_call (ConnectionCallback True) (channel_set (EnableReading 0) s2))
      else None)"

definition connectDestroyed :: "tcp_connection \<Rightarrow> tcp_connection option" where
  "connectDestroyed s =
     channel_remove
       (if state s = kConnected
        then user_call (ConnectionCallback False)
               (channel_set (DisableAll 0) (setState kDisconnected s))
        else s)"

definition handleClose :: "tcp_connection \<Rightarrow> tcp_connection option" where
  "handleClose s =
     (if state s = kConnected \<or> state s = kDisconnecting
      then Some (user_call CloseCallback (user_call (ConnectionCallback False)
                  (channel_set (DisableAll 0) (setState kDisconnected s))))
      else None)"

definition handleRead :: "int + byte list \<Rightarrow> Timestamp \<Rightarrow> tcp_connection \<Rightarrow> tcp_connection option" where
  "handleRead rv receiveTime s =
     do { (n, savedErrno, buf) \<leftarrow> readFd (inputBuffer s) rv;
          let s1 = s\<lparr>inputBuffer := buf,
                     received := received s @ (case rv of Inr d \<Rightarrow> d | Inl e \<Rightarrow> [])\<rparr>;
          if n > 0 then Some (user_call (MessageCallback receiveTime) s1)
          else if n = 0 then handleClose s1
          else Some s1 }"

definition handleWrite :: "int + nat \<Rightarrow> tcp_connection \<Rightarrow> tcp_connection option" where
  "handleWrite w s =
     (if isWriting (connChannel s)
      then (case w of
              Inr n \<Rightarrow>
                if n > 0
                then do { out \<leftarrow> retrieve (outputBuffer s) n;
                          let s1 = s\<lparr>outputBuffer := out,
                               sent := sent s @ subrange (peek (outputBuffer s)) (peek (outputBuffer s) + n)
                                 (bufData (outputBuffer s))\<rparr>;
                          Some (if readableBytes out = 0
                                then let s2 = channel_set (DisableWriting 0) s1;
                                         s3 = (if hasWriteComplete s2 then conn_queueInLoop WriteComplete s2
                                               else s2)
                                     in if state s3 = kDisconnecting then shutdownInLoop s3 else s3
                                else s1) }
                else Some s
            | Inl errno \<Rightarrow> Some s)
      else Some s)"

fun run_functor :: "conn_functor \<Rightarrow> int + nat \<Rightarrow> tcp_connection \<Rightarrow> tcp_connection option" where
  "run_functor (SendInLoop data) w s = sendInLoop data w s"
| "run_functor ShutdownInLoop w s = Some (shutdownInLoop s)"
| "run_functor WriteComplete w s = Some (user_call WriteCompleteCallback s)"
| "run_functor (HighWaterMark n) w s = Some (user_call (HighWaterMarkCallback n) s)"

text \<open>What the message callback takes from the input buffer.\<close>

definition user_retrieve :: "nat \<Rightarrow> tcp_connection \<Rightarrow> tcp_connection option" where
  "user_retrieve n s =
     do { buf \<leftarrow> retrieve (inputBuffer s) n;
          Some (s\<lparr>inputBuffer := buf, consumed := consumed s @ take n (contents (inputBuffer s))\<rparr>) }"

section \<open>Steps\<close>

text \<open>The kernel takes at most what it is given; the buffers stay below the address space; events are
  dispatched for a channel with a non-empty interest set; \<open>connectDestroyed\<close> is the last call on an
  established connection, after \<open>handleClose\<close> or by the server's destructor.\<close>

definition write_ok :: "int + nat \<Rightarrow> nat \<Rightarrow> bool" where
  "write_ok w len = (case w of Inr n \<Rightarrow> n \<le> len | Inl e \<Rightarrow> True)"

definition memory_ok :: "byte list \<Rightarrow> byte list \<Rightarrow> bool" where
  "memory_ok history data \<longleftrightarrow> 1032 + length history + length data \<le> vector_max"

fun functor_ok :: "conn_functor \<Rightarrow> int + nat \<Rightarrow> tcp_connection \<Rightarrow> bool" where
  "functor_ok (SendInLoop data) w s \<longleftrightarrow> write_ok w (length data) \<and> memory_ok (submitted s) data"
| "functor_ok _ w s \<longleftrightarrow> True"

inductive conn_step :: "tcp_connection \<Rightarrow> tcp_connection \<Rightarrow> bool" where
  established: "connectEstablished s = Some s' \<Longrightarrow> conn_step s s'"
| send: "write_ok w (length data) \<Longrightarrow> memory_ok (submitted s) data \<Longrightarrow>
    conn_send inLoopThread data w s = Some s' \<Longrightarrow> conn_step s s'"
| shutdown: "conn_step s (conn_shutdown inLoopThread s)"
| queued: "functors s = f # fs \<Longrightarrow> functor_ok f w s \<Longrightarrow>
    run_functor f w (s\<lparr>functors := fs\<rparr>) = Some s' \<Longrightarrow> conn_step s s'"
| readable: "\<not> isNoneEvent (connChannel s) \<Longrightarrow> readv_ok (inputBuffer s) rv \<Longrightarrow>
    memory_ok (received s) (case rv of Inr d \<Rightarrow> d | Inl e \<Rightarrow> []) \<Longrightarrow>
    handleRead rv t s = Some s' \<Longrightarrow> conn_step s s'"
| writable: "write_ok w (length (contents (outputBuffer s))) \<Longrightarrow> handleWrite w s = Some s' \<Longrightarrow> conn_step s s'"
| hangup: "\<not> isNoneEvent (connChannel s) \<Longrightarrow> handleClose s = Some s' \<Longrightarrow> conn_step s s'"
| consume: "user_retrieve n s = Some s' \<Longrightarrow> conn_step s s'"
| callbacks: "conn_step s (setWriteCompleteCallback s)"
| high_water: "conn_step s (setHighWaterMarkCallback mark s)"
| destroyed: "state s = kConnected \<or> state s = kDisconnected \<Longrightarrow> RemoveChannel 0 \<notin> set (chanOps s) \<Longrightarrow>
    connectDestroyed s = Some s' \<Longrightarrow> conn_step s s'"

inductive_cases conn_stepE: "conn_step s s'"

section \<open>The invariant\<close>

definition up :: "tcp_connection \<Rightarrow> bool" where
  "up s \<longleftrightarrow> state s = kConnected \<or> state s = kDisconnecting"

definition removed :: "tcp_connection \<Rightarrow> bool" where
  "removed s \<longleftrightarrow> RemoveChannel 0 \<in> set (chanOps s)"

text \<open>The channel calls so far are legal for every \<open>Poller\<close>.\<close>

definition empty_poller :: "int \<Rightarrow> poller_spec" where
  "empty_poller f = \<lparr>spRegistered = (\<lambda>_. None), spFresh = (\<lambda>_. True), spFd = (\<lambda>_. f)\<rparr>"

definition chan_legal :: "bool \<Rightarrow> tcp_connection \<Rightarrow> bool" where
  "chan_legal recycles s \<longleftrightarrow>
     (\<exists>sp. spec_run recycles (chanOps s) (empty_poller (fd (connChannel s))) = Some sp \<and>
       spFd sp 0 = fd (connChannel s) \<and>
       spRegistered sp (fd (connChannel s)) =
         (if state s = kConnecting \<or> removed s then None else Some (0, events (connChannel s))))"

definition conn_inv :: "tcp_connection \<Rightarrow> bool" where
  "conn_inv s \<longleftrightarrow>
     buffer_inv (inputBuffer s) \<and> buffer_inv (outputBuffer s) \<and>
     buffer_size (inputBuffer s) \<le> 1032 + length (received s) \<and>
     buffer_size (outputBuffer s) \<le> 1032 + length (submitted s) \<and>
     consumed s @ contents (inputBuffer s) = received s \<and>
     (\<not> dropped s \<longrightarrow> sent s @ contents (outputBuffer s) = submitted s) \<and>
     (up s \<longrightarrow> events (connChannel s) =
       (if contents (outputBuffer s) = [] then kReadEvent else kReadEvent OR kWriteEvent)) \<and>
     (\<not> up s \<longrightarrow> events (connChannel s) = 0) \<and>
     (state s = kConnecting \<longrightarrow> functors s = [] \<and> contents (outputBuffer s) = [] \<and> chanOps s = []) \<and>
     (state s = kDisconnecting \<and> contents (outputBuffer s) = [] \<and> ShutdownInLoop \<notin> set (functors s) \<longrightarrow>
       finSent s) \<and>
     (removed s \<longrightarrow> state s = kDisconnected) \<and> 0 \<le> fd (connChannel s) \<and>
     chan_legal True s \<and> chan_legal False s"

lemma conn_invD:
  assumes "conn_inv s"
  shows conn_in: "buffer_inv (inputBuffer s)" "buffer_size (inputBuffer s) \<le> 1032 + length (received s)"
      "consumed s @ contents (inputBuffer s) = received s"
    and conn_out: "buffer_inv (outputBuffer s)" "buffer_size (outputBuffer s) \<le> 1032 + length (submitted s)"
    and conn_stream: "\<not> dropped s \<Longrightarrow> sent s @ contents (outputBuffer s) = submitted s"
    and conn_events: "up s \<Longrightarrow> events (connChannel s) =
       (if contents (outputBuffer s) = [] then kReadEvent else kReadEvent OR kWriteEvent)"
      "\<not> up s \<Longrightarrow> events (connChannel s) = 0"
    and conn_connecting: "state s = kConnecting \<Longrightarrow> functors s = [] \<and> contents (outputBuffer s) = [] \<and> chanOps s = []"
    and conn_fin: "state s = kDisconnecting \<Longrightarrow> contents (outputBuffer s) = [] \<Longrightarrow>
      ShutdownInLoop \<notin> set (functors s) \<Longrightarrow> finSent s"
    and conn_removed: "removed s \<Longrightarrow> state s = kDisconnected"
    and conn_fd: "0 \<le> fd (connChannel s)"
  using assms unfolding conn_inv_def by blast+

lemma conn_legal: "conn_inv s \<Longrightarrow> chan_legal r s"
  unfolding conn_inv_def by (cases r) simp_all

lemma conn_invI:
  assumes "buffer_inv (inputBuffer s)" "buffer_inv (outputBuffer s)"
    "buffer_size (inputBuffer s) \<le> 1032 + length (received s)"
    "buffer_size (outputBuffer s) \<le> 1032 + length (submitted s)"
    "consumed s @ contents (inputBuffer s) = received s"
    "\<not> dropped s \<Longrightarrow> sent s @ contents (outputBuffer s) = submitted s"
    "up s \<Longrightarrow> events (connChannel s) =
       (if contents (outputBuffer s) = [] then kReadEvent else kReadEvent OR kWriteEvent)"
    "\<not> up s \<Longrightarrow> events (connChannel s) = 0"
    "state s = kConnecting \<Longrightarrow> functors s = [] \<and> contents (outputBuffer s) = [] \<and> chanOps s = []"
    "state s = kDisconnecting \<Longrightarrow> contents (outputBuffer s) = [] \<Longrightarrow>
      ShutdownInLoop \<notin> set (functors s) \<Longrightarrow> finSent s"
    "removed s \<Longrightarrow> state s = kDisconnected" "0 \<le> fd (connChannel s)" "\<And>r. chan_legal r s"
  shows "conn_inv s"
  using assms unfolding conn_inv_def by blast

lemma conn_writing: "conn_inv s \<Longrightarrow> up s \<Longrightarrow> isWriting (connChannel s) \<longleftrightarrow> contents (outputBuffer s) \<noteq> []"
  using conn_events(1) [of s] by (auto simp: isWriting_def event_consts split: if_splits)

lemma not_writing_down: "conn_inv s \<Longrightarrow> \<not> up s \<Longrightarrow> \<not> isWriting (connChannel s)"
  using conn_events(2) [of s] by (simp add: isWriting_def)

lemma conn_readable: "conn_inv s \<Longrightarrow> readableBytes (outputBuffer s) = length (contents (outputBuffer s))"
  using conn_out(1) length_contents by metis

lemma chan_legal_cong:
  "chanOps s' = chanOps s \<Longrightarrow> fd (connChannel s') = fd (connChannel s) \<Longrightarrow>
   events (connChannel s') = events (connChannel s) \<Longrightarrow> (state s' = kConnecting) = (state s = kConnecting) \<Longrightarrow>
   chan_legal r s' = chan_legal r s"
  by (simp add: chan_legal_def removed_def)

lemma spec_run_append:
  "spec_run r (ps @ [p]) sp =
     (case spec_run r ps sp of
        None \<Rightarrow> None | Some sp' \<Rightarrow> if spec_legal r sp' p then Some (spec_op r p sp') else None)"
  by (induction ps arbitrary: sp) auto

text \<open>A further call on the registered channel: legal when the interest set was not empty.\<close>

lemma chan_legal_set:
  assumes "chan_legal r s" "state s \<noteq> kConnecting" "\<not> removed s" "events (connChannel s) \<noteq> 0"
    "0 \<le> fd (connChannel s)" "p \<in> {EnableReading 0, EnableWriting 0, DisableWriting 0, DisableAll 0}"
    "chanOps s' = chanOps s @ [p]" "fd (connChannel s') = fd (connChannel s)"
    "events (connChannel s') = new_events p (events (connChannel s))" "state s' \<noteq> kConnecting"
  shows "chan_legal r s'"
proof -
  from assms(1-3) obtain sp where sp: "spec_run r (chanOps s) (empty_poller (fd (connChannel s))) = Some sp"
    "spFd sp 0 = fd (connChannel s)"
    "spRegistered sp (fd (connChannel s)) = Some (0, events (connChannel s))"
    by (auto simp: chan_legal_def)
  have p: "\<forall>c. p \<noteq> RemoveChannel c" "op_chan p = 0" using assms(6) by auto
  have m: "spec_mask sp 0 = events (connChannel s)" using sp(2,3) by (simp add: spec_mask_def)
  have "spec_legal r sp p" using sp assms(4,5) p by (simp add: spec_legal_set Let_def)
  then have "spec_run r (chanOps s') (empty_poller (fd (connChannel s'))) = Some (spec_op r p sp)"
    using sp(1) assms(7,8) by (simp add: spec_run_append)
  moreover have "\<not> removed s'" using assms(3,7) p(1) by (auto simp: removed_def)
  ultimately show ?thesis
    using sp(2) m assms(8-10) p by (simp add: chan_legal_def spec_op_set)
qed

lemma TcpConnection_new_inv: "0 \<le> sockfd \<Longrightarrow> conn_inv (TcpConnection_new sockfd)"
  by (simp add: conn_inv_def TcpConnection_new_def up_def removed_def chan_legal_def empty_poller_def
      Channel_new_def)

text \<open>Steps that touch only the queue of functors, the log of calls or the two optional callbacks.\<close>

lemma conn_inv_bookkeeping:
  assumes inv: "conn_inv s" and "functors s' = functors s \<or> state s \<noteq> kConnecting \<and>
      (ShutdownInLoop \<notin> set (functors s') \<longrightarrow> ShutdownInLoop \<notin> set (functors s))"
    "state s' = state s" "connChannel s' = connChannel s" "chanOps s' = chanOps s"
    "inputBuffer s' = inputBuffer s" "outputBuffer s' = outputBuffer s" "sent s' = sent s"
    "finSent s' = finSent s" "submitted s' = submitted s" "dropped s' = dropped s"
    "received s' = received s" "consumed s' = consumed s"
  shows "conn_inv s'"
proof -
  have eqs: "up s' = up s" "removed s' = removed s" using assms(3,5) by (simp_all add: up_def removed_def)
  have legal: "chan_legal r s' = chan_legal r s" for r
    using assms(3-5) by (intro chan_legal_cong) simp_all
  from assms(2) show ?thesis
  proof
    assume f: "functors s' = functors s"
    show ?thesis using inv unfolding conn_inv_def assms(3-) eqs legal f by blast
  next
    assume "state s \<noteq> kConnecting \<and> (ShutdownInLoop \<notin> set (functors s') \<longrightarrow> ShutdownInLoop \<notin> set (functors s))"
    then show ?thesis using inv unfolding conn_inv_def assms(3-) eqs legal by blast
  qed
qed

section \<open>The operations keep the invariant\<close>

text \<open>Bytes that the kernel did not take go to the output buffer, and writing becomes of interest.\<close>

lemma buffer_rest:
  assumes inv: "conn_inv s" and u: "up s" and rest: "rest \<noteq> []"
    and mem: "1032 + length (submitted s) + length data \<le> vector_max" "length rest \<le> length data"
    and out: "append_data (outputBuffer s) rest (length rest) = Some out"
    and s1: "functors s1 = functors s @ fs" "ShutdownInLoop \<notin> set fs" "state s1 = state s"
      "connChannel s1 = connChannel s" "chanOps s1 = chanOps s" "inputBuffer s1 = inputBuffer s"
      "outputBuffer s1 = out" "finSent s1 = finSent s" "submitted s1 = submitted s @ data"
      "dropped s1 = dropped s" "received s1 = received s" "consumed s1 = consumed s"
      "\<not> dropped s \<Longrightarrow> submitted s @ data = sent s1 @ contents (outputBuffer s) @ rest"
  shows "conn_inv (if \<not> isWriting (connChannel s1) then channel_set (EnableWriting 0) s1 else s1)"
proof -
  have "buffer_size (outputBuffer s) + length rest \<le> vector_max"
    using conn_out(2) [OF inv] mem by linarith
  from append_ok [OF conn_out(1) [OF inv] this] out have o: "buffer_inv out"
    "contents out = contents (outputBuffer s) @ rest"
    "buffer_size out \<le> buffer_size (outputBuffer s) + length rest" by auto
  let ?s = "if \<not> isWriting (connChannel s1) then channel_set (EnableWriting 0) s1 else s1"
  have w: "isWriting (connChannel s1) \<longleftrightarrow> contents (outputBuffer s) \<noteq> []"
    using conn_writing [OF inv u] s1(4) by simp
  have ev: "events (connChannel ?s) = kReadEvent OR kWriteEvent"
    using conn_events(1) [OF inv u] w s1(4) by (simp add: channel_set_def)
  have nk: "state s \<noteq> kConnecting" "\<not> removed s"
    using u conn_removed [OF inv] by (auto simp: up_def)
  have ne: "events (connChannel s) \<noteq> 0" using conn_events(1) [OF inv u] by (simp add: event_consts)
  show ?thesis
  proof (rule conn_invI)
    show "chan_legal r ?s" for r
    proof (cases "isWriting (connChannel s1)")
      case True
      then show ?thesis using conn_legal [OF inv, of r] s1(3-5) chan_legal_cong [of s1 s r] by simp
    next
      case False
      then show ?thesis
        using chan_legal_set [OF conn_legal [OF inv, of r] nk ne conn_fd [OF inv], of "EnableWriting 0" ?s] s1(3-5) nk
        by (simp add: channel_set_def)
    qed
    show "removed ?s \<Longrightarrow> state ?s = kDisconnected"
      using conn_removed [OF inv] s1(3,5) by (auto simp: removed_def channel_set_def split: if_splits)
    show "buffer_size (outputBuffer ?s) \<le> 1032 + length (submitted ?s)"
      using o(3) conn_out(2) [OF inv] mem(2) s1(7,9) by (simp add: channel_set_def)
  qed (use o s1 ev u rest nk conn_in [OF inv] conn_fd [OF inv] in
      \<open>auto simp: channel_set_def up_def split: if_splits\<close>)
qed

lemma sendInLoop_ok:
  assumes inv: "conn_inv s" and st: "state s \<noteq> kConnecting" and w: "write_ok w (length data)"
    and mem: "memory_ok (submitted s) data"
  shows "\<exists>s'. sendInLoop data w s = Some s' \<and> conn_inv s' \<and> state s' = state s \<and> finSent s' = finSent s"
proof (cases "state s = kDisconnected")
  case True
  then show ?thesis using inv by (simp add: sendInLoop_def)
next
  case False
  with st have u: "up s" by (cases "state s") (auto simp: up_def)
  have lim: "1032 + length (submitted s) + length data \<le> vector_max" using mem by (simp add: memory_ok_def)
  then have sub: "n \<le> length data \<Longrightarrow> size_sub (length data) n = length data - n" for n
    by (intro size_sub_exact) (simp_all add: vector_max_def)
  note rb = conn_readable [OF inv]
  define direct where "direct \<longleftrightarrow> \<not> isWriting (connChannel s) \<and> readableBytes (outputBuffer s) = 0"
  have d_empty: "direct \<longleftrightarrow> contents (outputBuffer s) = []"
    using conn_writing [OF inv u] rb by (auto simp: direct_def)
  define nwrote where "nwrote = (if direct then case w of Inr n \<Rightarrow> n | Inl e \<Rightarrow> 0 else 0)"
  define error where "error \<longleftrightarrow> (if direct then case w of Inr n \<Rightarrow> False | Inl e \<Rightarrow> e = EPIPE else False)"
  define s1 where "s1 = (if direct then case w of
      Inr n \<Rightarrow> (if size_sub (length data) n = 0 \<and> hasWriteComplete s
                then conn_queueInLoop WriteComplete s else s)\<lparr>sent := sent s @ take n data\<rparr>
    | Inl e \<Rightarrow> s else s)"
  have n: "nwrote \<le> length data" using w by (auto simp: nwrote_def write_ok_def split: sum.splits)
  obtain fs where s1: "functors s1 = functors s @ fs" "ShutdownInLoop \<notin> set fs" "state s1 = state s"
      "connChannel s1 = connChannel s" "chanOps s1 = chanOps s" "inputBuffer s1 = inputBuffer s"
      "outputBuffer s1 = outputBuffer s" "finSent s1 = finSent s" "submitted s1 = submitted s"
      "dropped s1 = dropped s" "received s1 = received s" "consumed s1 = consumed s"
      "sent s1 = sent s @ take nwrote data" "highWaterMark s1 = highWaterMark s" "hasHighWater s1 = hasHighWater s"
    by (rule that [of "if direct \<and> (case w of Inr n \<Rightarrow> size_sub (length data) n = 0 \<and> hasWriteComplete s
          | Inl e \<Rightarrow> False) then [WriteComplete] else []"])
      (auto simp: s1_def nwrote_def conn_queueInLoop_def split: sum.splits)
  define s2 where "s2 = s1\<lparr>submitted := submitted s @ data, dropped := dropped s \<or> error \<and> length data > 0\<rparr>"
  define rest where "rest = drop nwrote data"
  have triple: "send_direct data w s = (nwrote, error, s1)"
    by (auto simp: send_direct_def direct_def nwrote_def error_def s1_def EPIPE_def EWOULDBLOCK_def split: sum.splits)
  have rem: "size_sub (length data) nwrote = length rest" using sub [OF n] by (simp add: rest_def)
  have le: "length rest \<le> length data" by (simp add: rest_def)
  show ?thesis
  proof (cases "error \<or> rest = []")
    case True
    have eq: "sendInLoop data w s = Some s2"
      using True False le unfolding sendInLoop_def Let_def triple
      by (auto simp: rem s2_def)
    have str: "\<not> dropped s2 \<Longrightarrow> sent s2 @ contents (outputBuffer s2) = submitted s2"
    proof -
      assume nd: "\<not> dropped s2"
      then have "\<not> dropped s" and e: "error \<longrightarrow> data = []" by (auto simp: s2_def)
      from conn_stream [OF inv \<open>\<not> dropped s\<close>] True e
      show "sent s2 @ contents (outputBuffer s2) = submitted s2"
        using d_empty s1(7,13) n by (cases direct)
          (auto simp: s2_def rest_def nwrote_def error_def)
    qed
    have "up s2 = up s" "removed s2 = removed s" using s1(3,5) by (simp_all add: s2_def up_def removed_def)
    moreover have "chan_legal r s2" for r
      using conn_legal [OF inv, of r] s1(3-5) chan_legal_cong [of s2 s r] by (simp add: s2_def)
    ultimately have "conn_inv s2"
      using str inv s1 st u conn_out(2) [OF inv]
      by (intro conn_invI) (use conn_invD [OF inv] in \<open>auto simp: s2_def\<close>)
    then show ?thesis using eq s1(3,8) by (simp add: s2_def)
  next
    case False
    then have ne: "\<not> error" "rest \<noteq> []" by simp_all
    have d2: "dropped s2 = dropped s" using ne(1) by (simp add: s2_def)
    define s3 where "s3 = (if size_add (readableBytes (outputBuffer s2)) (length rest) \<ge> highWaterMark s2 \<and>
        readableBytes (outputBuffer s2) < highWaterMark s2 \<and> hasHighWater s2
      then conn_queueInLoop (HighWaterMark (size_add (readableBytes (outputBuffer s2)) (length rest))) s2 else s2)"
    have "buffer_size (outputBuffer s) + length rest \<le> vector_max"
      using conn_out(2) [OF inv] lim le by linarith
    from append_ok [OF conn_out(1) [OF inv] this] obtain out where
      out: "append_data (outputBuffer s) rest (length rest) = Some out" by blast
    have o3: "outputBuffer s3 = outputBuffer s" by (simp add: s3_def s2_def s1(7) conn_queueInLoop_def)
    define s4 where "s4 = s3\<lparr>outputBuffer := out\<rparr>"
    have "sendInLoop data w s = send_rest rest (length rest) s2"
      using ne le \<open>state s \<noteq> kDisconnected\<close> unfolding sendInLoop_def Let_def triple
      by (simp add: rem s2_def rest_def)
    also have "\<dots> = Some (if \<not> isWriting (connChannel s4) then channel_set (EnableWriting 0) s4 else s4)"
      unfolding send_rest_def Let_def s3_def [symmetric] o3 out s4_def by simp
    finally have eq: "sendInLoop data w s =
      Some (if \<not> isWriting (connChannel s4) then channel_set (EnableWriting 0) s4 else s4)" .
    obtain gs where gs: "functors s4 = functors s @ gs" "ShutdownInLoop \<notin> set gs"
      by (rule that [of "fs @ (if size_add (readableBytes (outputBuffer s2)) (length rest) \<ge> highWaterMark s2 \<and>
            readableBytes (outputBuffer s2) < highWaterMark s2 \<and> hasHighWater s2
          then [HighWaterMark (size_add (readableBytes (outputBuffer s2)) (length rest))] else [])"])
        (use s1(1,2) in \<open>auto simp: s4_def s3_def s2_def conn_queueInLoop_def\<close>)
    have f4: "state s4 = state s" "connChannel s4 = connChannel s" "chanOps s4 = chanOps s"
      "inputBuffer s4 = inputBuffer s" "outputBuffer s4 = out" "finSent s4 = finSent s"
      "submitted s4 = submitted s @ data" "dropped s4 = dropped s" "received s4 = received s"
      "consumed s4 = consumed s" "sent s4 = sent s @ take nwrote data"
      using s1 d2 by (simp_all add: s4_def s3_def s2_def conn_queueInLoop_def)
    have "submitted s @ data = sent s4 @ contents (outputBuffer s) @ rest" if "\<not> dropped s"
      using conn_stream [OF inv that] f4(11) d_empty by (cases direct) (simp_all add: rest_def nwrote_def)
    then have "conn_inv (if \<not> isWriting (connChannel s4) then channel_set (EnableWriting 0) s4 else s4)"
      using buffer_rest [OF inv u ne(2) lim le out gs f4(1-10)] by blast
    then show ?thesis using eq f4(1,6) by (auto simp: channel_set_def)
  qed
qed

lemma shutdownInLoop_ok:
  assumes inv: "conn_inv s" and st: "state s \<noteq> kConnecting"
  shows "conn_inv (shutdownInLoop s)" and "state (shutdownInLoop s) = state s"
proof -
  have "conn_inv (s\<lparr>finSent := True\<rparr>)"
    using inv chan_legal_cong [of "s\<lparr>finSent := True\<rparr>" s]
    by (simp add: conn_inv_def up_def removed_def)
  then show "conn_inv (shutdownInLoop s)" using inv by (simp add: shutdownInLoop_def)
  show "state (shutdownInLoop s) = state s" by (simp add: shutdownInLoop_def)
qed

text \<open>After the queue's \<open>ShutdownInLoop\<close> has run, or right after \<open>shutdown\<close> in the loop thread, the FIN is
  out unless output waits.\<close>

lemma shutdownInLoop_inv:
  assumes inv: "conn_inv s0" and u: "up s = up s0"
    and f: "connChannel s = connChannel s0" "chanOps s = chanOps s0" "inputBuffer s = inputBuffer s0"
      "outputBuffer s = outputBuffer s0" "submitted s = submitted s0" "dropped s = dropped s0"
      "received s = received s0" "consumed s = consumed s0" "sent s = sent s0"
    and st: "state s \<noteq> kConnecting" "state s0 \<noteq> kConnecting" "removed s \<Longrightarrow> state s = kDisconnected"
  shows "conn_inv (shutdownInLoop s)"
proof -
  note nd = st(3)
  have w: "up s \<Longrightarrow> isWriting (connChannel s) \<longleftrightarrow> contents (outputBuffer s) \<noteq> []"
    using conn_writing [OF inv] u f by simp
  have legal: "chan_legal r (shutdownInLoop s)" for r
    using conn_legal [OF inv, of r] f st chan_legal_cong [of "shutdownInLoop s" s0 r]
    by (simp add: shutdownInLoop_def)
  show ?thesis
  proof (rule conn_invI)
    let ?t = "shutdownInLoop s"
    have t: "connChannel ?t = connChannel s" "chanOps ?t = chanOps s" "inputBuffer ?t = inputBuffer s"
      "outputBuffer ?t = outputBuffer s" "submitted ?t = submitted s" "dropped ?t = dropped s"
      "received ?t = received s" "consumed ?t = consumed s" "sent ?t = sent s" "state ?t = state s"
      "functors ?t = functors s"
      by (simp_all add: shutdownInLoop_def)
    have ut: "up ?t = up s" "removed ?t = removed s" using t by (simp_all add: up_def removed_def)
    show "buffer_inv (inputBuffer ?t)" "buffer_inv (outputBuffer ?t)"
      "buffer_size (inputBuffer ?t) \<le> 1032 + length (received ?t)"
      "buffer_size (outputBuffer ?t) \<le> 1032 + length (submitted ?t)"
      unfolding t f using conn_in [OF inv] conn_out [OF inv] by blast+
    show "consumed ?t @ contents (inputBuffer ?t) = received ?t"
      unfolding t f by (rule conn_in(3) [OF inv])
    show "\<not> dropped ?t \<Longrightarrow> sent ?t @ contents (outputBuffer ?t) = submitted ?t"
      unfolding t f by (rule conn_stream [OF inv])
    show "up ?t \<Longrightarrow> events (connChannel ?t) =
        (if contents (outputBuffer ?t) = [] then kReadEvent else kReadEvent OR kWriteEvent)"
      unfolding t ut u f by (rule conn_events(1) [OF inv])
    show "\<not> up ?t \<Longrightarrow> events (connChannel ?t) = 0"
      unfolding t ut u f by (rule conn_events(2) [OF inv])
    show "state ?t = kConnecting \<Longrightarrow> functors ?t = [] \<and> contents (outputBuffer ?t) = [] \<and> chanOps ?t = []"
      unfolding t using st(1) by simp
    show "removed ?t \<Longrightarrow> state ?t = kDisconnected" unfolding t ut by (rule nd)
    show "0 \<le> fd (connChannel ?t)" unfolding t f by (rule conn_fd [OF inv])
    show "chan_legal r ?t" for r by (rule legal)
    assume "state ?t = kDisconnecting" "contents (outputBuffer ?t) = []"
    then have "up s" "contents (outputBuffer s) = []" unfolding t by (simp_all add: up_def)
    with w show "finSent ?t" by (simp add: shutdownInLoop_def)
  qed
qed

lemma conn_shutdown_ok:
  assumes inv: "conn_inv s"
  shows "conn_inv (conn_shutdown b s)"
proof (cases "state s = kConnected")
  case True
  then have nr: "\<not> removed s" using conn_removed [OF inv] by auto
  let ?d = "s\<lparr>state := kDisconnecting\<rparr>"
  show ?thesis
  proof (cases b)
    case loop: True
    have "conn_inv (shutdownInLoop ?d)"
      by (rule shutdownInLoop_inv [OF inv]) (use True nr in \<open>simp_all add: up_def removed_def\<close>)
    then show ?thesis using loop True by (simp add: conn_shutdown_def setState_def)
  next
    case False
    let ?q = "?d\<lparr>functors := functors s @ [ShutdownInLoop]\<rparr>"
    have "conn_inv ?q"
      using inv True chan_legal_cong [of ?q s True] chan_legal_cong [of ?q s False]
      by (simp add: conn_inv_def up_def removed_def)
    then show ?thesis using False True by (simp add: conn_shutdown_def setState_def conn_queueInLoop_def)
  qed
qed (use inv in \<open>simp add: conn_shutdown_def\<close>)

lemma run_functor_ok:
  assumes inv: "conn_inv s" and q: "functors s = f # fs" and ok: "functor_ok f w s"
  shows "\<exists>s'. run_functor f w (s\<lparr>functors := fs\<rparr>) = Some s' \<and> conn_inv s'"
proof -
  have st: "state s \<noteq> kConnecting" using conn_connecting [OF inv] q by auto
  let ?s = "s\<lparr>functors := fs\<rparr>"
  show ?thesis
  proof (cases f)
    case (SendInLoop data)
    have "conn_inv ?s" by (rule conn_inv_bookkeeping [OF inv]) (use st q SendInLoop in auto)
    from sendInLoop_ok [OF this, of w data] st ok SendInLoop show ?thesis by auto
  next
    case ShutdownInLoop
    have "conn_inv (shutdownInLoop ?s)"
      by (rule shutdownInLoop_inv [OF inv])
        (use st conn_removed [OF inv] in \<open>simp_all add: up_def removed_def\<close>)
    then show ?thesis using ShutdownInLoop by simp
  next
    case WriteComplete
    have "conn_inv (user_call WriteCompleteCallback ?s)"
      by (rule conn_inv_bookkeeping [OF inv]) (use st q WriteComplete in \<open>auto simp: user_call_def\<close>)
    then show ?thesis using WriteComplete by simp
  next
    case (HighWaterMark n)
    have "conn_inv (user_call (HighWaterMarkCallback n) ?s)"
      by (rule conn_inv_bookkeeping [OF inv]) (use st q HighWaterMark in \<open>auto simp: user_call_def\<close>)
    then show ?thesis using HighWaterMark by simp
  qed
qed

lemma handleClose_ok:
  assumes inv: "conn_inv s" and u: "up s"
  shows "\<exists>s'. handleClose s = Some s' \<and> conn_inv s' \<and> state s' = kDisconnected"
proof -
  let ?s = "user_call CloseCallback (user_call (ConnectionCallback False)
                  (channel_set (DisableAll 0) (setState kDisconnected s)))"
  have nk: "state s \<noteq> kConnecting" "\<not> removed s" using u conn_removed [OF inv] by (auto simp: up_def)
  have ne: "events (connChannel s) \<noteq> 0" using conn_events(1) [OF inv u] by (simp add: event_consts)
  have "chan_legal r ?s" for r
    using chan_legal_set [OF conn_legal [OF inv, of r] nk ne conn_fd [OF inv], of "DisableAll 0" ?s]
    by (simp add: user_call_def channel_set_def setState_def)
  moreover have "\<not> removed ?s" using nk by (simp add: removed_def user_call_def channel_set_def setState_def)
  ultimately have "conn_inv ?s"
    using inv by (simp add: conn_inv_def user_call_def channel_set_def setState_def up_def kNoneEvent_def)
  then show ?thesis using u by (auto simp: handleClose_def up_def user_call_def channel_set_def setState_def)
qed

lemma events_up: "conn_inv s \<Longrightarrow> \<not> isNoneEvent (connChannel s) \<Longrightarrow> up s"
  using conn_events(2) [of s] by (auto simp: isNoneEvent_def kNoneEvent_def)

lemma conn_handleRead_ok:
  assumes inv: "conn_inv s" and u: "up s" and rv: "readv_ok (inputBuffer s) rv"
    and mem: "memory_ok (received s) (case rv of Inr d \<Rightarrow> d | Inl e \<Rightarrow> [])"
  shows "\<exists>s'. handleRead rv t s = Some s' \<and> conn_inv s'"
proof (cases rv)
  case (Inl e)
  have "s\<lparr>inputBuffer := inputBuffer s, received := received s @ []\<rparr> = s" by (cases s) simp
  then show ?thesis using inv Inl by (simp add: handleRead_def readFd_def)
next
  case (Inr d)
  then have "buffer_size (inputBuffer s) + length d \<le> vector_max"
    using mem conn_in(2) [OF inv] by (simp add: memory_ok_def)
  from readFd_ok [OF conn_in(1) [OF inv] _ this] rv Inr obtain b where b:
    "readFd (inputBuffer s) (Inr d) = Some (int (length d), None, b)" "buffer_inv b"
    "contents b = contents (inputBuffer s) @ d" "buffer_size b \<le> buffer_size (inputBuffer s) + length d" by auto
  let ?s = "s\<lparr>inputBuffer := b, received := received s @ d\<rparr>"
  have inv1: "conn_inv ?s"
    using inv b chan_legal_cong [of ?s s] by (simp add: conn_inv_def up_def removed_def)
  show ?thesis
  proof (cases "d = []")
    case True
    have "up ?s" using u by (simp add: up_def)
    from handleClose_ok [OF inv1 this] show ?thesis using True b(1) Inr by (auto simp: handleRead_def)
  next
    case False
    have "conn_inv (user_call (MessageCallback t) ?s)"
      by (rule conn_inv_bookkeeping [OF inv1]) (simp_all add: user_call_def)
    then show ?thesis using False b(1) Inr by (simp add: handleRead_def)
  qed
qed

lemma handleWrite_ok:
  assumes inv: "conn_inv s" and w: "write_ok w (length (contents (outputBuffer s)))"
  shows "\<exists>s'. handleWrite w s = Some s' \<and> conn_inv s'"
proof (cases "isWriting (connChannel s) \<and> (\<exists>n. w = Inr n \<and> n > 0)")
  case False
  then have "handleWrite w s = Some s" by (auto simp: handleWrite_def split: sum.splits)
  then show ?thesis using inv by simp
next
  case True
  then obtain n where n: "w = Inr n" "0 < n" by blast
  have u: "up s" using True not_writing_down [OF inv] by blast
  have nl: "n \<le> length (contents (outputBuffer s))" using w n by (simp add: write_ok_def)
  from retrieve_ok [OF conn_out(1) [OF inv] nl] obtain out where out: "retrieve (outputBuffer s) n = Some out"
    "buffer_inv out" "contents out = drop n (contents (outputBuffer s))"
    "buffer_size out = buffer_size (outputBuffer s)" by blast
  have front: "subrange (peek (outputBuffer s)) (peek (outputBuffer s) + n) (bufData (outputBuffer s)) =
      take n (contents (outputBuffer s))" using front_bytes [OF conn_out(1) [OF inv] nl] .
  define s1 where "s1 = s\<lparr>outputBuffer := out, sent := sent s @ take n (contents (outputBuffer s))\<rparr>"
  have nk: "state s \<noteq> kConnecting" "\<not> removed s" using u conn_removed [OF inv] by (auto simp: up_def)
  have ne: "events (connChannel s) \<noteq> 0" using conn_events(1) [OF inv u] by (simp add: event_consts)
  have rb: "readableBytes out = length (contents out)" using length_contents [OF out(2)] by simp
  have full: "contents (outputBuffer s) \<noteq> []" using True conn_writing [OF inv u] by simp
  have str: "\<not> dropped s \<Longrightarrow> sent s1 @ contents (outputBuffer s1) = submitted s1"
    using conn_stream [OF inv] out(3) by (simp add: s1_def)
  show ?thesis
  proof (cases "contents out = []")
    case False
    have "conn_inv s1"
      using inv str out(2,4) False full chan_legal_cong [of s1 s]
      by (simp add: conn_inv_def s1_def up_def removed_def)
    moreover have "handleWrite w s = Some s1"
      using True n out(1) front rb False by (simp add: handleWrite_def s1_def)
    ultimately show ?thesis by simp
  next
    case empty: True
    define s2 where "s2 = channel_set (DisableWriting 0) s1"
    define s3 where "s3 = (if hasWriteComplete s2 then conn_queueInLoop WriteComplete s2 else s2)"
    have res: "handleWrite w s = Some (if state s3 = kDisconnecting then shutdownInLoop s3 else s3)"
      using True n out(1) front rb empty
      by (simp add: handleWrite_def s1_def [symmetric] s2_def [symmetric] s3_def [symmetric] Let_def)
    have ev: "events (connChannel s2) = kReadEvent"
      using conn_events(1) [OF inv u] full by (simp add: s2_def s1_def channel_set_def event_consts)
    have legal: "chan_legal r s2" for r
      using chan_legal_set [OF conn_legal [OF inv, of r] nk ne conn_fd [OF inv], of "DisableWriting 0" s2] nk
      by (simp add: s2_def s1_def channel_set_def)
    have inv2: "conn_inv (s2\<lparr>functors := fs\<rparr>)" if "state s = kDisconnecting \<longrightarrow> ShutdownInLoop \<in> set fs" for fs
    proof (rule conn_invI)
      let ?t = "s2\<lparr>functors := fs\<rparr>"
      show "chan_legal r ?t" for r
        using legal [of r] chan_legal_cong [of ?t s2 r] by simp
    qed (use that str ev u empty nk conn_in [OF inv] conn_out(2) [OF inv] out(2,4) conn_fd [OF inv] in
        \<open>auto simp: s2_def s1_def up_def removed_def channel_set_def\<close>)
    have s3_eq: "s3 = s2\<lparr>functors := functors s3\<rparr>" by (simp add: s3_def conn_queueInLoop_def)
    have st3: "state s3 = state s" by (simp add: s3_def s2_def s1_def conn_queueInLoop_def channel_set_def)
    show ?thesis
    proof (cases "state s = kDisconnecting")
      case True
      let ?t = "s2\<lparr>functors := [ShutdownInLoop]\<rparr>"
      have "conn_inv ?t" by (rule inv2) simp
      then have "conn_inv (shutdownInLoop s3)"
      proof (rule shutdownInLoop_inv)
        have st2: "state s2 = state s" by (simp add: s2_def s1_def channel_set_def)
        show "up s3 = up ?t" "state s3 \<noteq> kConnecting" "state ?t \<noteq> kConnecting"
          using True st3 st2 by (simp_all add: up_def)
        show "removed s3 \<Longrightarrow> state s3 = kDisconnected"
          using nk by (auto simp: s3_def s2_def s1_def removed_def conn_queueInLoop_def channel_set_def
              split: if_splits)
      qed (simp_all add: s3_def conn_queueInLoop_def)
      then show ?thesis using res True st3 by simp
    next
      case False
      then have "conn_inv s3" using inv2 [of "functors s3"] s3_eq by simp
      then show ?thesis using res False st3 by simp
    qed
  qed
qed

lemma connectEstablished_ok:
  assumes inv: "conn_inv s" and st: "state s = kConnecting"
  shows "\<exists>s'. connectEstablished s = Some s' \<and> conn_inv s' \<and> state s' = kConnected"
proof -
  define s' where "s' = user_call (ConnectionCallback True) (channel_set (EnableReading 0)
    ((setState kConnected s)\<lparr>connChannel := tie True (connChannel s)\<rparr>))"
  have eq: "connectEstablished s = Some s'"
    using st by (simp add: connectEstablished_def s'_def setState_def)
  have ops: "chanOps s = []" "functors s = []" "contents (outputBuffer s) = []" "events (connChannel s) = 0"
    using conn_connecting [OF inv st] conn_events(2) [OF inv] st by (simp_all add: up_def)
  have fields: "chanOps s' = [EnableReading 0]" "events (connChannel s') = kReadEvent"
    "fd (connChannel s') = fd (connChannel s)" "state s' = kConnected" "outputBuffer s' = outputBuffer s"
    "inputBuffer s' = inputBuffer s" "functors s' = []" "sent s' = sent s" "submitted s' = submitted s"
    "received s' = received s" "consumed s' = consumed s" "dropped s' = dropped s"
    using ops by (simp_all add: s'_def user_call_def channel_set_def setState_def tie_def)
  have "chan_legal r s'" for r
    using fields conn_fd [OF inv]
    by (simp add: chan_legal_def removed_def empty_poller_def spec_mask_def Let_def event_consts)
  then have "conn_inv s'"
    using fields ops conn_in [OF inv] conn_out [OF inv] conn_stream [OF inv] conn_fd [OF inv]
    by (intro conn_invI) (auto simp: up_def removed_def)
  then show ?thesis using eq fields by blast
qed

lemma connectDestroyed_ok:
  assumes inv: "conn_inv s" and st: "state s = kConnected \<or> state s = kDisconnected" and nr: "\<not> removed s"
  shows "\<exists>s'. connectDestroyed s = Some s' \<and> conn_inv s' \<and> state s' = kDisconnected"
proof -
  define s0 where "s0 = (if state s = kConnected
        then user_call (ConnectionCallback False) (channel_set (DisableAll 0) (setState kDisconnected s)) else s)"
  have fields: "state s0 = kDisconnected" "fd (connChannel s0) = fd (connChannel s)"
    "outputBuffer s0 = outputBuffer s" "inputBuffer s0 = inputBuffer s" "functors s0 = functors s"
    "sent s0 = sent s" "submitted s0 = submitted s" "received s0 = received s" "consumed s0 = consumed s"
    "dropped s0 = dropped s" "events (connChannel s0) = 0" "\<not> removed s0"
    using st nr conn_events(2) [OF inv]
    by (auto simp: s0_def user_call_def channel_set_def setState_def kNoneEvent_def up_def removed_def)
  have legal0: "chan_legal r s0" for r
  proof (cases "state s = kConnected")
    case True
    then have "events (connChannel s) \<noteq> 0" using conn_events(1) [OF inv] by (simp add: up_def event_consts)
    with True nr chan_legal_set [OF conn_legal [OF inv, of r] _ nr this conn_fd [OF inv], of "DisableAll 0" s0]
    show ?thesis by (simp add: s0_def user_call_def channel_set_def setState_def kNoneEvent_def)
  qed (use conn_legal [OF inv] in \<open>simp add: s0_def\<close>)
  define s' where "s' = s0\<lparr>chanOps := chanOps s0 @ [RemoveChannel 0]\<rparr>"
  have eq: "connectDestroyed s = Some s'"
    using fields(11) by (simp add: connectDestroyed_def channel_remove_def s0_def [symmetric] s'_def
        isNoneEvent_def kNoneEvent_def)
  have "chan_legal r s'" for r
  proof -
    from legal0 [of r] fields obtain sp where sp: "spec_run r (chanOps s0) (empty_poller (fd (connChannel s0))) = Some sp"
      "spFd sp 0 = fd (connChannel s0)" "spRegistered sp (fd (connChannel s0)) = Some (0, 0)"
      by (auto simp: chan_legal_def)
    then show ?thesis by (simp add: chan_legal_def s'_def spec_run_append removed_def)
  qed
  then have "conn_inv s'"
    using fields conn_in [OF inv] conn_out [OF inv] conn_stream [OF inv] conn_fd [OF inv]
    by (intro conn_invI) (simp_all add: s'_def up_def)
  then show ?thesis using eq fields(1) by (simp add: s'_def)
qed

lemma user_retrieve_ok:
  assumes inv: "conn_inv s" and n: "n \<le> length (contents (inputBuffer s))"
  shows "\<exists>s'. user_retrieve n s = Some s' \<and> conn_inv s'"
proof -
  from retrieve_ok [OF conn_in(1) [OF inv] n] obtain b where b: "retrieve (inputBuffer s) n = Some b"
    "buffer_inv b" "contents b = drop n (contents (inputBuffer s))" "buffer_size b = buffer_size (inputBuffer s)"
    by blast
  let ?s = "s\<lparr>inputBuffer := b, consumed := consumed s @ take n (contents (inputBuffer s))\<rparr>"
  have "conn_inv ?s"
    using inv b chan_legal_cong [of ?s s] by (simp add: conn_inv_def up_def removed_def)
  then show ?thesis using b(1) by (simp add: user_retrieve_def)
qed

lemma conn_send_ok:
  assumes inv: "conn_inv s" and "write_ok w (length data)" "memory_ok (submitted s) data"
  shows "\<exists>s'. conn_send b data w s = Some s' \<and> conn_inv s'"
proof (cases "state s = kConnected")
  case True
  have "conn_inv (conn_queueInLoop (SendInLoop data) s)"
    by (rule conn_inv_bookkeeping [OF inv]) (use True in \<open>auto simp: conn_queueInLoop_def\<close>)
  with sendInLoop_ok [OF inv _ assms(2,3)] True show ?thesis by (auto simp: conn_send_def)
qed (use inv in \<open>simp add: conn_send_def\<close>)

lemma conn_step_inv:
  assumes step: "conn_step s s'" and inv: "conn_inv s"
  shows "conn_inv s'"
  using step
proof cases
  case established
  then have "state s = kConnecting" by (simp add: connectEstablished_def split: if_splits)
  from connectEstablished_ok [OF inv this] established show ?thesis by auto
next
  case (send w data b)
  with conn_send_ok [OF inv send(1,2), of b] show ?thesis by auto
next
  case (shutdown b)
  with conn_shutdown_ok [OF inv] show ?thesis by simp
next
  case (queued f fs w)
  with run_functor_ok [OF inv queued(1,2)] show ?thesis by auto
next
  case (readable rv t)
  with conn_handleRead_ok [OF inv events_up [OF inv readable(1)] readable(2,3), of t] show ?thesis by auto
next
  case (writable w)
  with handleWrite_ok [OF inv writable(1)] show ?thesis by auto
next
  case hangup
  with handleClose_ok [OF inv events_up [OF inv hangup(1)]] show ?thesis by auto
next
  case (consume n)
  then have "n \<le> length (contents (inputBuffer s))"
    using retrieve_abort [OF conn_in(1) [OF inv], of n]
    by (cases "n \<le> length (contents (inputBuffer s))") (auto simp: user_retrieve_def)
  from user_retrieve_ok [OF inv this] consume show ?thesis by auto
next
  case callbacks
  show ?thesis unfolding callbacks
    by (rule conn_inv_bookkeeping [OF inv]) (simp_all add: setWriteCompleteCallback_def)
next
  case (high_water mark)
  show ?thesis unfolding high_water
    by (rule conn_inv_bookkeeping [OF inv]) (simp_all add: setHighWaterMarkCallback_def)
next
  case destroyed
  then have "\<not> removed s" by (simp add: removed_def)
  from connectDestroyed_ok [OF inv destroyed(1) this] destroyed(3) show ?thesis by auto
qed

lemma conn_reachable: "conn_step\<^sup>*\<^sup>* s s' \<Longrightarrow> conn_inv s \<Longrightarrow> conn_inv s'"
  by (induction rule: rtranclp_induct) (auto intro: conn_step_inv)

section \<open>Properties\<close>

text \<open>C1: The output stream is intact. In every state a connection can reach, through any interleaving of
  sends (from the loop and from other threads), partial writes, would-block results, writable
  events, shutdown and closing, the bytes the kernel took followed by the bytes waiting in the
  output buffer are exactly the bytes submitted so far, in order, unless a broken pipe was
  reported; and while the connection is up, writing is of interest exactly when bytes wait.\<close>

theorem connection_output_intact:
  assumes "0 \<le> sockfd" and "conn_step\<^sup>*\<^sup>* (TcpConnection_new sockfd) s"
  shows "(\<not> dropped s \<longrightarrow> sent s @ contents (outputBuffer s) = submitted s) \<and>
    (up s \<longrightarrow> isWriting (connChannel s) = (contents (outputBuffer s) \<noteq> []))"
proof -
  have inv: "conn_inv s" using conn_reachable [OF assms(2) TcpConnection_new_inv [OF assms(1)]] .
  show ?thesis using conn_stream [OF inv] conn_writing [OF inv] by blast
qed

text \<open>C2: The input stream is intact, and no event finds the connection in a wrong state. In every reachable
  state the bytes the user took followed by those in the input buffer are the bytes received;
  reading, writing and hang-up events, queued functors, sends and the two life-cycle calls return without a
  failed assertion when they are due.\<close>

theorem connection_never_fails:
  assumes "0 \<le> sockfd" and "conn_step\<^sup>*\<^sup>* (TcpConnection_new sockfd) s"
  shows "consumed s @ contents (inputBuffer s) = received s \<and>
    (\<not> isNoneEvent (connChannel s) \<and> readv_ok (inputBuffer s) rv \<and>
      memory_ok (received s) (case rv of Inr d \<Rightarrow> d | Inl e \<Rightarrow> []) \<longrightarrow> handleRead rv t s \<noteq> None) \<and>
    (write_ok w (length (contents (outputBuffer s))) \<longrightarrow> handleWrite w s \<noteq> None) \<and>
    (\<not> isNoneEvent (connChannel s) \<longrightarrow> handleClose s \<noteq> None) \<and>
    (write_ok w (length data) \<and> memory_ok (submitted s) data \<longrightarrow> conn_send b data w s \<noteq> None) \<and>
    (functors s = f # fs \<and> functor_ok f w s \<longrightarrow> run_functor f w (s\<lparr>functors := fs\<rparr>) \<noteq> None) \<and>
    (state s = kConnecting \<longrightarrow> connectEstablished s \<noteq> None) \<and>
    ((state s = kConnected \<or> state s = kDisconnected) \<and> RemoveChannel 0 \<notin> set (chanOps s) \<longrightarrow>
      connectDestroyed s \<noteq> None)"
proof -
  have inv: "conn_inv s" using conn_reachable [OF assms(2) TcpConnection_new_inv [OF assms(1)]] .
  have "\<not> isNoneEvent (connChannel s) \<and> readv_ok (inputBuffer s) rv \<and>
      memory_ok (received s) (case rv of Inr d \<Rightarrow> d | Inl e \<Rightarrow> []) \<longrightarrow> handleRead rv t s \<noteq> None"
    using conn_handleRead_ok [OF inv events_up [OF inv], of rv t] by auto
  moreover have "write_ok w (length (contents (outputBuffer s))) \<longrightarrow> handleWrite w s \<noteq> None"
    using handleWrite_ok [OF inv, of w] by auto
  moreover have "\<not> isNoneEvent (connChannel s) \<longrightarrow> handleClose s \<noteq> None"
    using handleClose_ok [OF inv events_up [OF inv]] by auto
  moreover have "write_ok w (length data) \<and> memory_ok (submitted s) data \<longrightarrow> conn_send b data w s \<noteq> None"
    using conn_send_ok [OF inv, of w data b] by auto
  moreover have "functors s = f # fs \<and> functor_ok f w s \<longrightarrow> run_functor f w (s\<lparr>functors := fs\<rparr>) \<noteq> None"
    using run_functor_ok [OF inv, of f fs w] by auto
  moreover have "state s = kConnecting \<longrightarrow> connectEstablished s \<noteq> None"
    using connectEstablished_ok [OF inv] by auto
  moreover have "(state s = kConnected \<or> state s = kDisconnected) \<and> RemoveChannel 0 \<notin> set (chanOps s) \<longrightarrow>
      connectDestroyed s \<noteq> None"
    using connectDestroyed_ok [OF inv] by (auto simp: removed_def)
  ultimately show ?thesis using conn_in(3) [OF inv] by blast
qed

lemma demo_up:
  "conn_step\<^sup>*\<^sup>* (TcpConnection_new 7) (the (connectEstablished (TcpConnection_new 7)))"
  "connectEstablished (TcpConnection_new 7) = Some (the (connectEstablished (TcpConnection_new 7)))"
  "state (the (connectEstablished (TcpConnection_new 7))) = kConnected"
proof -
  have inv: "conn_inv (TcpConnection_new 7)" by (rule TcpConnection_new_inv) simp
  have "state (TcpConnection_new 7) = kConnecting" by (simp add: TcpConnection_new_def)
  from connectEstablished_ok [OF inv this] obtain s where s:
    "connectEstablished (TcpConnection_new 7) = Some s" "state s = kConnected" by blast
  then show "connectEstablished (TcpConnection_new 7) = Some (the (connectEstablished (TcpConnection_new 7)))"
    "state (the (connectEstablished (TcpConnection_new 7))) = kConnected" by simp_all
  show "conn_step\<^sup>*\<^sup>* (TcpConnection_new 7) (the (connectEstablished (TcpConnection_new 7)))"
    using s(1) by (intro r_into_rtranclp conn_step.established) simp
qed

lemma demo_fields:
  "dropped (the (connectEstablished (TcpConnection_new 7))) = False"
  "functors (the (connectEstablished (TcpConnection_new 7))) = []"
  "outputBuffer (the (connectEstablished (TcpConnection_new 7))) = Buffer_new"
  by (simp_all add: connectEstablished_def TcpConnection_new_def setState_def user_call_def channel_set_def)

theorem connection_output_intact_witness:
  "\<exists>s. conn_step\<^sup>*\<^sup>* (TcpConnection_new 7) s \<and> up s \<and>
     sent s @ contents (outputBuffer s) = submitted s"
  using connection_output_intact [OF _ demo_up(1)] demo_up(1,3) demo_fields(1) by (auto simp: up_def)

theorem connection_never_fails_witness:
  "conn_send True ''hello'' (Inr 2) (the (connectEstablished (TcpConnection_new 7))) \<noteq> None"
proof -
  let ?s = "the (connectEstablished (TcpConnection_new 7))"
  have sub: "submitted ?s = []"
    by (simp add: connectEstablished_def TcpConnection_new_def setState_def user_call_def channel_set_def)
  have "write_ok (Inr 2) (length ''hello'')" "memory_ok (submitted ?s) ''hello''"
    unfolding sub by (simp_all add: write_ok_def memory_ok_def vector_max_def)
  then show ?thesis using connection_never_fails [OF _ demo_up(1)] by simp
qed

lemma fin_step:
  assumes step: "conn_step s s'" and inv: "conn_inv s" and fin: "\<not> finSent s" "finSent s'"
  shows "\<not> isWriting (connChannel s')"
  using step
proof cases
  case (send w data b)
  show ?thesis
  proof (cases "b \<and> state s = kConnected")
    case True
    with sendInLoop_ok [OF inv _ send(1,2)] send(3) fin show ?thesis by (auto simp: conn_send_def)
  qed (use send(3) fin in \<open>auto simp: conn_send_def conn_queueInLoop_def split: if_splits\<close>)
next
  case (queued f fs w)
  have st: "state s \<noteq> kConnecting" using conn_connecting [OF inv] queued(1) by auto
  show ?thesis
  proof (cases f)
    case (SendInLoop data)
    have "conn_inv (s\<lparr>functors := fs\<rparr>)"
      by (rule conn_inv_bookkeeping [OF inv]) (use st queued(1) SendInLoop in auto)
    from sendInLoop_ok [OF this, of w data] queued(2,3) SendInLoop st fin show ?thesis by auto
  qed (use queued(3) fin in \<open>auto simp: shutdownInLoop_def user_call_def split: if_splits\<close>)
next
  case (readable rv t)
  then show ?thesis using fin
    by (auto simp: handleRead_def handleClose_def user_call_def channel_set_def setState_def Let_def
        split: Option.bind_splits if_splits)
next
  case (writable w)
  then show ?thesis using fin
    by (auto simp: handleWrite_def shutdownInLoop_def conn_queueInLoop_def channel_set_def Let_def
        split: Option.bind_splits if_splits sum.splits)
next
  case destroyed
  then show ?thesis using fin
    by (auto simp: connectDestroyed_def channel_remove_def user_call_def channel_set_def setState_def
        split: if_splits)
qed (use fin in \<open>auto simp: conn_shutdown_def shutdownInLoop_def connectEstablished_def handleClose_def
      user_retrieve_def user_call_def channel_set_def setState_def conn_queueInLoop_def Let_def
      setWriteCompleteCallback_def setHighWaterMarkCallback_def split: if_splits Option.bind_splits\<close>)

text \<open>C3: \<open>shutdown\<close> closes the sending side gracefully. Whenever a step sends the FIN on a connection that is
  not yet closed, the output buffer is empty and every byte submitted so far has been handed to the kernel before it
  (unless a broken pipe was reported); and a connection that is disconnecting with an empty output buffer
  and no pending \<open>shutdownInLoop\<close> has sent its FIN, so the FIN cannot be forgotten.\<close>

theorem connection_fin_after_drain:
  assumes "0 \<le> sockfd" and "conn_step\<^sup>*\<^sup>* (TcpConnection_new sockfd) s" and "conn_step s s'"
  shows "(\<not> finSent s \<and> finSent s' \<and> state s' \<noteq> kDisconnected \<longrightarrow>
      contents (outputBuffer s') = [] \<and> (\<not> dropped s' \<longrightarrow> sent s' = submitted s')) \<and>
    (state s' = kDisconnecting \<and> contents (outputBuffer s') = [] \<and> ShutdownInLoop \<notin> set (functors s') \<longrightarrow>
      finSent s')"
proof -
  have inv: "conn_inv s" using conn_reachable [OF assms(2) TcpConnection_new_inv [OF assms(1)]] .
  have inv': "conn_inv s'" by (rule conn_step_inv [OF assms(3) inv])
  have "contents (outputBuffer s') = []"
    if "\<not> finSent s" "finSent s'" "state s' \<noteq> kDisconnected"
  proof (cases "up s'")
    case True
    with fin_step [OF assms(3) inv that(1,2)] conn_writing [OF inv'] show ?thesis by simp
  next
    case False
    with that(3) have "state s' = kConnecting" by (cases "state s'") (auto simp: up_def)
    with conn_connecting [OF inv'] show ?thesis by simp
  qed
  with conn_stream [OF inv'] conn_fin [OF inv'] show ?thesis by (metis append_Nil2)
qed

theorem connection_fin_after_drain_witness:
  "finSent (conn_shutdown True (the (connectEstablished (TcpConnection_new 7))))"
proof -
  let ?s = "the (connectEstablished (TcpConnection_new 7))"
  have "state (conn_shutdown True ?s) = kDisconnecting" "functors (conn_shutdown True ?s) = []"
    "outputBuffer (conn_shutdown True ?s) = Buffer_new"
    using demo_up(3) demo_fields by (simp_all add: conn_shutdown_def shutdownInLoop_def setState_def Let_def)
  with connection_fin_after_drain [OF _ demo_up(1) conn_step.shutdown [of _ True]] Buffer_new_contents
  show ?thesis by simp
qed

text \<open>Destroying a connection that is shutting down aborts. \<open>connectDestroyed\<close> disables the channel only in
  state \<open>kConnected\<close>; in state \<open>kDisconnecting\<close> (after \<open>shutdown\<close>, while the peer has not closed yet) the
  assertion \<open>isNoneEvent()\<close> of \<open>Channel::remove\<close> fails, as when a \<open>TcpServer\<close> is destroyed at that
  moment.\<close>

theorem connection_destroyed_while_disconnecting:
  assumes "0 \<le> sockfd" and "conn_step\<^sup>*\<^sup>* (TcpConnection_new sockfd) s" and "state s = kDisconnecting"
  shows "connectDestroyed s = None"
proof -
  have inv: "conn_inv s" using conn_reachable [OF assms(2) TcpConnection_new_inv [OF assms(1)]] .
  have "events (connChannel s) \<noteq> 0"
    using conn_events(1) [OF inv] assms(3) by (simp add: up_def event_consts)
  then show ?thesis
    using assms(3) by (simp add: connectDestroyed_def channel_remove_def isNoneEvent_def kNoneEvent_def)
qed

theorem connection_destroyed_while_disconnecting_witness:
  "connectDestroyed (conn_shutdown True (the (connectEstablished (TcpConnection_new 7)))) = None"
proof -
  let ?s = "the (connectEstablished (TcpConnection_new 7))"
  have r: "conn_step\<^sup>*\<^sup>* (TcpConnection_new 7) (conn_shutdown True ?s)"
    using demo_up(1) conn_step.shutdown [of ?s True] by (rule rtranclp.rtrancl_into_rtrancl)
  have "state (conn_shutdown True ?s) = kDisconnecting"
    using demo_up(3) by (simp add: conn_shutdown_def shutdownInLoop_def setState_def Let_def)
  with connection_destroyed_while_disconnecting [OF _ r] show ?thesis by simp
qed

end
