(* ===== verification/Muduo_System.thy ===== *)
theory Muduo_System
  imports Muduo_EPollPoller Muduo_PollPoller Muduo_TcpConnection
begin

text \<open>
  Components put together: the channel calls that a \<open>TcpConnection\<close> makes over its life
  (\<open>chanOps\<close>) are run on both pollers.
\<close>

lemma spec_run_frame:
  "spec_run r ops sp = Some sp' \<Longrightarrow>
   spFd sp' = spFd sp \<and> (\<forall>g. g \<notin> range (spFd sp) \<longrightarrow> spRegistered sp' g = spRegistered sp g)"
proof (induction ops arbitrary: sp)
  case (Cons p ops)
  have "spFd (spec_op r p sp) = spFd sp \<and>
    (\<forall>g. g \<notin> range (spFd sp) \<longrightarrow> spRegistered (spec_op r p sp) g = spRegistered sp g)"
    by (cases p) (auto simp: Let_def)
  with Cons.IH [of "spec_op r p sp"] Cons.prems show ?case by (auto split: if_splits)
qed simp

lemma chan_legal_watched:
  assumes "chan_legal r s"
  shows "\<exists>sp. spec_run r (chanOps s) (empty_poller (fd (connChannel s))) = Some sp \<and>
    (\<forall>f. spRegistered sp f =
      (if f = fd (connChannel s) \<and> state s \<noteq> kConnecting \<and> \<not> removed s then Some (0, events (connChannel s)) else None))"
proof -
  from assms obtain sp where sp: "spec_run r (chanOps s) (empty_poller (fd (connChannel s))) = Some sp"
    "spRegistered sp (fd (connChannel s)) =
       (if state s = kConnecting \<or> removed s then None else Some (0, events (connChannel s)))"
    by (auto simp: chan_legal_def)
  from spec_run_frame [OF sp(1)] have "spRegistered sp f = None" if "f \<noteq> fd (connChannel s)" for f
    using that by (auto simp: empty_poller_def)
  then have "spRegistered sp f = (if f = fd (connChannel s) \<and> state s \<noteq> kConnecting \<and> \<not> removed s
      then Some (0, events (connChannel s)) else None)" for f
    using sp(2) by (cases "f = fd (connChannel s)") simp_all
  with sp(1) show ?thesis by blast
qed

lemma ep_abs_new: "ep_abs (EPollPoller_new (\<lambda>_. f)) = empty_poller f"
  by (simp add: ep_abs_def EPollPoller_new_def empty_poller_def Channel_new_def kNew_def fun_eq_iff)

lemma pp_abs_new: "pp_abs (PollPoller_new (\<lambda>_. f)) = empty_poller f"
  by (simp add: pp_abs_def PollPoller_new_def empty_poller_def Channel_new_def fun_eq_iff)

text \<open>What should be watched on behalf of a connection.\<close>

definition conn_watch :: "tcp_connection \<Rightarrow> int \<Rightarrow> events option" where
  "conn_watch s f =
     (if f = fd (connChannel s) \<and> up s
      then Some (if contents (outputBuffer s) = [] then kReadEvent else kReadEvent OR kWriteEvent)
      else None)"

text \<open>C19: Both pollers watch a connection as it means them to. In every reachable state of a connection the
  channel calls it has made run on \<open>EPollPoller\<close> and on \<open>PollPoller\<close> without a failed assertion, and the
  kernel then watches its socket exactly while the connection is up: for reading, and for writing exactly when
  output is waiting. No other descriptor is watched.\<close>

theorem connection_watched_exactly:
  assumes "0 \<le> sockfd" and "conn_step\<^sup>*\<^sup>* (TcpConnection_new sockfd) s"
  shows "\<exists>ep pp. ops_run ep_channel_op (chanOps s) (EPollPoller_new (\<lambda>_. fd (connChannel s))) = Some ep \<and>
    ops_run pp_channel_op (chanOps s) (PollPoller_new (\<lambda>_. fd (connChannel s))) = Some pp \<and>
    ep_watched ep = conn_watch s \<and> pp_watched pp = conn_watch s"
proof -
  have inv: "conn_inv s" using conn_reachable [OF assms(2) TcpConnection_new_inv [OF assms(1)]] .
  let ?f = "fd (connChannel s)"
  have w: "(case (if f = ?f \<and> state s \<noteq> kConnecting \<and> \<not> removed s then Some (0::nat, events (connChannel s)) else None)
      of Some (c, m) \<Rightarrow> (if m = 0 then None else Some m) | None \<Rightarrow> None) = conn_watch s f" for f
    using conn_events [OF inv] conn_removed [OF inv] by (auto simp: conn_watch_def up_def event_consts)
  from chan_legal_watched [OF conn_legal [OF inv]] obtain sp1 where
    sp1: "spec_run True (chanOps s) (empty_poller ?f) = Some sp1" and r1: "\<forall>f. spRegistered sp1 f =
      (if f = ?f \<and> state s \<noteq> kConnecting \<and> \<not> removed s then Some (0, events (connChannel s)) else None)" by blast
  from epoll_poller.run_watches [OF ep_inv_new sp1 [folded ep_abs_new]] obtain ep where
    "ops_run ep_channel_op (chanOps s) (EPollPoller_new (\<lambda>_. ?f)) = Some ep"
    "\<forall>f. ep_watched ep f = conn_watch s f" unfolding r1 [rule_format] w by blast
  moreover from chan_legal_watched [OF conn_legal [OF inv]] obtain sp2 where
    sp2: "spec_run False (chanOps s) (empty_poller ?f) = Some sp2" and r2: "\<forall>f. spRegistered sp2 f =
      (if f = ?f \<and> state s \<noteq> kConnecting \<and> \<not> removed s then Some (0, events (connChannel s)) else None)" by blast
  from poll_poller.run_watches [OF pp_inv_new sp2 [folded pp_abs_new]] obtain pp where
    "ops_run pp_channel_op (chanOps s) (PollPoller_new (\<lambda>_. ?f)) = Some pp"
    "\<forall>f. pp_watched pp f = conn_watch s f" unfolding r2 [rule_format] w by blast
  ultimately show ?thesis by (auto simp: fun_eq_iff)
qed

theorem connection_watched_exactly_witness:
  "\<exists>s ep. connectEstablished (TcpConnection_new 5) = Some s \<and>
     ops_run ep_channel_op (chanOps s) (EPollPoller_new (\<lambda>_. fd (connChannel s))) = Some ep \<and>
     ep_watched ep (fd (connChannel s)) = Some kReadEvent"
proof -
  have "conn_inv (TcpConnection_new 5)" "state (TcpConnection_new 5) = kConnecting"
    using TcpConnection_new_inv [of 5] by (simp_all add: TcpConnection_new_def)
  from connectEstablished_ok [OF this] obtain s where s: "connectEstablished (TcpConnection_new 5) = Some s"
    "state s = kConnected" by blast
  then have "conn_step\<^sup>*\<^sup>* (TcpConnection_new 5) s" by (intro r_into_rtranclp conn_step.established)
  note w = connection_watched_exactly [OF _ this]
  have "contents (outputBuffer s) = []" "up s"
    using s by (auto simp: up_def connectEstablished_def TcpConnection_new_def channel_set_def setState_def
        user_call_def)
  with w s(1) show ?thesis by (auto simp: conn_watch_def)
qed

end
