(* ===== verification/Muduo_EventLoop.thy ===== *)
theory Muduo_EventLoop
  imports Muduo_Channel Muduo_TimerQueue
begin

text \<open>
  \<open>EventLoop\<close> (\<open>muduo/net/EventLoop.h\<close>, \<open>EventLoop.cc\<close>): one loop thread that polls, dispatches
  the active channels and then runs the functors other threads (or its own callbacks) queued.

  The loop thread is a small-step program: \<open>pc\<close> says where \<open>loop()\<close> stands, \<open>acts\<close> holds what
  the running callback or functor has still to do to the loop. What a callback does is arbitrary (the
  rules take any list of actions). Other threads interleave at the granularity of the code's critical
  section: \<open>queueInLoop\<close> from another thread is one step for the locked \<open>push_back\<close> and one for the
  write to the \<open>eventfd\<close>, and \<open>inflight\<close> counts the threads between the two. \<open>wakeups\<close> is the
  counter of the \<open>eventfd\<close>; a positive counter makes the wakeup channel readable, so that \<open>poll\<close>
  returns at once. \<open>queued\<close> and \<open>called\<close> record the functors pushed and run, in order.
\<close>

section \<open>State\<close>

datatype 'f loop_act =
  RunInLoop 'f | QueueInLoop 'f | Quit | UpdateChannel chan_op | LoopRemoveChannel chan_id

datatype 'f loop_pc = Idle | Check | Polling | Handling "chan_id list" | Calling "'f list"

record 'f event_loop =
  looping :: bool
  quit :: bool
  eventHandling :: bool
  callingPendingFunctors :: bool
  activeChannels :: "chan_id list"
  currentActiveChannel :: "chan_id option"
  pendingFunctors :: "'f list"
  wakeupChannel :: chan_id
  pollerCalls :: "chan_op list"
  wakeups :: nat
  inflight :: nat
  pc :: "'f loop_pc"
  acts :: "'f loop_act list"
  queued :: "'f list"
  called :: "'f list"

text \<open>The largest value the kernel lets an \<open>eventfd\<close> counter reach.\<close>

definition eventfd_max :: nat where
  "eventfd_max = 2 ^ 64 - 2"

definition EventLoop_new :: "chan_id \<Rightarrow> 'f event_loop" where
  "EventLoop_new wakeup =
     \<lparr>looping = False, quit = False, eventHandling = False, callingPendingFunctors = False,
      activeChannels = [], currentActiveChannel = None, pendingFunctors = [], wakeupChannel = wakeup,
      pollerCalls = [EnableReading wakeup], wakeups = 0, inflight = 0, pc = Idle, acts = [],
      queued = [], called = []\<rparr>"

section \<open>Operations\<close>

definition el_wakeup :: "'f event_loop \<Rightarrow> 'f event_loop" where
  "el_wakeup s = (if wakeups s + 1 \<le> eventfd_max then s\<lparr>wakeups := wakeups s + 1\<rparr> else s)"

definition el_handleRead :: "'f event_loop \<Rightarrow> 'f event_loop" where
  "el_handleRead s = s\<lparr>wakeups := 0\<rparr>"

text \<open>The critical section of \<open>queueInLoop\<close>, and the function as the loop thread runs it.\<close>

definition el_push :: "'f \<Rightarrow> 'f event_loop \<Rightarrow> 'f event_loop" where
  "el_push cb s = s\<lparr>pendingFunctors := pendingFunctors s @ [cb], queued := queued s @ [cb]\<rparr>"

definition el_queueInLoop :: "bool \<Rightarrow> 'f \<Rightarrow> 'f event_loop \<Rightarrow> 'f event_loop" where
  "el_queueInLoop inLoopThread cb s =
     (let s1 = el_push cb s
      in if \<not> inLoopThread \<or> callingPendingFunctors s1 then el_wakeup s1 else s1)"

definition el_quit :: "bool \<Rightarrow> 'f event_loop \<Rightarrow> 'f event_loop" where
  "el_quit inLoopThread s =
     (let s1 = s\<lparr>quit := True\<rparr> in if \<not> inLoopThread then el_wakeup s1 else s1)"

definition el_updateChannel :: "chan_op \<Rightarrow> 'f event_loop \<Rightarrow> 'f event_loop" where
  "el_updateChannel c s = s\<lparr>pollerCalls := pollerCalls s @ [c]\<rparr>"

definition el_removeChannel :: "chan_id \<Rightarrow> 'f event_loop \<Rightarrow> 'f event_loop option" where
  "el_removeChannel c s =
     do { assertion (\<not> eventHandling s \<or> currentActiveChannel s = Some c \<or> c \<notin> set (activeChannels s));
          Some (s\<lparr>pollerCalls := pollerCalls s @ [RemoveChannel c]\<rparr>) }"

text \<open>An action in the loop thread; \<open>body\<close> is what the functor of a synchronous \<open>runInLoop\<close> does.\<close>

fun do_act :: "'f loop_act \<Rightarrow> 'f loop_act list \<Rightarrow> 'f event_loop \<Rightarrow> 'f event_loop option" where
  "do_act (RunInLoop f) body s = Some (s\<lparr>acts := body @ acts s\<rparr>)"
| "do_act (QueueInLoop f) body s = Some (el_queueInLoop True f s)"
| "do_act Quit body s = Some (el_quit True s)"
| "do_act (UpdateChannel c) body s = Some (el_updateChannel c s)"
| "do_act (LoopRemoveChannel c) body s = el_removeChannel c s"

text \<open>The statements of \<open>loop()\<close>, \<open>doPendingFunctors\<close> between two scheduling points.\<close>

definition loop_start :: "'f event_loop \<Rightarrow> 'f event_loop option" where
  "loop_start s =
     do { assertion (\<not> looping s);
          Some (s\<lparr>looping := True, quit := False, pc := Check\<rparr>) }"

definition loop_check :: "'f event_loop \<Rightarrow> 'f event_loop" where
  "loop_check s =
     (if \<not> quit s then s\<lparr>activeChannels := [], pc := Polling\<rparr>
      else s\<lparr>looping := False, pc := Idle\<rparr>)"

definition loop_polled :: "chan_id list \<Rightarrow> 'f event_loop \<Rightarrow> 'f event_loop" where
  "loop_polled cs s = s\<lparr>activeChannels := cs, eventHandling := True, pc := Handling cs\<rparr>"

definition loop_dispatch :: "chan_id \<Rightarrow> chan_id list \<Rightarrow> 'f loop_act list \<Rightarrow> 'f event_loop \<Rightarrow> 'f event_loop" where
  "loop_dispatch c cs body s =
     (let s1 = s\<lparr>currentActiveChannel := Some c, pc := Handling cs\<rparr>
      in if c = wakeupChannel s then el_handleRead s1 else s1\<lparr>acts := body\<rparr>)"

definition doPendingFunctors_swap :: "'f event_loop \<Rightarrow> 'f event_loop" where
  "doPendingFunctors_swap s =
     s\<lparr>currentActiveChannel := None, eventHandling := False, callingPendingFunctors := True,
       pc := Calling (pendingFunctors s), pendingFunctors := []\<rparr>"

definition doPendingFunctors_call :: "'f \<Rightarrow> 'f list \<Rightarrow> 'f loop_act list \<Rightarrow> 'f event_loop \<Rightarrow> 'f event_loop" where
  "doPendingFunctors_call f fs body s = s\<lparr>pc := Calling fs, acts := body, called := called s @ [f]\<rparr>"

definition doPendingFunctors_end :: "'f event_loop \<Rightarrow> 'f event_loop" where
  "doPendingFunctors_end s = s\<lparr>callingPendingFunctors := False, pc := Check\<rparr>"

text \<open>Timers of the loop: \<open>runAt\<close>, \<open>runAfter\<close>, \<open>runEvery\<close>, \<open>cancel\<close> as the loop thread calls them.\<close>

definition runAt :: "((addr \<times> 'c timer) list \<Rightarrow> addr) \<Rightarrow> Timestamp \<Rightarrow> 'c \<Rightarrow> Timestamp \<Rightarrow> 'c tq \<Rightarrow> 'c tq option" where
  "runAt alloc time cb now q = addTimer alloc cb time (Seconds 0 False) now q"

definition runAfter :: "((addr \<times> 'c timer) list \<Rightarrow> addr) \<Rightarrow> seconds \<Rightarrow> 'c \<Rightarrow> Timestamp \<Rightarrow> 'c tq \<Rightarrow> 'c tq option" where
  "runAfter alloc delay cb now q = runAt alloc (addTime now delay) cb now q"

definition runEvery :: "((addr \<times> 'c timer) list \<Rightarrow> addr) \<Rightarrow> seconds \<Rightarrow> 'c \<Rightarrow> Timestamp \<Rightarrow> 'c tq \<Rightarrow> 'c tq option" where
  "runEvery alloc every cb now q = addTimer alloc cb (addTime now every) every now q"

definition el_cancel :: "active_timer \<Rightarrow> 'c tq \<Rightarrow> 'c tq option" where
  "el_cancel timerId q = cancelInLoop timerId q"

section \<open>Steps\<close>

text \<open>\<open>early\<close> says whether the owner thread may use the loop while \<open>loop()\<close> is not running.\<close>

inductive loop_step :: "bool \<Rightarrow> 'f event_loop \<Rightarrow> 'f event_loop \<Rightarrow> bool" for early where
  start: "pc s = Idle \<Longrightarrow> acts s = [] \<Longrightarrow> loop_start s = Some s' \<Longrightarrow> loop_step early s s'"
| check: "pc s = Check \<Longrightarrow> loop_step early s (loop_check s)"
| polled: "pc s = Polling \<Longrightarrow> wakeupChannel s \<in> set cs \<longrightarrow> wakeups s > 0 \<Longrightarrow>
    loop_step early s (loop_polled cs s)"
| dispatch: "pc s = Handling (c # cs) \<Longrightarrow> acts s = [] \<Longrightarrow> loop_step early s (loop_dispatch c cs body s)"
| swap: "pc s = Handling [] \<Longrightarrow> acts s = [] \<Longrightarrow> loop_step early s (doPendingFunctors_swap s)"
| call: "pc s = Calling (f # fs) \<Longrightarrow> acts s = [] \<Longrightarrow>
    loop_step early s (doPendingFunctors_call f fs body s)"
| finish: "pc s = Calling [] \<Longrightarrow> acts s = [] \<Longrightarrow> loop_step early s (doPendingFunctors_end s)"
| act: "acts s = a # as \<Longrightarrow> do_act a body (s\<lparr>acts := as\<rparr>) = Some s' \<Longrightarrow> loop_step early s s'"
| owner: "early \<Longrightarrow> pc s = Idle \<Longrightarrow> acts s = [] \<Longrightarrow> loop_step early s (s\<lparr>acts := body\<rparr>)"
| other_push: "loop_step early s ((el_push f s)\<lparr>inflight := inflight s + 1\<rparr>)"
| other_quit: "loop_step early s (s\<lparr>quit := True, inflight := inflight s + 1\<rparr>)"
| other_wakeup: "inflight s > 0 \<Longrightarrow> loop_step early s (el_wakeup (s\<lparr>inflight := inflight s - 1\<rparr>))"

inductive_cases loop_stepE: "loop_step early s s'"

lemma el_wakeup_simps [simp]:
  "pendingFunctors (el_wakeup s) = pendingFunctors s" "pc (el_wakeup s) = pc s" "acts (el_wakeup s) = acts s"
  "inflight (el_wakeup s) = inflight s" "called (el_wakeup s) = called s" "queued (el_wakeup s) = queued s"
  "looping (el_wakeup s) = looping s" "quit (el_wakeup s) = quit s"
  "eventHandling (el_wakeup s) = eventHandling s"
  "callingPendingFunctors (el_wakeup s) = callingPendingFunctors s"
  "wakeups (el_wakeup s) > 0" "wakeups (el_wakeup s) \<noteq> 0"
  by (auto simp: el_wakeup_def eventfd_max_def)

lemmas loop_defs = el_handleRead_def el_push_def el_queueInLoop_def el_quit_def
  el_updateChannel_def el_removeChannel_def loop_start_def loop_check_def loop_polled_def
  loop_dispatch_def doPendingFunctors_swap_def doPendingFunctors_call_def doPendingFunctors_end_def

section \<open>Invariants\<close>

fun batch :: "'f loop_pc \<Rightarrow> 'f list" where
  "batch (Calling fs) = fs"
| "batch _ = []"

definition in_handling :: "'f loop_pc \<Rightarrow> bool" where
  "in_handling p \<longleftrightarrow> (\<exists>cs. p = Handling cs)"

definition in_calling :: "'f loop_pc \<Rightarrow> bool" where
  "in_calling p \<longleftrightarrow> (\<exists>fs. p = Calling fs)"

lemma in_pc_simps [simp]:
  "in_handling (Handling cs)" "\<not> in_handling Idle" "\<not> in_handling Check" "\<not> in_handling Polling"
  "\<not> in_handling (Calling fs)" "in_calling (Calling fs)" "\<not> in_calling Idle" "\<not> in_calling Check"
  "\<not> in_calling Polling" "\<not> in_calling (Handling cs)"
  by (simp_all add: in_handling_def in_calling_def)

definition waking :: "'f event_loop \<Rightarrow> bool" where
  "waking s \<longleftrightarrow> wakeups s > 0 \<or> inflight s > 0"

text \<open>The functors called, those of the running batch and the pending ones are all that were queued,
  in order; the flags follow the program counter.\<close>

definition loop_inv :: "'f event_loop \<Rightarrow> bool" where
  "loop_inv s \<longleftrightarrow>
     called s @ batch (pc s) @ pendingFunctors s = queued s \<and>
     callingPendingFunctors s = in_calling (pc s) \<and>
     eventHandling s = in_handling (pc s) \<and>
     looping s = (pc s \<noteq> Idle)"

text \<open>Work for the loop thread implies a wakeup unless the thread is about to look anyway.\<close>

definition wake_inv :: "'f event_loop \<Rightarrow> bool" where
  "wake_inv s \<longleftrightarrow>
     (pendingFunctors s \<noteq> [] \<longrightarrow> in_handling (pc s) \<or> waking s) \<and>
     (pc s = Polling \<and> quit s \<longrightarrow> waking s) \<and>
     (acts s \<noteq> [] \<longrightarrow> in_handling (pc s) \<or> in_calling (pc s))"

lemma EventLoop_new_inv [simp]: "loop_inv (EventLoop_new w)" "wake_inv (EventLoop_new w)"
  by (simp_all add: loop_inv_def wake_inv_def EventLoop_new_def)

lemma do_act_inv:
  assumes "do_act a body s = Some s'" and "loop_inv s"
  shows "loop_inv s' \<and> pc s' = pc s \<and>
    (callingPendingFunctors s \<longrightarrow> pendingFunctors s' = pendingFunctors s \<or> wakeups s' > 0) \<and>
    (wakeups s > 0 \<longrightarrow> wakeups s' > 0) \<and> inflight s' = inflight s"
proof (cases a)
  case (QueueInLoop f)
  then show ?thesis using assms by (auto simp: loop_defs loop_inv_def Let_def)
qed (use assms in \<open>auto simp: loop_defs loop_inv_def assertion_def split: if_splits\<close>)

lemma loop_step_inv:
  assumes "loop_step early s s'" and "loop_inv s"
  shows "loop_inv s'"
  using assms(1)
proof cases
  case (act a as body)
  have "loop_inv (s\<lparr>acts := as\<rparr>)" using assms(2) by (simp add: loop_inv_def)
  from do_act_inv [OF act(2) this] show ?thesis by blast
qed (use assms(2) in \<open>auto simp: loop_defs loop_inv_def assertion_def Let_def split: if_splits\<close>)

lemma loop_step_wake:
  assumes "loop_step False s s'" and "loop_inv s" and "wake_inv s"
  shows "wake_inv s'"
  using assms(1)
proof cases
  case (act a as body)
  have "loop_inv (s\<lparr>acts := as\<rparr>)" using assms(2) by (simp add: loop_inv_def)
  note d = do_act_inv [OF act(2) this]
  have p: "in_handling (pc s) \<or> in_calling (pc s)" using act(1) assms(3) by (simp add: wake_inv_def)
  then have "pc s \<noteq> Polling" by auto
  moreover have "pendingFunctors s' \<noteq> [] \<longrightarrow> in_handling (pc s') \<or> waking s'"
  proof (cases "in_handling (pc s)")
    case False
    with p have "callingPendingFunctors s" using assms(2) by (simp add: loop_inv_def)
    with d False assms(3) show ?thesis by (auto simp: wake_inv_def waking_def)
  qed (use d in simp)
  ultimately show ?thesis using d p by (simp add: wake_inv_def)
next
  case other_wakeup
  with assms(3) show ?thesis by (simp add: wake_inv_def waking_def)
qed (use assms(2,3) in \<open>auto simp: loop_defs loop_inv_def wake_inv_def waking_def assertion_def Let_def
      split: if_splits\<close>)

lemma loop_reachable:
  assumes "(loop_step early)\<^sup>*\<^sup>* s s'" and "loop_inv s"
  shows "loop_inv s'"
  using assms by (induction rule: rtranclp_induct) (blast intro: loop_step_inv)+

lemma loop_reachable_wake:
  assumes "(loop_step False)\<^sup>*\<^sup>* s s'" and "loop_inv s" and "wake_inv s"
  shows "wake_inv s'"
  using assms
proof (induction rule: rtranclp_induct)
  case (step y z)
  then show ?case by (blast intro: loop_step_wake loop_reachable)
qed

section \<open>Properties\<close>

text \<open>C20: Functors queued from any thread are called exactly once and in the order in which they were
  queued, whatever the callbacks and the other threads do; a functor queued while a batch is being called
  waits for the next batch.\<close>

theorem eventloop_functors_fifo:
  assumes "(loop_step early)\<^sup>*\<^sup>* (EventLoop_new w) s"
  shows "called s @ batch (pc s) @ pendingFunctors s = queued s"
  using loop_reachable [OF assms EventLoop_new_inv(1)] by (simp add: loop_inv_def)


definition demo_polling :: "nat event_loop" where
  "demo_polling = (EventLoop_new 0)\<lparr>looping := True, pc := Polling\<rparr>"

lemma demo_polling_reachable: "(loop_step early)\<^sup>*\<^sup>* (EventLoop_new 0) demo_polling"
proof -
  let ?s1 = "(EventLoop_new 0)\<lparr>looping := True, quit := False, pc := Check\<rparr>"
  have "loop_step early (EventLoop_new 0) ?s1"
    by (rule start) (simp_all add: EventLoop_new_def loop_start_def assertion_def)
  moreover have "loop_step early ?s1 (loop_check ?s1)" by (rule check) simp
  moreover have "loop_check ?s1 = demo_polling"
    by (simp add: loop_check_def demo_polling_def EventLoop_new_def)
  ultimately show ?thesis by (metis converse_rtranclp_into_rtranclp r_into_rtranclp)
qed

lemma demo_pushed:
  "(loop_step early)\<^sup>*\<^sup>* (EventLoop_new 0) ((el_push (5 :: nat) demo_polling)\<lparr>inflight := 1\<rparr>)"
  using rtranclp.rtrancl_into_rtrancl [OF demo_polling_reachable other_push [of early demo_polling 5]]
  by (simp add: demo_polling_def EventLoop_new_def)

theorem eventloop_functors_fifo_witness:
  "\<exists>s :: nat event_loop. (loop_step True)\<^sup>*\<^sup>* (EventLoop_new 0) s \<and> queued s = [5] \<and>
     called s @ batch (pc s) @ pendingFunctors s = [5]"
  using eventloop_functors_fifo [OF demo_pushed] demo_pushed
  by (intro exI [of _ "(el_push 5 demo_polling)\<lparr>inflight := 1\<rparr>"])
    (simp add: el_push_def demo_polling_def EventLoop_new_def)


text \<open>What the owner thread does before \<open>loop()\<close> can be lost: a functor it queues then is not
  announced on the \<open>eventfd\<close>, so that the loop sleeps in \<open>poll\<close> with the functor pending and nothing to
  wake it, and a \<open>quit()\<close> before \<open>loop()\<close> is overwritten when \<open>loop()\<close> starts.\<close>

theorem eventloop_early_calls_lost:
  "(\<exists>s. (loop_step True)\<^sup>*\<^sup>* (EventLoop_new w) s \<and> pc s = Polling \<and> pendingFunctors s = [f] \<and>
      wakeups s = 0 \<and> inflight s = 0) \<and>
   (\<exists>s. loop_start (el_quit True (EventLoop_new w)) = Some s \<and> \<not> quit s)"
proof (rule conjI)
  let ?s0 = "EventLoop_new w"
  let ?s1 = "?s0\<lparr>acts := [QueueInLoop f]\<rparr>"
  let ?s2 = "el_queueInLoop True f ?s0"
  let ?s3 = "?s2\<lparr>looping := True, quit := False, pc := Check\<rparr>"
  have "loop_step True ?s0 ?s1" by (rule owner) (simp_all add: EventLoop_new_def)
  moreover have "loop_step True ?s1 ?s2"
    by (rule act [where a = "QueueInLoop f" and as = "[]" and body = "[]"]) (simp_all add: EventLoop_new_def)
  moreover have "loop_step True ?s2 ?s3"
    by (rule start) (simp_all add: EventLoop_new_def loop_defs assertion_def)
  moreover have "loop_step True ?s3 (loop_check ?s3)" by (rule check) simp
  ultimately have "(loop_step True)\<^sup>*\<^sup>* ?s0 (loop_check ?s3)" by auto
  moreover have "pc (loop_check ?s3) = Polling" "pendingFunctors (loop_check ?s3) = [f]"
    "wakeups (loop_check ?s3) = 0" "inflight (loop_check ?s3) = 0"
    by (simp_all add: loop_defs EventLoop_new_def)
  ultimately show "\<exists>s. (loop_step True)\<^sup>*\<^sup>* ?s0 s \<and> pc s = Polling \<and> pendingFunctors s = [f] \<and>
      wakeups s = 0 \<and> inflight s = 0" by blast
  show "\<exists>s. loop_start (el_quit True ?s0) = Some s \<and> \<not> quit s"
    by (simp add: loop_defs EventLoop_new_def assertion_def)
qed

end
