(* ===== verification/Muduo_Connector.thy ===== *)
theory Muduo_Connector
  imports Muduo_Channel "HOL-Library.Multiset"
begin

text \<open>
  \<open>Connector\<close> (\<open>muduo/net/Connector.h\<close>, \<open>Connector.cc\<close>): a non-blocking \<open>connect\<close> with retries at
  growing delays.

  The socket calls are parameters: the descriptor \<open>socket\<close> returns, the \<open>errno\<close> of \<open>connect\<close> (\<open>0\<close> when it
  succeeds), and \<open>probe\<close>, the pair of the pending socket error and of whether the socket is connected to
  itself. \<open>startTimers\<close> holds the delays of the outstanding \<open>runAfter(..., startInLoop)\<close>, \<open>connFunctors\<close> the
  functors queued in the loop. \<open>created\<close>, \<open>closedFds\<close> and \<open>delivered\<close> record the descriptors made, closed
  and handed to the new-connection callback, \<open>retries\<close> the delays used since the last \<open>restart\<close>. A failed
  assertion (or the use of a null \<open>channel_\<close>) is \<open>None\<close>.
\<close>

section \<open>State\<close>

datatype States = kDisconnected | kConnecting | kConnected

datatype connector_functor = StartInLoop | StopInLoop | ResetChannel

definition kMaxRetryDelayMs :: int where
  "kMaxRetryDelayMs = 30 * 1000"

definition kInitRetryDelayMs :: int where
  "kInitRetryDelayMs = 500"

record connector =
  connectFlag :: bool
  connState :: States
  ctorChannel :: "channel option"
  retryDelayMs :: int
  startTimers :: "int list"
  connFunctors :: "connector_functor list"
  created :: "int list"
  closedFds :: "int list"
  delivered :: "int list"
  retries :: "int list"

definition Connector_new :: connector where
  "Connector_new =
     \<lparr>connectFlag = False, connState = kDisconnected, ctorChannel = None, retryDelayMs = kInitRetryDelayMs,
      startTimers = [], connFunctors = [], created = [], closedFds = [], delivered = [], retries = []\<rparr>"

section \<open>Operations\<close>

definition close_fd :: "int \<Rightarrow> connector \<Rightarrow> connector" where
  "close_fd sockfd s = s\<lparr>closedFds := closedFds s @ [sockfd]\<rparr>"

definition connector_retry :: "int \<Rightarrow> connector \<Rightarrow> connector" where
  "connector_retry sockfd s =
     (let s1 = (close_fd sockfd s)\<lparr>connState := kDisconnected\<rparr>
      in if connectFlag s1
         then s1\<lparr>startTimers := startTimers s1 @ [retryDelayMs s1], retries := retries s1 @ [retryDelayMs s1],
                retryDelayMs := min (retryDelayMs s1 * 2) kMaxRetryDelayMs\<rparr>
         else s1)"

definition connecting :: "int \<Rightarrow> connector \<Rightarrow> connector option" where
  "connecting sockfd s =
     (let s1 = s\<lparr>connState := kConnecting\<rparr>
      in do { assertion (ctorChannel s1 = None);
              Some (s1\<lparr>ctorChannel := Some ((Channel_new sockfd)\<lparr>hasWriteCallback := True, hasErrorCallback := True,
                events := new_events (EnableWriting 0) 0\<rparr>)\<rparr>) })"

text \<open>The three groups of \<open>errno\<close> values of \<open>connect()\<close>, by their Linux numbers.\<close>

datatype connect_action = ActConnecting | ActRetry | ActClose

definition connect_outcome :: "int \<Rightarrow> connect_action" where
  "connect_outcome savedErrno =
     (if savedErrno \<in> {0, 115, 4, 106} then ActConnecting
      else if savedErrno \<in> {11, 98, 99, 111, 101} then ActRetry
      else ActClose)"

definition connector_connect :: "int \<Rightarrow> int \<Rightarrow> connector \<Rightarrow> connector option" where
  "connector_connect sockfd savedErrno s =
     (let s1 = s\<lparr>created := created s @ [sockfd]\<rparr>
      in (case connect_outcome savedErrno of
            ActConnecting \<Rightarrow> connecting sockfd s1
          | ActRetry \<Rightarrow> Some (connector_retry sockfd s1)
          | ActClose \<Rightarrow> Some (close_fd sockfd s1)))"

definition startInLoop :: "int \<Rightarrow> int \<Rightarrow> connector \<Rightarrow> connector option" where
  "startInLoop sockfd savedErrno s =
     do { assertion (connState s = kDisconnected);
          if connectFlag s then connector_connect sockfd savedErrno s else Some s }"

definition connector_start :: "bool \<Rightarrow> int \<Rightarrow> int \<Rightarrow> connector \<Rightarrow> connector option" where
  "connector_start inLoopThread sockfd savedErrno s =
     (let s1 = s\<lparr>connectFlag := True\<rparr>
      in if inLoopThread then startInLoop sockfd savedErrno s1
         else Some (s1\<lparr>connFunctors := connFunctors s1 @ [StartInLoop]\<rparr>))"

definition removeAndResetChannel :: "connector \<Rightarrow> (int \<times> connector) option" where
  "removeAndResetChannel s =
     (case ctorChannel s of
        None \<Rightarrow> None
      | Some ch \<Rightarrow>
          Some (fd ch, s\<lparr>ctorChannel := Some (ch\<lparr>events := new_events (DisableAll 0) (events ch)\<rparr>),
                         connFunctors := connFunctors s @ [ResetChannel]\<rparr>))"

definition resetChannel :: "connector \<Rightarrow> connector" where
  "resetChannel s = s\<lparr>ctorChannel := None\<rparr>"

definition stopInLoop :: "connector \<Rightarrow> connector option" where
  "stopInLoop s =
     (if connState s = kConnecting
      then do { (sockfd, s1) \<leftarrow> removeAndResetChannel (s\<lparr>connState := kDisconnected\<rparr>);
                Some (connector_retry sockfd s1) }
      else Some s)"

definition connector_stop :: "bool \<Rightarrow> connector \<Rightarrow> connector option" where
  "connector_stop inLoopThread s =
     (let s1 = s\<lparr>connectFlag := False\<rparr>
      in if inLoopThread then stopInLoop s1
         else Some (s1\<lparr>connFunctors := connFunctors s1 @ [StopInLoop]\<rparr>))"

definition connector_restart :: "int \<Rightarrow> int \<Rightarrow> connector \<Rightarrow> connector option" where
  "connector_restart sockfd savedErrno s =
     startInLoop sockfd savedErrno
       (s\<lparr>connState := kDisconnected, retryDelayMs := kInitRetryDelayMs, connectFlag := True, retries := []\<rparr>)"

definition connector_handleWrite :: "int \<times> bool \<Rightarrow> connector \<Rightarrow> connector option" where
  "connector_handleWrite probe s =
     (if connState s = kConnecting
      then do { (sockfd, s1) \<leftarrow> removeAndResetChannel s;
                if fst probe \<noteq> 0 then Some (connector_retry sockfd s1)
                else if snd probe then Some (connector_retry sockfd s1)
                else let s2 = s1\<lparr>connState := kConnected\<rparr>
                     in if connectFlag s2 then Some (s2\<lparr>delivered := delivered s2 @ [sockfd]\<rparr>)
                        else Some (close_fd sockfd s2) }
      else do { assertion (connState s = kDisconnected); Some s })"

definition connector_handleError :: "connector \<Rightarrow> connector option" where
  "connector_handleError s =
     do { assertion (connState s = kConnecting);
          (sockfd, s1) \<leftarrow> removeAndResetChannel s;
          Some (connector_retry sockfd s1) }"

text \<open>The channel's callbacks, in the order \<open>handleEvent\<close> calls them.\<close>

fun connector_callbacks :: "int \<times> bool \<Rightarrow> chan_call list \<Rightarrow> connector \<Rightarrow> connector option" where
  "connector_callbacks probe [] s = Some s"
| "connector_callbacks probe (ErrorCallback # cs) s =
     do { s1 \<leftarrow> connector_handleError s; connector_callbacks probe cs s1 }"
| "connector_callbacks probe (WriteCallback # cs) s =
     do { s1 \<leftarrow> connector_handleWrite probe s; connector_callbacks probe cs s1 }"
| "connector_callbacks probe (_ # cs) s = connector_callbacks probe cs s"

definition connector_event :: "events \<Rightarrow> Timestamp \<Rightarrow> int \<times> bool \<Rightarrow> connector \<Rightarrow> connector option" where
  "connector_event revt t probe s =
     (case ctorChannel s of
        None \<Rightarrow> Some s
      | Some ch \<Rightarrow> connector_callbacks probe (handleEvent (ch\<lparr>revents := revt\<rparr>) t) s)"

fun run_connector_functor :: "connector_functor \<Rightarrow> int \<Rightarrow> int \<Rightarrow> connector \<Rightarrow> connector option" where
  "run_connector_functor StartInLoop sockfd savedErrno s = startInLoop sockfd savedErrno s"
| "run_connector_functor StopInLoop sockfd savedErrno s = stopInLoop s"
| "run_connector_functor ResetChannel sockfd savedErrno s = Some (resetChannel s)"

section \<open>Steps\<close>

text \<open>How the client uses it: \<open>start\<close> and \<open>restart\<close> only when no attempt is in progress, \<open>stop\<close> at any
  time from any thread. The loop calls the queued functors before it looks at the timers again, so a timer
  does not fire while \<open>resetChannel\<close> is queued.\<close>

definition idle :: "connector \<Rightarrow> bool" where
  "idle s \<longleftrightarrow> ctorChannel s = None \<and> startTimers s = [] \<and> StartInLoop \<notin> set (connFunctors s)"

datatype connector_op =
  OpStart bool int int | OpRestart int int | OpStop bool | OpTimeout int int int
  | OpFunctor connector_functor "connector_functor list" int int | OpEvent events Timestamp "int \<times> bool"

fun op_enabled :: "connector_op \<Rightarrow> connector \<Rightarrow> bool" where
  "op_enabled (OpStart b sockfd e) s \<longleftrightarrow> idle s \<and> connState s = kDisconnected"
| "op_enabled (OpRestart sockfd e) s \<longleftrightarrow> idle s"
| "op_enabled (OpStop b) s \<longleftrightarrow> True"
| "op_enabled (OpTimeout d sockfd e) s \<longleftrightarrow> d \<in> set (startTimers s) \<and> ResetChannel \<notin> set (connFunctors s)"
| "op_enabled (OpFunctor f fs sockfd e) s \<longleftrightarrow> connFunctors s = f # fs"
| "op_enabled (OpEvent revt t probe) s \<longleftrightarrow> connState s = kConnecting"

fun op_run :: "connector_op \<Rightarrow> connector \<Rightarrow> connector option" where
  "op_run (OpStart b sockfd e) s = connector_start b sockfd e s"
| "op_run (OpRestart sockfd e) s = connector_restart sockfd e s"
| "op_run (OpStop b) s = connector_stop b s"
| "op_run (OpTimeout d sockfd e) s = startInLoop sockfd e (s\<lparr>startTimers := remove1 d (startTimers s)\<rparr>)"
| "op_run (OpFunctor f fs sockfd e) s = run_connector_functor f sockfd e (s\<lparr>connFunctors := fs\<rparr>)"
| "op_run (OpEvent revt t probe) s = connector_event revt t probe s"

inductive connector_step :: "connector \<Rightarrow> connector \<Rightarrow> bool" where
  step: "op_enabled op s \<Longrightarrow> op_run op s = Some s' \<Longrightarrow> connector_step s s'"

inductive_simps connector_step_iff: "connector_step s s'"

section \<open>The invariant\<close>

text \<open>At most one attempt is on its way (a queued start, a timer, a socket being connected or connected);
  the channel outlives the attempt exactly until the queued \<open>resetChannel\<close>.\<close>

definition attempts :: "connector \<Rightarrow> nat" where
  "attempts s = length (startTimers s) + count_list (connFunctors s) StartInLoop +
     (if connState s = kDisconnected then 0 else 1)"

definition attempt_inv :: "connector \<Rightarrow> bool" where
  "attempt_inv s \<longleftrightarrow>
     attempts s \<le> 1 \<and>
     count_list (connFunctors s) ResetChannel =
       (if ctorChannel s \<noteq> None \<and> connState s \<noteq> kConnecting then 1 else 0) \<and>
     (connState s = kConnecting \<longrightarrow>
        (\<exists>ch. ctorChannel s = Some ch \<and> hasWriteCallback ch \<and> hasErrorCallback ch \<and> \<not> hasReadCallback ch \<and>
           \<not> hasCloseCallback ch \<and> \<not> tied ch)) \<and>
     (StartInLoop \<in> set (connFunctors s) \<longrightarrow> ctorChannel s = None)"

text \<open>Where the descriptors are, and the delays of the retries.\<close>

definition connecting_fd :: "connector \<Rightarrow> int multiset" where
  "connecting_fd s =
     (case ctorChannel s of Some ch \<Rightarrow> if connState s = kConnecting then {#fd ch#} else {#} | None \<Rightarrow> {#})"

definition fd_inv :: "connector \<Rightarrow> bool" where
  "fd_inv s \<longleftrightarrow> mset (created s) = mset (closedFds s) + mset (delivered s) + connecting_fd s"

definition backoff :: "nat \<Rightarrow> int" where
  "backoff n = min (500 * 2 ^ n) 30000"

definition backoff_inv :: "connector \<Rightarrow> bool" where
  "backoff_inv s \<longleftrightarrow>
     retries s = map backoff [0..<length (retries s)] \<and> retryDelayMs s = backoff (length (retries s))"

definition connector_inv :: "connector \<Rightarrow> bool" where
  "connector_inv s \<longleftrightarrow> attempt_inv s \<and> fd_inv s \<and> backoff_inv s"

lemma backoff_Suc: "min (backoff n * 2) 30000 = backoff (Suc n)"
  by (auto simp: backoff_def min_def)

lemma Connector_new_inv [simp]: "connector_inv Connector_new"
  by (simp add: connector_inv_def attempt_inv_def attempts_def fd_inv_def connecting_fd_def backoff_inv_def
      backoff_def Connector_new_def kInitRetryDelayMs_def)

lemma attempts_none:
  assumes "attempt_inv s" and "startTimers s \<noteq> [] \<or> StartInLoop \<in> set (connFunctors s)"
  shows "connState s = kDisconnected" and
    "startTimers s \<noteq> [] \<Longrightarrow> length (startTimers s) = 1 \<and> StartInLoop \<notin> set (connFunctors s)" and
    "StartInLoop \<in> set (connFunctors s) \<Longrightarrow> startTimers s = [] \<and> count_list (connFunctors s) StartInLoop = 1"
  using assms count_list_0_iff [of "connFunctors s" StartInLoop]
  by (cases "startTimers s"; auto simp: attempt_inv_def attempts_def split: if_splits)+

lemmas connector_defs = connector_inv_def attempt_inv_def attempts_def fd_inv_def connecting_fd_def

lemma connector_retry_inv:
  assumes "backoff_inv s"
  shows "backoff_inv (connector_retry sockfd s)"
  using assms backoff_Suc [of "length (retries s)"]
  by (auto simp: backoff_inv_def connector_retry_def close_fd_def Let_def kMaxRetryDelayMs_def)

lemma connector_retry_simps [simp]:
  "connState (connector_retry sockfd s) = kDisconnected"
  "ctorChannel (connector_retry sockfd s) = ctorChannel s"
  "connFunctors (connector_retry sockfd s) = connFunctors s"
  "created (connector_retry sockfd s) = created s"
  "closedFds (connector_retry sockfd s) = closedFds s @ [sockfd]"
  "delivered (connector_retry sockfd s) = delivered s"
  "length (startTimers (connector_retry sockfd s)) =
     length (startTimers s) + (if connectFlag s then 1 else 0)"
  by (simp_all add: connector_retry_def close_fd_def Let_def)

lemma startInLoop_ok:
  assumes "connector_inv s" and "connState s = kDisconnected" and "ctorChannel s = None"
    and "startTimers s = []" and "StartInLoop \<notin> set (connFunctors s)"
  shows "\<exists>s'. startInLoop sockfd e s = Some s' \<and> connector_inv s'"
proof -
  have "count_list (connFunctors s) StartInLoop = 0" using assms(5) by (simp add: count_list_0_iff)
  moreover have "backoff_inv (connector_retry sockfd (s\<lparr>created := created s @ [sockfd]\<rparr>))"
    using assms(1) connector_retry_inv [of "s\<lparr>created := created s @ [sockfd]\<rparr>" sockfd]
    by (simp add: connector_inv_def backoff_inv_def)
  ultimately show ?thesis using assms
    by (auto simp: startInLoop_def connector_connect_def connecting_def close_fd_def assertion_def Let_def
        connector_defs backoff_inv_def Channel_new_def split: connect_action.splits)
qed

lemma removed_retry_ok:
  assumes inv: "connector_inv s" and st: "connState s = kConnecting"
  shows "\<exists>sockfd s1. removeAndResetChannel s = Some (sockfd, s1) \<and> connState s1 = kConnecting \<and>
    connectFlag s1 = connectFlag s \<and>
    connector_inv (connector_retry sockfd s1) \<and> ctorChannel s1 \<noteq> None \<and>
    connector_inv (s1\<lparr>connState := kConnected, delivered := delivered s1 @ [sockfd]\<rparr>) \<and>
    connector_inv (s1\<lparr>connState := kConnected, closedFds := closedFds s1 @ [sockfd]\<rparr>)"
proof -
  obtain ch where ch: "ctorChannel s = Some ch" using inv st by (auto simp: connector_defs)
  have z: "startTimers s = []" "count_list (connFunctors s) StartInLoop = 0"
    "count_list (connFunctors s) ResetChannel = 0"
    using inv st by (auto simp: connector_defs)
  let ?s1 = "s\<lparr>ctorChannel := Some (ch\<lparr>events := new_events (DisableAll 0) (events ch)\<rparr>),
     connFunctors := connFunctors s @ [ResetChannel]\<rparr>"
  have r: "removeAndResetChannel s = Some (fd ch, ?s1)" by (simp add: removeAndResetChannel_def ch)
  have b: "backoff_inv ?s1" using inv by (simp add: connector_inv_def backoff_inv_def)
  have nS: "StartInLoop \<notin> set (connFunctors s)" using z(2) by (simp add: count_list_0_iff)
  have fds: "mset (created s) = mset (closedFds s) + mset (delivered s) + {#fd ch#}"
    using inv st ch by (simp add: connector_defs)
  have "connector_inv (connector_retry (fd ch) ?s1)"
    using connector_retry_inv [OF b] z nS fds by (simp add: connector_defs)
  moreover have "connector_inv (?s1\<lparr>connState := kConnected, delivered := delivered ?s1 @ [fd ch]\<rparr>)"
    "connector_inv (?s1\<lparr>connState := kConnected, closedFds := closedFds ?s1 @ [fd ch]\<rparr>)"
    using b z nS fds by (simp_all add: connector_defs backoff_inv_def)
  ultimately show ?thesis using r st by simp
qed

lemma resetChannel_inv:
  assumes "connector_inv s" and "connFunctors s = ResetChannel # fs"
  shows "connector_inv (resetChannel (s\<lparr>connFunctors := fs\<rparr>))"
  using assms by (auto simp: resetChannel_def connector_defs backoff_inv_def split: if_splits)

lemma stopInLoop_ok:
  assumes "connector_inv s"
  shows "\<exists>s'. stopInLoop s = Some s' \<and> connector_inv s'"
proof (cases "connState s = kConnecting")
  case True
  have r: "removeAndResetChannel (s\<lparr>connState := kDisconnected\<rparr>) =
      map_option (\<lambda>(f, s1). (f, s1\<lparr>connState := kDisconnected\<rparr>)) (removeAndResetChannel s)"
    by (simp add: removeAndResetChannel_def split: option.split)
  have c: "connector_retry f (s1\<lparr>connState := kDisconnected\<rparr>) = connector_retry f s1" for f s1
    by (simp add: connector_retry_def close_fd_def Let_def)
  show ?thesis using removed_retry_ok [OF assms True] True by (auto simp: stopInLoop_def r c)
qed (use assms in \<open>simp add: stopInLoop_def\<close>)

lemma connectFlag_inv [simp]: "connector_inv (s\<lparr>connectFlag := b\<rparr>) \<longleftrightarrow> connector_inv s"
  by (simp add: connector_defs backoff_inv_def cong: option.case_cong)

lemma drop_stop_inv:
  assumes "connector_inv s" and "connFunctors s = StopInLoop # fs"
  shows "connector_inv (s\<lparr>connFunctors := fs\<rparr>)"
  using assms by (auto simp: connector_defs backoff_inv_def cong: option.case_cong)

lemma connector_handleWrite_ok:
  assumes "connector_inv s" and "connState s \<noteq> kConnected"
  shows "\<exists>s'. connector_handleWrite probe s = Some s' \<and> connector_inv s'"
proof (cases "connState s = kConnecting")
  case True
  from removed_retry_ok [OF assms(1) this] show ?thesis using True
    by (auto simp: connector_handleWrite_def close_fd_def Let_def)
next
  case False
  with assms show ?thesis by (cases "connState s") (auto simp: connector_handleWrite_def assertion_def)
qed

lemma connector_handleError_ok:
  assumes "connector_inv s" and "connState s = kConnecting"
  shows "\<exists>s'. connector_handleError s = Some s' \<and> connector_inv s' \<and> connState s' = kDisconnected"
  using removed_retry_ok [OF assms] assms(2) by (auto simp: connector_handleError_def assertion_def)

lemma connector_event_ok:
  assumes "connector_inv s" and "connState s = kConnecting"
  shows "\<exists>s'. connector_event revt t probe s = Some s' \<and> connector_inv s'"
proof -
  obtain ch where ch: "ctorChannel s = Some ch" "hasWriteCallback ch" "hasErrorCallback ch"
    "\<not> hasReadCallback ch" "\<not> hasCloseCallback ch" "\<not> tied ch"
    using assms by (auto simp: connector_defs)
  then consider "handleEvent (ch\<lparr>revents := revt\<rparr>) t = []"
    | "handleEvent (ch\<lparr>revents := revt\<rparr>) t = [ErrorCallback]"
    | "handleEvent (ch\<lparr>revents := revt\<rparr>) t = [WriteCallback]"
    | "handleEvent (ch\<lparr>revents := revt\<rparr>) t = [ErrorCallback, WriteCallback]"
    by (cases "revt AND (POLLERR OR POLLNVAL) = 0"; cases "revt AND POLLOUT = 0")
      (simp_all add: handleEvent_def handleEventWithGuard_def)
  then show ?thesis
  proof cases
    case 1
    with assms ch(1) show ?thesis by (simp add: connector_event_def)
  next
    case 2
    with connector_handleError_ok [OF assms] ch(1) show ?thesis by (auto simp: connector_event_def)
  next
    case 3
    obtain s1 where "connector_handleWrite probe s = Some s1" "connector_inv s1"
      using connector_handleWrite_ok [OF assms(1), of probe] assms(2) by auto
    with 3 ch(1) show ?thesis by (simp add: connector_event_def)
  next
    case 4
    from connector_handleError_ok [OF assms] obtain s1 where
      s1: "connector_handleError s = Some s1" "connector_inv s1" "connState s1 = kDisconnected" by blast
    then obtain s2 where "connector_handleWrite probe s1 = Some s2" "connector_inv s2"
      using connector_handleWrite_ok [of s1 probe] by auto
    with 4 s1 ch(1) show ?thesis by (simp add: connector_event_def)
  qed
qed

lemma op_ok:
  assumes inv: "connector_inv s" and en: "op_enabled op s"
  shows "\<exists>s'. op_run op s = Some s' \<and> connector_inv s'"
proof (cases op)
  case (OpStart b sockfd e)
  have en': "ctorChannel s = None" "startTimers s = []" "StartInLoop \<notin> set (connFunctors s)"
    "connState s = kDisconnected" using en OpStart by (auto simp: idle_def)
  have "connector_inv (s\<lparr>connectFlag := True, connFunctors := connFunctors s @ [StartInLoop]\<rparr>)"
    using inv en' by (simp add: connector_defs backoff_inv_def cong: option.case_cong)
  moreover have "\<exists>s'. startInLoop sockfd e (s\<lparr>connectFlag := True\<rparr>) = Some s' \<and> connector_inv s'"
    using inv en' by (intro startInLoop_ok) auto
  ultimately show ?thesis using OpStart by (simp add: connector_start_def Let_def)
next
  case (OpRestart sockfd e)
  have "connector_inv (s\<lparr>connState := kDisconnected, retryDelayMs := kInitRetryDelayMs, connectFlag := True,
      retries := []\<rparr>)"
    using inv en OpRestart
    by (auto simp: idle_def connector_defs backoff_inv_def kInitRetryDelayMs_def backoff_def split: if_splits)
  from startInLoop_ok [OF this] show ?thesis
    using OpRestart en by (simp add: connector_restart_def idle_def)
next
  case (OpStop b)
  have "connector_inv (s\<lparr>connectFlag := False, connFunctors := connFunctors s @ [StopInLoop]\<rparr>)"
    using inv by (auto simp: connector_defs backoff_inv_def cong: option.case_cong)
  with stopInLoop_ok [of "s\<lparr>connectFlag := False\<rparr>"] inv OpStop show ?thesis
    by (simp add: connector_stop_def Let_def)
next
  case (OpTimeout d sockfd e)
  have d: "d \<in> set (startTimers s)" "ResetChannel \<notin> set (connFunctors s)" using en OpTimeout by auto
  then have ne: "startTimers s \<noteq> []" by auto
  have at: "attempt_inv s" using inv by (simp add: connector_inv_def)
  note a = attempts_none [OF at] ne
  have one: "remove1 d (startTimers s) = []"
    using d(1) a(2) ne by (cases "startTimers s") auto
  have z: "count_list (connFunctors s) ResetChannel = 0" using d(2) by (simp add: count_list_0_iff)
  have none: "ctorChannel s = None"
    using z a(1) ne at by (auto simp: attempt_inv_def split: if_splits)
  have "connector_inv (s\<lparr>startTimers := []\<rparr>)"
    using inv none by (simp add: connector_defs backoff_inv_def split: if_splits)
  with startInLoop_ok [of "s\<lparr>startTimers := []\<rparr>"] a(1,2) ne none OpTimeout one show ?thesis by simp
next
  case (OpFunctor f fs sockfd e)
  then have fs: "connFunctors s = f # fs" using en by simp
  show ?thesis
  proof (cases f)
    case StartInLoop
    have at: "attempt_inv s" using inv by (simp add: connector_inv_def)
    have mem: "StartInLoop \<in> set (connFunctors s)" using fs StartInLoop by simp
    note a = attempts_none(1) [OF at disjI2 [OF mem]] attempts_none(3) [OF at disjI2 [OF mem] mem]
    have "StartInLoop \<notin> set fs" using a fs StartInLoop by (simp add: count_list_0_iff [symmetric])
    moreover have "ctorChannel s = None" using at mem by (simp add: attempt_inv_def)
    moreover have "connector_inv (s\<lparr>connFunctors := fs\<rparr>)"
      using inv fs StartInLoop a(1) \<open>ctorChannel s = None\<close> by (auto simp: connector_defs backoff_inv_def)
    ultimately show ?thesis
      using startInLoop_ok [of "s\<lparr>connFunctors := fs\<rparr>"] a OpFunctor StartInLoop by simp
  next
    case StopInLoop
    with stopInLoop_ok [OF drop_stop_inv [OF inv]] fs OpFunctor show ?thesis by simp
  next
    case ResetChannel
    with resetChannel_inv [OF inv] fs OpFunctor show ?thesis by simp
  qed
next
  case (OpEvent revt t probe)
  with connector_event_ok [OF inv] en show ?thesis by simp
qed

lemma connector_reachable:
  assumes "connector_step\<^sup>*\<^sup>* Connector_new s"
  shows "connector_inv s"
  using assms
proof (induction rule: rtranclp_induct)
  case (step y z)
  from step(2) obtain op where "op_enabled op y" "op_run op y = Some z"
    unfolding connector_step_iff by blast
  with op_ok [OF step(3)] show ?case by fastforce
qed simp

section \<open>Properties\<close>


text \<open>No descriptor leaks and none is closed twice: every socket the connector has created has been closed once,
  or handed to the new-connection callback once and never closed, or is the one being connected. The
  delays of the retries since the last restart are 0.5 s, 1 s, 2 s and so on, up to 30 s.\<close>

theorem connector_fds_and_backoff:
  assumes "connector_step\<^sup>*\<^sup>* Connector_new s"
  shows "mset (created s) = mset (closedFds s) + mset (delivered s) + connecting_fd s \<and>
    retries s = map (\<lambda>n. min (500 * 2 ^ n) 30000) [0..<length (retries s)]"
  using connector_reachable [OF assms]
  by (simp add: connector_inv_def fd_inv_def backoff_inv_def backoff_def [abs_def])

text \<open>Starting again after \<open>stop\<close> is not safe. When the loop thread stops an attempt in progress and starts
  again, the assertion \<open>!channel_\<close> fails, because the old channel waits for its queued reset; and a start while
  a retry timer is outstanding (\<open>stop\<close> does not cancel it) makes the timer's \<open>startInLoop\<close> fail its assertion
  if the new attempt is still connecting.\<close>

theorem connector_start_again_aborts:
  assumes "connector_step\<^sup>*\<^sup>* Connector_new s" and "connect_outcome e = ActConnecting"
  shows "(connState s = kConnecting \<longrightarrow>
      Option.bind (connector_stop True s) (connector_start True sockfd e) = None) \<and>
    (d \<in> set (startTimers s) \<longrightarrow>
      Option.bind (connector_start True sockfd e s) (op_run (OpTimeout d sockfd' e')) = None)"
proof -
  have inv: "connector_inv s" by (rule connector_reachable [OF assms(1)])
  have "Option.bind (connector_stop True s) (connector_start True sockfd e) = None"
    if "connState s = kConnecting"
  proof -
    have "connector_inv (s\<lparr>connectFlag := False\<rparr>)" using inv by simp
    from removed_retry_ok [OF this] that obtain f s1 where
      r: "removeAndResetChannel (s\<lparr>connectFlag := False\<rparr>) = Some (f, s1)" "ctorChannel s1 \<noteq> None" by auto
    have "removeAndResetChannel (s\<lparr>connectFlag := False, connState := kDisconnected\<rparr>) =
        Some (f, s1\<lparr>connState := kDisconnected\<rparr>)"
      using r(1) by (auto simp: removeAndResetChannel_def split: option.splits)
    with r that assms(2) show ?thesis
      by (simp add: connector_stop_def stopInLoop_def connector_start_def startInLoop_def
          connector_connect_def connecting_def assertion_def Let_def)
  qed
  moreover have "Option.bind (connector_start True sockfd e s) (op_run (OpTimeout d sockfd' e')) = None"
    if "d \<in> set (startTimers s)"
    using assms(2)
    by (auto simp: connector_start_def startInLoop_def connector_connect_def connecting_def assertion_def
        Let_def)
  ultimately show ?thesis by blast
qed

text \<open>A refused and a pending first attempt.\<close>

definition demo_started :: "int \<Rightarrow> connector" where
  "demo_started e = the (connector_start True 7 e Connector_new)"

lemma demo_started_fields:
  "connector_start True 7 111 Connector_new = Some (demo_started 111)"
  "created (demo_started 111) = [7]" "closedFds (demo_started 111) = [7]" "delivered (demo_started 111) = []"
  "startTimers (demo_started 111) = [500]" "connState (demo_started 111) = kDisconnected"
  "connFunctors (demo_started 111) = []"
  "connector_start True 7 115 Connector_new = Some (demo_started 115)"
  "connState (demo_started 115) = kConnecting"
  by (simp_all add: demo_started_def connector_start_def startInLoop_def connector_connect_def connecting_def
      connect_outcome_def connector_retry_def close_fd_def assertion_def Connector_new_def
      kInitRetryDelayMs_def Let_def)

lemma demo_started_reachable:
  "connector_step\<^sup>*\<^sup>* Connector_new (demo_started 111)" "connector_step\<^sup>*\<^sup>* Connector_new (demo_started 115)"
  using connector_step.step [of "OpStart True 7 111" Connector_new "demo_started 111"]
    connector_step.step [of "OpStart True 7 115" Connector_new "demo_started 115"] demo_started_fields(1,8)
  by (auto simp: idle_def Connector_new_def)


theorem connector_fds_and_backoff_witness:
  "mset (created (demo_started 111)) = mset (closedFds (demo_started 111)) +
     mset (delivered (demo_started 111)) + connecting_fd (demo_started 111)"
  using connector_fds_and_backoff [OF demo_started_reachable(1)] by blast

theorem connector_start_again_aborts_witness:
  "Option.bind (connector_stop True (demo_started 115)) (connector_start True 9 115) = None \<and>
   Option.bind (connector_start True 9 115 (demo_started 111)) (op_run (OpTimeout 500 10 0)) = None"
  using connector_start_again_aborts [OF demo_started_reachable(2), of 115 9 0 0 0]
    connector_start_again_aborts [OF demo_started_reachable(1), of 115 9 500 10 0]
  by (simp add: demo_started_fields connect_outcome_def)

end
