(* ===== verification/Muduo_LogStream.thy ===== *)
theory Muduo_LogStream
  imports Muduo_Prelude "HOL-Library.Signed_Division"
begin

text \<open>
  \<open>FixedBuffer\<close>, the integer formatting and \<open>LogStream\<close> (\<open>muduo/base/LogStream.h\<close>, \<open>LogStream.cc\<close>).

  A \<open>FixedBuffer<SIZE>\<close> is its array (of \<open>SIZE\<close> bytes) and the offset of \<open>cur_\<close>. Writing past the end of
  the array is undefined behaviour and \<open>None\<close> here, also for the direct writes that the formatting
  functions make through \<open>current()\<close>. The \<open>double\<close> formatting is the library's \<open>snprintf\<close>: its text is a
  parameter.
\<close>

section \<open>FixedBuffer\<close>

record fixed_buffer =
  fbData :: "char list"
  fbCur :: nat

definition kSmallBuffer :: nat where
  "kSmallBuffer = 4000"

definition kLargeBuffer :: nat where
  "kLargeBuffer = 4000 * 1000"

definition FixedBuffer_new :: "nat \<Rightarrow> fixed_buffer" where
  "FixedBuffer_new SIZE = \<lparr>fbData = replicate SIZE NUL, fbCur = 0\<rparr>"

definition fb_length :: "fixed_buffer \<Rightarrow> nat" where
  "fb_length b = fbCur b"

definition fb_avail :: "fixed_buffer \<Rightarrow> nat" where
  "fb_avail b = length (fbData b) - fbCur b"

definition fb_add :: "nat \<Rightarrow> fixed_buffer \<Rightarrow> fixed_buffer" where
  "fb_add len b = b\<lparr>fbCur := fbCur b + len\<rparr>"

text \<open>A write through \<open>current()\<close>.\<close>

definition fb_write :: "char list \<Rightarrow> fixed_buffer \<Rightarrow> fixed_buffer option" where
  "fb_write cs b = map_option (\<lambda>d. b\<lparr>fbData := d\<rparr>) (copy_to (fbData b) (fbCur b) cs)"

definition fb_append :: "char list \<Rightarrow> fixed_buffer \<Rightarrow> fixed_buffer option" where
  "fb_append buf b =
     (if fb_avail b > length buf
      then map_option (fb_add (length buf)) (fb_write buf b)
      else Some b)"

definition fb_reset :: "fixed_buffer \<Rightarrow> fixed_buffer" where
  "fb_reset b = b\<lparr>fbCur := 0\<rparr>"

definition fb_bzero :: "fixed_buffer \<Rightarrow> fixed_buffer" where
  "fb_bzero b = b\<lparr>fbData := replicate (length (fbData b)) NUL\<rparr>"

definition asString :: "fixed_buffer \<Rightarrow> string" where
  "asString b = take (fbCur b) (fbData b)"

definition fb_inv :: "nat \<Rightarrow> fixed_buffer \<Rightarrow> bool" where
  "fb_inv SIZE b \<longleftrightarrow> length (fbData b) = SIZE \<and> fbCur b \<le> SIZE"

lemmas fb_defs = fb_length_def fb_avail_def fb_add_def fb_write_def fb_append_def fb_reset_def fb_bzero_def
  asString_def fb_inv_def

lemma FixedBuffer_new_ok [simp]:
  "fb_inv SIZE (FixedBuffer_new SIZE)" "asString (FixedBuffer_new SIZE) = []"
  "fb_length (FixedBuffer_new SIZE) = 0" "fb_avail (FixedBuffer_new SIZE) = SIZE"
  by (simp_all add: fb_defs FixedBuffer_new_def)

lemma fb_reset_ok [simp]:
  "fb_inv SIZE b \<Longrightarrow> fb_inv SIZE (fb_reset b)" "asString (fb_reset b) = []" "fb_length (fb_reset b) = 0"
  by (simp_all add: fb_defs)

lemma asString_length: "fb_inv SIZE b \<Longrightarrow> length (asString b) = fb_length b"
  by (simp add: fb_defs)

lemma asString_avail: "fb_inv SIZE b \<Longrightarrow> fb_avail b = SIZE - length (asString b)"
  by (simp add: fb_defs)

text \<open>A direct write of \<open>cs\<close> followed by anything that still fits, then \<open>add\<close>.\<close>

lemma fb_write_add:
  assumes "fb_inv SIZE b" and "length cs + length rest \<le> fb_avail b"
  shows "\<exists>b1. fb_write (cs @ rest) b = Some b1 \<and> fb_inv SIZE (fb_add (length cs) b1) \<and>
    asString (fb_add (length cs) b1) = asString b @ cs"
  using assms by (auto simp: fb_defs copy_to_def)

lemma fb_append_fits:
  assumes "fb_inv SIZE b" and "length buf < fb_avail b"
  shows "\<exists>b1. fb_append buf b = Some b1 \<and> fb_inv SIZE b1 \<and> asString b1 = asString b @ buf"
  using assms fb_write_add [OF assms(1), of buf "[]"] by (auto simp: fb_append_def)

lemma fb_append_dropped:
  "fb_avail b \<le> length buf \<Longrightarrow> fb_append buf b = Some b"
  by (simp add: fb_append_def)

lemma fb_append_ok:
  assumes "fb_inv SIZE b"
  shows "\<exists>b1. fb_append buf b = Some b1 \<and> fb_inv SIZE b1 \<and>
    asString b1 = asString b @ (if length buf < fb_avail b then buf else [])"
  using fb_append_fits [OF assms] fb_append_dropped [of b buf] assms
  by (cases "length buf < fb_avail b") auto

section \<open>Integers to text\<close>

definition digits :: string where
  "digits = ''9876543210123456789''"

definition digitsHex :: string where
  "digitsHex = ''0123456789ABCDEF''"

text \<open>The \<open>do\<close> loop of \<open>convert\<close>: the digits, least significant first. Division and remainder truncate
  towards zero, so a negative value gives remainders between \<open>-9\<close> and \<open>0\<close>.\<close>

lemma sdiv_10_less: "i sdiv 10 \<noteq> 0 \<Longrightarrow> nat \<bar>i sdiv 10\<bar> < nat \<bar>i\<bar>" for i :: int
  by (auto simp: signed_divide_int_def abs_mult sgn_if split: if_splits)

function convert_digits :: "int \<Rightarrow> string" where
  "convert_digits i =
     (let lsd = i smod 10; i' = i sdiv 10
      in digits ! nat (9 + lsd) # (if i' \<noteq> 0 then convert_digits i' else []))"
  by auto
termination by (relation "measure (\<lambda>i. nat \<bar>i\<bar>)") (auto dest: sdiv_10_less)

declare convert_digits.simps [simp del]

definition convert :: "int \<Rightarrow> string" where
  "convert v = rev (convert_digits v @ (if v < 0 then ''-'' else []))"

function convertHex_digits :: "nat \<Rightarrow> string" where
  "convertHex_digits i =
     (let lsd = i mod 16; i' = i div 16
      in digitsHex ! lsd # (if i' \<noteq> 0 then convertHex_digits i' else []))"
  by auto
termination by (relation "measure id") auto

declare convertHex_digits.simps [simp del]

definition convertHex :: "nat \<Rightarrow> string" where
  "convertHex v = rev (convertHex_digits v)"

section \<open>LogStream\<close>

definition kMaxNumericSize :: nat where
  "kMaxNumericSize = 32"

text \<open>\<open>formatInteger\<close> writes the text and a terminating NUL at \<open>current()\<close>.\<close>

definition formatInteger :: "int \<Rightarrow> fixed_buffer \<Rightarrow> fixed_buffer option" where
  "formatInteger v b =
     (if fb_avail b \<ge> kMaxNumericSize
      then map_option (fb_add (length (convert v))) (fb_write (convert v @ [NUL]) b)
      else Some b)"

definition log_bool :: "bool \<Rightarrow> fixed_buffer \<Rightarrow> fixed_buffer option" where
  "log_bool v b = fb_append (if v then ''1'' else ''0'') b"

definition log_char :: "char \<Rightarrow> fixed_buffer \<Rightarrow> fixed_buffer option" where
  "log_char v b = fb_append [v] b"

text \<open>\<open>const char*\<close>, \<open>string\<close>, \<open>StringPiece\<close>, \<open>Fmt\<close> and \<open>append\<close> all copy their bytes.\<close>

definition log_string :: "string \<Rightarrow> fixed_buffer \<Rightarrow> fixed_buffer option" where
  "log_string v b = fb_append v b"

definition log_pointer :: "nat \<Rightarrow> fixed_buffer \<Rightarrow> fixed_buffer option" where
  "log_pointer v b =
     (if fb_avail b \<ge> kMaxNumericSize
      then map_option (fb_add (length (convertHex v) + 2)) (fb_write (''0x'' @ convertHex v @ [NUL]) b)
      else Some b)"

text \<open>\<open>snprintf\<close> writes at most \<open>kMaxNumericSize - 1\<close> bytes of the text and returns its full length.\<close>

definition log_double :: "string \<Rightarrow> fixed_buffer \<Rightarrow> fixed_buffer option" where
  "log_double text b =
     (if fb_avail b \<ge> kMaxNumericSize
      then map_option (fb_add (length text)) (fb_write (take (kMaxNumericSize - 1) text @ [NUL]) b)
      else Some b)"

section \<open>Correctness of the conversions\<close>

text \<open>The reference: digits of a number in base \<open>b\<close>, least significant first.\<close>

lemma div_less_self: "n div b \<noteq> 0 \<Longrightarrow> 2 \<le> b \<Longrightarrow> n div b < n" for n b :: nat
  by (cases n) auto

function digits_rev :: "nat \<Rightarrow> nat \<Rightarrow> nat list" where
  "digits_rev b n = n mod b # (if n div b \<noteq> 0 \<and> 2 \<le> b then digits_rev b (n div b) else [])"
  by auto
termination by (relation "measure snd") (auto intro!: div_less_self)

declare digits_rev.simps [simp del]

definition digit_char :: "nat \<Rightarrow> char" where
  "digit_char d = (if d < 10 then char_of (48 + d) else char_of (55 + d))"

definition number_text :: "nat \<Rightarrow> nat \<Rightarrow> string" where
  "number_text b n = map digit_char (rev (digits_rev b n))"

definition char_digit :: "char \<Rightarrow> nat" where
  "char_digit c = (let k = of_char c in if k < 58 then k - 48 else k - 55)"

definition parse_number :: "nat \<Rightarrow> string \<Rightarrow> nat" where
  "parse_number b cs = foldl (\<lambda>a c. a * b + char_digit c) 0 cs"

lemma digits_rev_bound: "2 \<le> b \<Longrightarrow> d \<in> set (digits_rev b n) \<Longrightarrow> d < b"
  by (induction b n rule: digits_rev.induct) (subst (asm) (2) digits_rev.simps, auto split: if_splits)

lemma char_digit_char [simp]: "d < 16 \<Longrightarrow> char_digit (digit_char d) = d"
  by (auto simp: char_digit_def digit_char_def Let_def)

lemma foldl_digits_rev:
  assumes "2 \<le> b"
  shows "foldr (\<lambda>d a. a * b + d) (digits_rev b n) 0 = n"
  using assms
proof (induction b n rule: digits_rev.induct)
  case (1 b n)
  then show ?case by (subst digits_rev.simps) (auto simp: div_eq_0_iff)
qed

lemma parse_number_text:
  assumes "2 \<le> b" "b \<le> 16"
  shows "parse_number b (number_text b n) = n"
proof -
  have d: "\<forall>d \<in> set (digits_rev b n). d < 16" using digits_rev_bound [of b _ n] assms by fastforce
  have "foldr (\<lambda>d a. a * b + char_digit (digit_char d)) (digits_rev b n) 0 =
      foldr (\<lambda>d a. a * b + d) (digits_rev b n) 0"
    by (rule foldr_cong) (use d in auto)
  then show ?thesis
    using foldl_digits_rev [OF assms(1)]
    by (simp add: parse_number_def number_text_def foldl_conv_foldr rev_map [symmetric] foldr_map comp_def)
qed

lemma length_digits_rev:
  assumes "2 \<le> b" "0 < k" "n < b ^ k"
  shows "length (digits_rev b n) \<le> k"
  using assms
proof (induction b n arbitrary: k rule: digits_rev.induct)
  case (1 b n)
  show ?case
  proof (cases "n div b = 0")
    case False
    then have k: "1 < k" using 1(3,4) by (cases "k = 1") auto
    then obtain m where m: "k = Suc m" "0 < m" by (cases k) auto
    then have "n div b < b ^ m" using 1(2,4) by (simp add: less_mult_imp_div_less mult.commute)
    with 1(1) [OF _ 1(2) m(2)] False 1(2) m show ?thesis by (subst digits_rev.simps) simp
  qed (use 1 in \<open>subst digits_rev.simps, simp\<close>)
qed

lemma digits_nth:
  assumes "- 10 < l" "l < 10"
  shows "digits ! nat (9 + l) = digit_char (nat \<bar>l\<bar>)"
proof -
  have "l = -9 \<or> l = -8 \<or> l = -7 \<or> l = -6 \<or> l = -5 \<or> l = -4 \<or> l = -3 \<or> l = -2 \<or> l = -1 \<or> l = 0 \<or>
    l = 1 \<or> l = 2 \<or> l = 3 \<or> l = 4 \<or> l = 5 \<or> l = 6 \<or> l = 7 \<or> l = 8 \<or> l = 9" using assms by presburger
  then show ?thesis
    by (elim disjE) (simp_all add: digits_def digit_char_def char_of_def bit_iff_odd)
qed

lemma sdiv_10: "nat \<bar>i sdiv 10\<bar> = nat \<bar>i\<bar> div 10" and smod_10: "nat \<bar>i smod 10\<bar> = nat \<bar>i\<bar> mod 10"
  for i :: int
  by (auto simp: signed_divide_int_def signed_modulo_int_def abs_mult sgn_if nat_div_distrib nat_mod_distrib)

lemma convert_digits_eq: "convert_digits i = map digit_char (digits_rev 10 (nat \<bar>i\<bar>))"
proof (induction i rule: convert_digits.induct)
  case (1 i)
  have l: "- 10 < i smod 10" "i smod 10 < 10"
    using smod_10 [of i] by linarith+
  have z: "i sdiv 10 \<noteq> 0 \<longleftrightarrow> nat \<bar>i\<bar> div 10 \<noteq> 0" using sdiv_10 [of i] by linarith
  show ?case
    using 1 [OF refl refl] z
    by (subst convert_digits.simps, subst digits_rev.simps)
      (auto simp: Let_def digits_nth [OF l] smod_10 sdiv_10)
qed

lemma convert_eq: "convert v = (if v < 0 then ''-'' else []) @ number_text 10 (nat \<bar>v\<bar>)"
  by (simp add: convert_def convert_digits_eq number_text_def rev_map)

lemma digitsHex_nth: "d < 16 \<Longrightarrow> digitsHex ! d = digit_char d"
proof -
  assume "d < 16"
  then have "d = 0 \<or> d = 1 \<or> d = 2 \<or> d = 3 \<or> d = 4 \<or> d = 5 \<or> d = 6 \<or> d = 7 \<or> d = 8 \<or> d = 9 \<or> d = 10 \<or>
    d = 11 \<or> d = 12 \<or> d = 13 \<or> d = 14 \<or> d = 15" by presburger
  then show ?thesis
    by (elim disjE) (simp_all add: digitsHex_def digit_char_def char_of_def bit_iff_odd)
qed

lemma convertHex_eq: "convertHex v = number_text 16 v"
proof -
  have "convertHex_digits v = map digit_char (digits_rev 16 v)"
  proof (induction v rule: convertHex_digits.induct)
    case (1 i)
    then show ?case
      by (subst convertHex_digits.simps, subst digits_rev.simps) (auto simp: Let_def digitsHex_nth)
  qed
  then show ?thesis by (simp add: convertHex_def number_text_def rev_map)
qed

lemma length_number_text: "2 \<le> b \<Longrightarrow> 0 < k \<Longrightarrow> n < b ^ k \<Longrightarrow> length (number_text b n) \<le> k"
  by (simp add: number_text_def length_digits_rev)

lemma number_text_canonical:
  assumes "2 \<le> b" and "b \<le> 16"
  shows "number_text b n \<noteq> [] \<and> (n \<noteq> 0 \<longrightarrow> hd (number_text b n) \<noteq> digit_char 0)"
proof -
  have "digits_rev b n \<noteq> []" by (subst digits_rev.simps) simp
  moreover have "n \<noteq> 0 \<longrightarrow> last (digits_rev b n) \<noteq> 0"
    using assms(1)
  proof (induction b n rule: digits_rev.induct)
    case (1 b n)
    have "digits_rev b (n div b) \<noteq> []" by (subst digits_rev.simps) simp
    with 1 show ?case by (subst digits_rev.simps) (auto simp: div_eq_0_iff)
  qed
  moreover have "digit_char d \<noteq> digit_char 0" if "d \<noteq> 0" "d < 16" for d
  proof
    assume "digit_char d = digit_char 0"
    then have "char_digit (digit_char d) = char_digit (digit_char 0)" by (rule arg_cong)
    with that show False by simp
  qed
  ultimately show ?thesis
    using digits_rev_bound [OF assms(1), of "last (digits_rev b n)" n] assms(2)
    by (auto simp: number_text_def hd_map hd_rev)
qed

text \<open>Every formatted number fits in the bytes that \<open>kMaxNumericSize\<close> reserves.\<close>

definition any_integer :: "int \<Rightarrow> bool" where
  "any_integer v \<longleftrightarrow> - (2 ^ 63) \<le> v \<and> v < 2 ^ 64"

lemma length_convert: "any_integer v \<Longrightarrow> length (convert v) \<le> 21"
proof -
  assume "any_integer v"
  then have "\<bar>v\<bar> < 10 ^ 20" by (auto simp: any_integer_def abs_if)
  then have "nat \<bar>v\<bar> < 10 ^ 20" by (simp add: nat_less_iff)
  from length_number_text [OF _ _ this] show ?thesis by (auto simp: convert_eq)
qed

lemma formatInteger_ok:
  assumes "fb_inv SIZE b" and "any_integer v"
  shows "\<exists>b1. formatInteger v b = Some b1 \<and> fb_inv SIZE b1 \<and>
    asString b1 = asString b @ (if 32 \<le> fb_avail b then convert v else [])"
  using fb_write_add [OF assms(1), of "convert v" "[NUL]"] length_convert [OF assms(2)] assms(1)
  by (auto simp: formatInteger_def kMaxNumericSize_def)

lemma log_pointer_ok:
  assumes "fb_inv SIZE b" and "v < 2 ^ 64"
  shows "\<exists>b1. log_pointer v b = Some b1 \<and> fb_inv SIZE b1 \<and>
    asString b1 = asString b @ (if 32 \<le> fb_avail b then ''0x'' @ convertHex v else [])"
proof -
  have "v < 16 ^ 16" using assms(2) by simp
  from length_number_text [OF _ _ this] have "length (convertHex v) \<le> 16" by (simp add: convertHex_eq)
  with fb_write_add [OF assms(1), of "''0x'' @ convertHex v" "[NUL]"] assms(1) show ?thesis
    by (auto simp: log_pointer_def kMaxNumericSize_def)
qed

section \<open>Properties\<close>

definition parse_integer :: "string \<Rightarrow> int" where
  "parse_integer cs =
     (case cs of c # ds \<Rightarrow> if c = CHR ''-'' then - int (parse_number 10 ds) else int (parse_number 10 cs)
      | [] \<Rightarrow> 0)"

lemma digit_char_minus: "d < 10 \<Longrightarrow> digit_char d \<noteq> CHR ''-''"
  by (auto simp: digit_char_def dest: arg_cong [where f = "of_char :: char \<Rightarrow> nat"])

text \<open>C35: Formatting an integer is exact and stays inside the buffer. For every value of every integer type the
  stream accepts (the smallest 64-bit value included, whose negation would overflow) the text that is
  appended reads back as the value, has no superfluous leading zero, and is appended completely or, when fewer than
  32 bytes are left, not at all.\<close>

theorem formatInteger_exact:
  assumes "fb_inv SIZE b" and "- (2 ^ 63) \<le> v" and "v < 2 ^ 64"
  shows "\<exists>b1 text. formatInteger v b = Some b1 \<and> fb_inv SIZE b1 \<and>
    asString b1 = asString b @ (if 32 \<le> fb_avail b then text else []) \<and>
    parse_integer text = v \<and> length text \<le> 21 \<and>
    (v = 0 \<longrightarrow> text = ''0'') \<and> (0 < v \<longrightarrow> hd text \<noteq> CHR ''0'') \<and> (v < 0 \<longrightarrow> hd (tl text) \<noteq> CHR ''0'')"
proof -
  have a: "any_integer v" using assms(2,3) by (simp add: any_integer_def)
  let ?t = "number_text 10 (nat \<bar>v\<bar>)"
  have p: "parse_number 10 ?t = nat \<bar>v\<bar>" by (rule parse_number_text) auto
  have c: "?t \<noteq> []" "v \<noteq> 0 \<longrightarrow> hd ?t \<noteq> CHR ''0''"
    using number_text_canonical [of 10 "nat \<bar>v\<bar>"] by (simp_all add: digit_char_def char_of_def bit_iff_odd)
  have "hd ?t \<noteq> CHR ''-''"
    using c(1) digits_rev_bound [of 10 "last (digits_rev 10 (nat \<bar>v\<bar>))" "nat \<bar>v\<bar>"] digit_char_minus
    by (auto simp: number_text_def hd_map hd_rev)
  then have "parse_integer (convert v) = v"
    using c(1) p by (cases ?t) (auto simp: parse_integer_def convert_eq)
  moreover have "v = 0 \<longrightarrow> convert v = ''0''"
    by (subst convert_eq) (simp add: number_text_def digits_rev.simps digit_char_def char_of_def bit_iff_odd)
  moreover have "hd (tl (convert v)) \<noteq> CHR ''0''" if "v < 0"
    using that c by (simp add: convert_eq)
  moreover have "hd (convert v) \<noteq> CHR ''0''" if "0 < v"
    using that c by (simp add: convert_eq)
  ultimately show ?thesis
    using formatInteger_ok [OF assms(1) a] length_convert [OF a] by blast
qed

theorem formatInteger_exact_witness:
  "\<exists>b1 text. formatInteger (- 9223372036854775808) (FixedBuffer_new 4000) = Some b1 \<and>
     asString b1 = text \<and> parse_integer text = - 9223372036854775808"
  using formatInteger_exact [of 4000 "FixedBuffer_new 4000" "- 9223372036854775808"] by auto

end
