(* ===== verification/Muduo_Logging.thy ===== *)
theory Muduo_Logging
  imports Muduo_LogStream Muduo_Timestamp "HOL-Library.Monad_Syntax"
begin

text \<open>
  \<open>Logger\<close> (\<open>muduo/base/Logging.h\<close>, \<open>Logging.cc\<close>): one log line, from the constructor that writes the time, the
  thread and the level to the destructor that appends the source position and outputs the line. The thread's
  number and its text are \<open>CurrentThread\<close> (\<open>muduo/base/Thread.cc\<close>).

  \<open>gmtime\<close> is the text \<open>snprintf\<close> makes of the broken-down time of a second, \<open>strerror\<close> the library's
  message for an \<open>errno\<close>. A failed assertion is \<open>None\<close>. \<open>log_tls\<close> holds the thread-local cache of the
  last second's text.
\<close>

section \<open>Levels, source positions, the thread's text\<close>

datatype LogLevel = TRACE | DEBUG | INFO | WARN | ERROR | FATAL

definition LogLevelName :: "LogLevel \<Rightarrow> string" where
  "LogLevelName level =
     (case level of
        TRACE \<Rightarrow> ''TRACE '' | DEBUG \<Rightarrow> ''DEBUG '' | INFO \<Rightarrow> ''INFO  ''
      | WARN \<Rightarrow> ''WARN  '' | ERROR \<Rightarrow> ''ERROR '' | FATAL \<Rightarrow> ''FATAL '')"

text \<open>\<open>SourceFile\<close>: the part of the path after the last slash.\<close>

definition SourceFile :: "string \<Rightarrow> string" where
  "SourceFile path = rev (takeWhile (\<lambda>c. c \<noteq> CHR ''/'') (rev path))"

text \<open>The \<open>%5d\<close> and \<open>%06d\<close> of \<open>snprintf\<close>.\<close>

definition fmt_5d :: "int \<Rightarrow> string" where
  "fmt_5d n = replicate (5 - length (convert n)) (CHR '' '') @ convert n"

definition fmt_06d :: "int \<Rightarrow> string" where
  "fmt_06d n =
     (if n < 0 then ''-'' @ replicate (5 - length (convert (- n))) (CHR ''0'') @ convert (- n)
      else replicate (6 - length (convert n)) (CHR ''0'') @ convert n)"

definition cacheTid :: "int \<Rightarrow> string option" where
  "cacheTid tid = (let t = fmt_5d tid @ '' '' in do { assertion (length t = 6); Some t })"

section \<open>The line\<close>

record log_tls =
  t_lastSecond :: int
  t_time :: string

record logger =
  lgStream :: fixed_buffer
  lgLevel :: LogLevel
  lgLine :: int
  lgBasename :: string

text \<open>\<open>operator<<\<close> for a \<open>T\<close>, whose constructor checks the length.\<close>

definition log_T :: "string \<Rightarrow> nat \<Rightarrow> fixed_buffer \<Rightarrow> fixed_buffer option" where
  "log_T str len b = do { assertion (length str = len); fb_append str b }"

definition formatTime :: "(int \<Rightarrow> string) \<Rightarrow> Timestamp \<Rightarrow> log_tls \<Rightarrow> fixed_buffer \<Rightarrow> (log_tls \<times> fixed_buffer) option" where
  "formatTime gmtime now tls b =
     (let seconds = microSecondsSinceEpoch now sdiv 1000000;
          microseconds = microSecondsSinceEpoch now smod 1000000
      in do {
        tls1 \<leftarrow> (if seconds \<noteq> t_lastSecond tls
                 then do { assertion (length (gmtime seconds) = 17);
                           Some \<lparr>t_lastSecond = seconds, t_time = gmtime seconds\<rparr> }
                 else Some tls);
        let us = ''.'' @ fmt_06d microseconds @ ''Z '';
        assertion (length us = 9);
        b1 \<leftarrow> log_T (t_time tls1) 17 b;
        b2 \<leftarrow> log_T us 9 b1;
        Some (tls1, b2) })"

definition Logger_new :: "(int \<Rightarrow> string) \<Rightarrow> (int \<Rightarrow> string) \<Rightarrow> int \<Rightarrow> Timestamp \<Rightarrow> LogLevel \<Rightarrow> int \<Rightarrow> string \<Rightarrow> int \<Rightarrow>
    log_tls \<Rightarrow> (log_tls \<times> logger) option" where
  "Logger_new gmtime strerror tid now level savedErrno file line tls =
     do { (tls1, b) \<leftarrow> formatTime gmtime now tls (FixedBuffer_new kSmallBuffer);
          t \<leftarrow> cacheTid tid;
          b1 \<leftarrow> log_T t 6 b;
          b2 \<leftarrow> log_T (LogLevelName level) 6 b1;
          b3 \<leftarrow> (if savedErrno \<noteq> 0
                  then do { c \<leftarrow> log_string (strerror savedErrno) b2;
                            c1 \<leftarrow> log_string '' (errno='' c;
                            c2 \<leftarrow> formatInteger savedErrno c1;
                            log_string '') '' c2 }
                  else Some b2);
          Some (tls1, \<lparr>lgStream = b3, lgLevel = level, lgLine = line, lgBasename = SourceFile file\<rparr>) }"

text \<open>The constructor of \<open>LOG_TRACE\<close> and \<open>LOG_DEBUG\<close>, with the function's name.\<close>

definition Logger_new_func :: "(int \<Rightarrow> string) \<Rightarrow> (int \<Rightarrow> string) \<Rightarrow> int \<Rightarrow> Timestamp \<Rightarrow> LogLevel \<Rightarrow> string \<Rightarrow> string \<Rightarrow> int \<Rightarrow>
    log_tls \<Rightarrow> (log_tls \<times> logger) option" where
  "Logger_new_func gmtime strerror tid now level func file line tls =
     do { (tls1, lg) \<leftarrow> Logger_new gmtime strerror tid now level 0 file line tls;
          b \<leftarrow> log_string func (lgStream lg);
          b1 \<leftarrow> log_char (CHR '' '') b;
          Some (tls1, lg\<lparr>lgStream := b1\<rparr>) }"

definition Logger_new_sys :: "(int \<Rightarrow> string) \<Rightarrow> (int \<Rightarrow> string) \<Rightarrow> int \<Rightarrow> Timestamp \<Rightarrow> bool \<Rightarrow> int \<Rightarrow> string \<Rightarrow> int \<Rightarrow>
    log_tls \<Rightarrow> (log_tls \<times> logger) option" where
  "Logger_new_sys gmtime strerror tid now toAbort err file line tls =
     Logger_new gmtime strerror tid now (if toAbort then FATAL else ERROR) err file line tls"

definition Logger_finish :: "logger \<Rightarrow> fixed_buffer option" where
  "Logger_finish lg =
     do { b \<leftarrow> log_string '' - '' (lgStream lg);
          b1 \<leftarrow> log_string (lgBasename lg) b;
          b2 \<leftarrow> log_char (CHR '':'') b1;
          b3 \<leftarrow> formatInteger (lgLine lg) b2;
          log_char (CHR 0x0A) b3 }"

text \<open>The destructor: what is output, and whether the process flushes and aborts.\<close>

definition Logger_destroy :: "logger \<Rightarrow> (string \<times> bool) option" where
  "Logger_destroy lg =
     do { b \<leftarrow> Logger_finish lg; Some (asString b, lgLevel lg = FATAL) }"

text \<open>A whole statement \<open>LOG_x << parts;\<close>.\<close>

fun log_parts :: "string list \<Rightarrow> fixed_buffer \<Rightarrow> fixed_buffer option" where
  "log_parts [] b = Some b"
| "log_parts (p # ps) b = do { b1 \<leftarrow> log_string p b; log_parts ps b1 }"

definition log_statement :: "(int \<Rightarrow> string) \<Rightarrow> (int \<Rightarrow> string) \<Rightarrow> int \<Rightarrow> Timestamp \<Rightarrow> LogLevel \<Rightarrow> int \<Rightarrow> string \<Rightarrow> int \<Rightarrow>
    string list \<Rightarrow> log_tls \<Rightarrow> (log_tls \<times> string \<times> bool) option" where
  "log_statement gmtime strerror tid now level savedErrno file line parts tls =
     do { (tls1, lg) \<leftarrow> Logger_new gmtime strerror tid now level savedErrno file line tls;
          b \<leftarrow> log_parts parts (lgStream lg);
          (text, aborts) \<leftarrow> Logger_destroy (lg\<lparr>lgStream := b\<rparr>);
          Some (tls1, text, aborts) }"

section \<open>Properties\<close>

lemma log_string_fits:
  assumes "fb_inv SIZE b" and "asString b = t" and "length t + length cs < SIZE"
  shows "\<exists>b1. log_string cs b = Some b1 \<and> fb_inv SIZE b1 \<and> asString b1 = t @ cs"
  using fb_append_fits [OF assms(1), of cs] assms(2,3) asString_avail [OF assms(1)]
  by (auto simp: log_string_def)

lemma log_char_fits:
  assumes "fb_inv SIZE b" and "asString b = t" and "length t + 1 < SIZE"
  shows "\<exists>b1. log_char c b = Some b1 \<and> fb_inv SIZE b1 \<and> asString b1 = t @ [c]"
  using log_string_fits [OF assms(1,2), of "[c]"] assms(3) by (simp add: log_char_def log_string_def)

lemma formatInteger_fits:
  assumes "fb_inv SIZE b" and "asString b = t" and "length t + 32 \<le> SIZE" and "any_integer v"
  shows "\<exists>b1. formatInteger v b = Some b1 \<and> fb_inv SIZE b1 \<and> asString b1 = t @ convert v"
  using formatInteger_ok [OF assms(1,4)] assms(2,3) asString_avail [OF assms(1)] by auto

lemma log_T_fits:
  assumes "fb_inv SIZE b" and "asString b = t" and "length t + n < SIZE" and "length cs = n"
  shows "\<exists>b1. log_T cs n b = Some b1 \<and> fb_inv SIZE b1 \<and> asString b1 = t @ cs"
  using log_string_fits [OF assms(1,2), of cs] assms(3,4)
  by (simp add: log_T_def log_string_def assertion_def)

lemma log_parts_fit:
  assumes "fb_inv SIZE b" and "length (asString b) + length (concat ps) < SIZE"
  shows "\<exists>b1. log_parts ps b = Some b1 \<and> fb_inv SIZE b1 \<and> asString b1 = asString b @ concat ps"
  using assms
proof (induction ps arbitrary: b)
  case (Cons p ps)
  from log_string_fits [OF Cons(2) refl, of p] Cons(3) obtain b1 where
    b1: "log_string p b = Some b1" "fb_inv SIZE b1" "asString b1 = asString b @ p" by auto
  with Cons(1) [OF b1(2)] Cons(3) show ?case by auto
qed simp

lemma length_digits_rev_ge:
  assumes "2 \<le> b" "b ^ k \<le> n"
  shows "k < length (digits_rev b n)"
  using assms
proof (induction b n arbitrary: k rule: digits_rev.induct)
  case (1 b n)
  show ?case
  proof (cases k)
    case (Suc m)
    have "b ^ m \<le> n div b" using 1(2,3) Suc by (simp add: less_eq_div_iff_mult_less_eq mult.commute)
    moreover have "n div b \<noteq> 0" using calculation 1(2) by (metis le_zero_eq not_numeral_le_zero power_eq_0_iff)
    ultimately show ?thesis using 1(1) [of m] 1(2) Suc by (subst digits_rev.simps) simp
  qed (subst digits_rev.simps, simp)
qed

lemma length_convert_range: "0 \<le> v \<Longrightarrow> v < 10 ^ k \<Longrightarrow> 0 < k \<Longrightarrow> length (convert v) \<le> k"
  using length_number_text [of 10 k "nat v"] by (simp add: convert_eq nat_less_iff)

lemma cacheTid_small: "0 \<le> tid \<Longrightarrow> tid < 100000 \<Longrightarrow> cacheTid tid = Some (fmt_5d tid @ '' '')"
  using length_convert_range [of tid 5] by (simp add: cacheTid_def fmt_5d_def assertion_def Let_def)

lemma cacheTid_large:
  assumes "100000 \<le> tid"
  shows "cacheTid tid = None"
proof -
  have "(10 :: nat) ^ 5 \<le> nat tid" using assms by simp
  from length_digits_rev_ge [OF _ this] have "5 < length (convert tid)"
    using assms by (simp add: convert_eq number_text_def)
  then show ?thesis by (simp add: cacheTid_def fmt_5d_def assertion_def Let_def)
qed

lemma length_fmt_06d: "0 \<le> n \<Longrightarrow> n < 1000000 \<Longrightarrow> length (fmt_06d n) = 6"
  using length_convert_range [of n 6] by (simp add: fmt_06d_def)

lemma length_LogLevelName: "length (LogLevelName level) = 6"
  by (cases level) (simp_all add: LogLevelName_def)

definition tls_ok :: "(int \<Rightarrow> string) \<Rightarrow> log_tls \<Rightarrow> bool" where
  "tls_ok gmtime tls \<longleftrightarrow> t_time tls = gmtime (t_lastSecond tls)"

definition errno_text :: "(int \<Rightarrow> string) \<Rightarrow> int \<Rightarrow> string" where
  "errno_text strerror e = (if e \<noteq> 0 then strerror e @ '' (errno='' @ convert e @ '') '' else [])"

text \<open>What the line starts with.\<close>

definition log_prefix :: "(int \<Rightarrow> string) \<Rightarrow> (int \<Rightarrow> string) \<Rightarrow> int \<Rightarrow> Timestamp \<Rightarrow> LogLevel \<Rightarrow> int \<Rightarrow> string" where
  "log_prefix gmtime strerror tid now level e =
     gmtime (microSecondsSinceEpoch now div 1000000) @ ''.'' @
     fmt_06d (microSecondsSinceEpoch now mod 1000000) @ ''Z '' @ fmt_5d tid @ '' '' @ LogLevelName level @
     errno_text strerror e"

lemma formatTime_ok:
  assumes "fb_inv SIZE b" and "asString b = []" and "26 < SIZE" and "0 \<le> microSecondsSinceEpoch now"
    and "tls_ok gmtime tls" and "\<forall>n. length (gmtime n) = 17"
  shows "\<exists>tls1 b1. formatTime gmtime now tls b = Some (tls1, b1) \<and> tls_ok gmtime tls1 \<and> fb_inv SIZE b1 \<and>
    asString b1 = gmtime (microSecondsSinceEpoch now div 1000000) @ ''.'' @
      fmt_06d (microSecondsSinceEpoch now mod 1000000) @ ''Z ''"
proof -
  let ?s = "microSecondsSinceEpoch now div 1000000" and ?u = "microSecondsSinceEpoch now mod 1000000"
  have d: "microSecondsSinceEpoch now sdiv 1000000 = ?s" "microSecondsSinceEpoch now smod 1000000 = ?u"
    using assms(4) by (auto simp: signed_divide_int_def signed_modulo_int_def sgn_if)
  have u: "length (fmt_06d ?u) = 6" by (rule length_fmt_06d) auto
  from log_T_fits [OF assms(1,2), of 17 "gmtime ?s"] assms(3,6) obtain b1 where
    b1: "log_T (gmtime ?s) 17 b = Some b1" "fb_inv SIZE b1" "asString b1 = gmtime ?s" by auto
  from log_T_fits [OF b1(2,3), of 9 "''.'' @ fmt_06d ?u @ ''Z ''"] u assms(3,6) obtain b2 where
    b2: "log_T (''.'' @ fmt_06d ?u @ ''Z '') 9 b1 = Some b2" "fb_inv SIZE b2"
      "asString b2 = gmtime ?s @ ''.'' @ fmt_06d ?u @ ''Z ''" by auto
  show ?thesis
  proof (cases "?s = t_lastSecond tls")
    case True
    with b1 b2 u assms(5) show ?thesis
      by (simp add: formatTime_def d Let_def assertion_def tls_ok_def)
  next
    case False
    with b1 b2 u assms(6) show ?thesis
      by (simp add: formatTime_def d Let_def assertion_def tls_ok_def)
  qed
qed

lemma Logger_new_ok:
  assumes "0 \<le> microSecondsSinceEpoch now" and "tls_ok gmtime tls" and "\<forall>n. length (gmtime n) = 17"
    and "0 \<le> tid" and "tid < 100000" and "any_integer e"
    and "length (log_prefix gmtime strerror tid now level e) + 32 < kSmallBuffer"
  shows "\<exists>tls1 b. Logger_new gmtime strerror tid now level e file line tls =
      Some (tls1, \<lparr>lgStream = b, lgLevel = level, lgLine = line, lgBasename = SourceFile file\<rparr>) \<and>
    tls_ok gmtime tls1 \<and> fb_inv kSmallBuffer b \<and> asString b = log_prefix gmtime strerror tid now level e"
proof -
  let ?P = "gmtime (microSecondsSinceEpoch now div 1000000) @ ''.'' @
      fmt_06d (microSecondsSinceEpoch now mod 1000000) @ ''Z ''"
  from formatTime_ok [of kSmallBuffer "FixedBuffer_new kSmallBuffer" now gmtime tls] assms(1-3)
  obtain tls1 b where b: "formatTime gmtime now tls (FixedBuffer_new kSmallBuffer) = Some (tls1, b)"
    "tls_ok gmtime tls1" "fb_inv kSmallBuffer b" "asString b = ?P"
    by (auto simp: kSmallBuffer_def)
  have n: "length ?P + 12 + length (errno_text strerror e) + 32 < kSmallBuffer"
    using assms(4,5,7) length_LogLevelName [of level] length_convert_range [of tid 5]
    by (simp add: log_prefix_def fmt_5d_def)
  have t5: "length (fmt_5d tid @ '' '') = 6"
    using assms(4,5) length_convert_range [of tid 5] by (simp add: fmt_5d_def)
  from log_T_fits [OF b(3,4), of 6 "fmt_5d tid @ '' ''"] t5 n obtain b1 where
    b1: "log_T (fmt_5d tid @ '' '') 6 b = Some b1" "fb_inv kSmallBuffer b1"
      "asString b1 = ?P @ fmt_5d tid @ '' ''" by auto
  from log_T_fits [OF b1(2,3), of 6 "LogLevelName level"] t5 n length_LogLevelName obtain b2 where
    b2: "log_T (LogLevelName level) 6 b1 = Some b2" "fb_inv kSmallBuffer b2"
      "asString b2 = (?P @ fmt_5d tid @ '' '') @ LogLevelName level" by auto
  show ?thesis
  proof (cases "e = 0")
    case True
    with b b1 b2 assms(4,5) show ?thesis
      by (simp add: Logger_new_def cacheTid_small log_prefix_def errno_text_def)
  next
    case False
    let ?Q = "asString b2"
    have q: "length ?Q + length (strerror e) + 8 + length (convert e) + 2 + 32 < kSmallBuffer"
      using n t5 False b2(3) length_LogLevelName [of level] by (simp add: errno_text_def)
    from log_string_fits [OF b2(2) refl, of "strerror e"] q obtain c where
      c: "log_string (strerror e) b2 = Some c" "fb_inv kSmallBuffer c" "asString c = ?Q @ strerror e" by auto
    from log_string_fits [OF c(2,3), of "'' (errno=''"] q obtain c1 where
      c1: "log_string '' (errno='' c = Some c1" "fb_inv kSmallBuffer c1"
        "asString c1 = (?Q @ strerror e) @ '' (errno=''" by auto
    from formatInteger_fits [OF c1(2,3) _ assms(6)] q obtain c2 where
      c2: "formatInteger e c1 = Some c2" "fb_inv kSmallBuffer c2"
        "asString c2 = ((?Q @ strerror e) @ '' (errno='') @ convert e" by auto
    from log_string_fits [OF c2(2,3), of "'') ''"] q obtain c3 where
      c3: "log_string '') '' c2 = Some c3" "fb_inv kSmallBuffer c3"
        "asString c3 = (((?Q @ strerror e) @ '' (errno='') @ convert e) @ '') ''" by auto
    show ?thesis using False b b1 b2 c c1 c2 c3 assms(4,5)
      by (simp add: Logger_new_def cacheTid_small log_prefix_def errno_text_def)
  qed
qed

lemma Logger_finish_ok:
  assumes "fb_inv kSmallBuffer (lgStream lg)" and "any_integer (lgLine lg)"
    and "length (asString (lgStream lg)) + length (lgBasename lg) + 38 < kSmallBuffer"
  shows "\<exists>b. Logger_finish lg = Some b \<and>
    asString b = asString (lgStream lg) @ '' - '' @ lgBasename lg @ '':'' @ convert (lgLine lg) @ [CHR 0x0A]"
proof -
  let ?Q = "asString (lgStream lg)"
  have l: "length (convert (lgLine lg)) \<le> 21" by (rule length_convert [OF assms(2)])
  from log_string_fits [OF assms(1) refl, of "'' - ''"] assms(3) obtain c where
    c: "log_string '' - '' (lgStream lg) = Some c" "fb_inv kSmallBuffer c" "asString c = ?Q @ '' - ''" by auto
  from log_string_fits [OF c(2,3), of "lgBasename lg"] assms(3) obtain c1 where
    c1: "log_string (lgBasename lg) c = Some c1" "fb_inv kSmallBuffer c1"
      "asString c1 = (?Q @ '' - '') @ lgBasename lg" by auto
  from log_char_fits [OF c1(2,3), of "CHR '':''"] assms(3) obtain c2 where
    c2: "log_char (CHR '':'') c1 = Some c2" "fb_inv kSmallBuffer c2"
      "asString c2 = ((?Q @ '' - '') @ lgBasename lg) @ '':''" by auto
  from formatInteger_fits [OF c2(2,3) _ assms(2)] assms(3) obtain c3 where
    c3: "formatInteger (lgLine lg) c2 = Some c3" "fb_inv kSmallBuffer c3"
      "asString c3 = (((?Q @ '' - '') @ lgBasename lg) @ '':'') @ convert (lgLine lg)" by auto
  from log_char_fits [OF c3(2,3), of "CHR 0x0A"] assms(3) l obtain c4 where
    c4: "log_char (CHR 0x0A) c3 = Some c4"
      "asString c4 = ((((?Q @ '' - '') @ lgBasename lg) @ '':'') @ convert (lgLine lg)) @ [CHR 0x0A]" by auto
  show ?thesis using c c1 c2 c3 c4 by (simp add: Logger_finish_def)
qed


definition demo_gmtime :: "int \<Rightarrow> string" where
  "demo_gmtime n = ''20120808 17:40:42''"

lemma demo_prefix:
  "log_prefix demo_gmtime (\<lambda>e. ''Interrupted'') 3214 (Timestamp 1344447642065793) WARN 0 =
     ''20120808 17:40:42.065793Z  3214 WARN  ''"
  by (simp add: log_prefix_def demo_gmtime_def errno_text_def fmt_06d_def fmt_5d_def convert_eq number_text_def
      digits_rev.simps digit_char_def LogLevelName_def char_of_def bit_iff_odd)


text \<open>A thread whose number has six digits cannot log. \<open>cacheTid\<close> and the \<open>T\<close> of the constructor assume that
  \<open>%5d\<close> gives five characters; from thread number 100000 on (the kernel allows numbers up to 4194304) the
  assertion fails for every statement at every level.\<close>

theorem logger_large_tid_aborts:
  assumes "100000 \<le> tid"
  shows "log_statement gmtime strerror tid now level e file line parts tls = None"
  by (simp add: log_statement_def Logger_new_def cacheTid_large [OF assms] split: Option.bind_splits)

theorem logger_large_tid_aborts_witness:
  "log_statement demo_gmtime (\<lambda>e. []) 131072 (Timestamp 1) INFO 0 ''a.cc'' 1 [''x'']
     \<lparr>t_lastSecond = 0, t_time = demo_gmtime 0\<rparr> = None"
  by (rule logger_large_tid_aborts) simp

end
