(* ===== verification/Muduo_LogFile.thy ===== *)
theory Muduo_LogFile
  imports Muduo_Prelude "HOL-Library.Monad_Syntax"
begin

text \<open>
  \<open>LogFile\<close> (\<open>muduo/base/LogFile.h\<close>, \<open>LogFile.cc\<close>): appends log lines to a file and rolls to a new file
  by size and by day.

  A file is the second its name carries (the rest of the name is fixed for a process) and the bytes handed to
  \<open>stdio\<close>; \<open>oldFiles\<close> are the files already closed, \<open>lfCurrent\<close> is \<open>file_\<close>, \<open>None\<close> when the pointer
  is null. \<open>fw i n\<close> is what the \<open>i\<close>-th \<open>fwrite_unlocked\<close> of an \<open>append\<close> accepts of \<open>n\<close> bytes, and the
  readings of \<open>time(NULL)\<close> are arguments. The mutex only serialises the calls.
\<close>

section \<open>LogFile::File\<close>

record log_file_file =
  fileTime :: int
  fileData :: string
  writtenBytes :: nat
  fileFlushed :: nat

definition File_new :: "int \<Rightarrow> log_file_file" where
  "File_new now = \<lparr>fileTime = now, fileData = [], writtenBytes = 0, fileFlushed = 0\<rparr>"

function file_write_rest :: "(nat \<Rightarrow> nat \<Rightarrow> nat) \<Rightarrow> nat \<Rightarrow> string \<Rightarrow> string" where
  "file_write_rest fw i remain =
     (if remain = [] then []
      else let x = min (fw i (length remain)) (length remain)
           in if x = 0 then [] else take x remain @ file_write_rest fw (Suc i) (drop x remain))"
  by auto
termination by (relation "measure (\<lambda>(fw, i, remain). length remain)") auto

declare file_write_rest.simps [simp del]

definition File_append :: "(nat \<Rightarrow> nat \<Rightarrow> nat) \<Rightarrow> string \<Rightarrow> log_file_file \<Rightarrow> log_file_file" where
  "File_append fw logline f =
     (let n = min (fw 0 (length logline)) (length logline)
      in f\<lparr>fileData := fileData f @ take n logline @ file_write_rest fw 1 (drop n logline),
           writtenBytes := writtenBytes f + length logline\<rparr>)"

definition File_flush :: "log_file_file \<Rightarrow> log_file_file" where
  "File_flush f = f\<lparr>fileFlushed := length (fileData f)\<rparr>"

section \<open>LogFile\<close>

record log_file =
  rollSize :: nat
  flushInterval :: int
  lfCount :: int
  startOfPeriod :: int
  lastRoll :: int
  lastFlush :: int
  oldFiles :: "(int \<times> string) list"
  lfCurrent :: "log_file_file option"

definition kCheckTimeRoll :: int where
  "kCheckTimeRoll = 1024"

definition kRollPerSeconds :: int where
  "kRollPerSeconds = 60 * 60 * 24"

definition rollFile :: "int \<Rightarrow> log_file \<Rightarrow> log_file" where
  "rollFile now s =
     (let start = now div kRollPerSeconds * kRollPerSeconds
      in if now > lastRoll s
         then s\<lparr>lastRoll := now, lastFlush := now, startOfPeriod := start,
                oldFiles := oldFiles s @
                  (case lfCurrent s of Some f \<Rightarrow> [(fileTime f, fileData f)] | None \<Rightarrow> []),
                lfCurrent := Some (File_new now)\<rparr>
         else s)"

definition LogFile_new :: "string \<Rightarrow> nat \<Rightarrow> int \<Rightarrow> int \<Rightarrow> log_file option" where
  "LogFile_new basename roll interval now =
     do { assertion (CHR ''/'' \<notin> set basename);
          Some (rollFile now \<lparr>rollSize = roll, flushInterval = interval, lfCount = 0, startOfPeriod = 0,
            lastRoll = 0, lastFlush = 0, oldFiles = [], lfCurrent = None\<rparr>) }"

text \<open>\<open>now\<close> is the time \<open>append_unlocked\<close> reads, \<open>now'\<close> the one \<open>rollFile\<close> reads after it.\<close>

definition LogFile_append :: "(nat \<Rightarrow> nat \<Rightarrow> nat) \<Rightarrow> string \<Rightarrow> int \<Rightarrow> int \<Rightarrow> log_file \<Rightarrow> log_file option" where
  "LogFile_append fw logline now now' s =
     (case lfCurrent s of
        None \<Rightarrow> None
      | Some f \<Rightarrow>
          let f1 = File_append fw logline f;
              s1 = s\<lparr>lfCurrent := Some f1\<rparr>
          in Some
            (if writtenBytes f1 > rollSize s1 then rollFile now' s1
             else if lfCount s1 > kCheckTimeRoll
             then let s2 = s1\<lparr>lfCount := 0\<rparr>;
                      thisPeriod = now div kRollPerSeconds * kRollPerSeconds
                  in if thisPeriod \<noteq> startOfPeriod s2 then rollFile now' s2
                     else if now - lastFlush s2 > flushInterval s2
                     then s2\<lparr>lastFlush := now, lfCurrent := Some (File_flush f1)\<rparr>
                     else s2
             else s1\<lparr>lfCount := lfCount s1 + 1\<rparr>))"

definition LogFile_flush :: "log_file \<Rightarrow> log_file option" where
  "LogFile_flush s = map_option (\<lambda>f. s\<lparr>lfCurrent := Some (File_flush f)\<rparr>) (lfCurrent s)"

text \<open>A sequence of calls.\<close>

datatype log_call = LogAppend "nat \<Rightarrow> nat \<Rightarrow> nat" string int int | LogFlush

fun log_calls :: "log_call list \<Rightarrow> log_file \<Rightarrow> log_file option" where
  "log_calls [] s = Some s"
| "log_calls (LogAppend fw line now now' # cs) s =
     do { s1 \<leftarrow> LogFile_append fw line now now' s; log_calls cs s1 }"
| "log_calls (LogFlush # cs) s = do { s1 \<leftarrow> LogFile_flush s; log_calls cs s1 }"

fun log_lines :: "log_call list \<Rightarrow> string" where
  "log_lines [] = []"
| "log_lines (LogAppend fw line now now' # cs) = line @ log_lines cs"
| "log_lines (LogFlush # cs) = log_lines cs"

text \<open>\<open>fwrite\<close> makes progress: it accepts at least a byte of a non-empty request (no I/O error).\<close>

fun fwrite_ok :: "log_call \<Rightarrow> bool" where
  "fwrite_ok (LogAppend fw line now now') \<longleftrightarrow> (\<forall>i n. 0 < n \<longrightarrow> 0 < fw i n)"
| "fwrite_ok LogFlush \<longleftrightarrow> True"

section \<open>Properties\<close>

lemma file_write_rest_all:
  "\<forall>i n. 0 < n \<longrightarrow> 0 < fw i n \<Longrightarrow> file_write_rest fw i remain = remain"
proof (induction fw i remain rule: file_write_rest.induct)
  case (1 fw i remain)
  show ?case
  proof (cases "remain = []")
    case False
    let ?x = "min (fw i (length remain)) (length remain)"
    have x: "?x \<noteq> 0" using 1(2) False by simp
    from 1(1) [OF False refl x 1(2)] show ?thesis
      using False x by (subst file_write_rest.simps) (simp add: Let_def)
  qed (simp add: file_write_rest.simps)
qed

lemma File_append_data:
  "\<forall>i n. 0 < n \<longrightarrow> 0 < fw i n \<Longrightarrow> fileData (File_append fw line f) = fileData f @ line"
  by (simp add: File_append_def file_write_rest_all Let_def)

lemma File_append_time [simp]: "fileTime (File_append fw line f) = fileTime f"
  by (simp add: File_append_def Let_def)

lemma File_flush_simps [simp]: "fileTime (File_flush f) = fileTime f" "fileData (File_flush f) = fileData f"
  by (simp_all add: File_flush_def)

text \<open>All bytes in all files, oldest first, and the times the files are named by.\<close>

definition log_content :: "log_file \<Rightarrow> string" where
  "log_content s =
     concat (map snd (oldFiles s)) @ (case lfCurrent s of Some f \<Rightarrow> fileData f | None \<Rightarrow> [])"

definition log_times :: "log_file \<Rightarrow> int list" where
  "log_times s =
     map fst (oldFiles s) @ (case lfCurrent s of Some f \<Rightarrow> [fileTime f] | None \<Rightarrow> [])"

definition log_inv :: "log_file \<Rightarrow> bool" where
  "log_inv s \<longleftrightarrow>
     lfCurrent s \<noteq> None \<and> sorted_wrt (<) (log_times s) \<and> (\<forall>t \<in> set (log_times s). t \<le> lastRoll s)"

lemma rollFile_content [simp]: "log_content (rollFile now s) = log_content s"
  by (simp add: rollFile_def log_content_def File_new_def Let_def split: option.split)

lemma rollFile_inv: "log_inv s \<Longrightarrow> log_inv (rollFile now s)"
  by (fastforce simp: rollFile_def log_inv_def log_times_def File_new_def Let_def sorted_wrt_append)

lemma log_inv_cong:
  assumes "log_inv s" and "lfCurrent s = Some f" and "fileTime f1 = fileTime f"
  shows "log_inv (s\<lparr>lfCurrent := Some f1\<rparr>)" and "log_inv (s\<lparr>lfCurrent := Some f1, lfCount := c\<rparr>)"
    and "log_inv (s\<lparr>lfCount := c, lastFlush := t, lfCurrent := Some f1\<rparr>)"
  using assms by (simp_all add: log_inv_def log_times_def)

lemma LogFile_append_ok:
  assumes "log_inv s" and "\<forall>i n. 0 < n \<longrightarrow> 0 < fw i n"
  shows "\<exists>s1. LogFile_append fw line now now' s = Some s1 \<and> log_inv s1 \<and>
    log_content s1 = log_content s @ line"
proof -
  obtain f where f: "lfCurrent s = Some f" using assms(1) by (auto simp: log_inv_def)
  note i = log_inv_cong [OF assms(1) f]
  have c: "log_content (s\<lparr>lfCurrent := Some (File_append fw line f)\<rparr>) = log_content s @ line"
    using f File_append_data [OF assms(2)] by (simp add: log_content_def)
  moreover have "log_content (s\<lparr>lfCurrent := Some (File_append fw line f), lfCount := n\<rparr>) = log_content s @ line"
    "log_content (s\<lparr>lfCount := n, lastFlush := t, lfCurrent := Some (File_flush (File_append fw line f))\<rparr>) =
       log_content s @ line" for n t
    using c by (simp_all add: log_content_def)
  ultimately show ?thesis
    using f i [of "File_append fw line f"] i [of "File_flush (File_append fw line f)"]
    by (auto simp: LogFile_append_def Let_def intro!: rollFile_inv)
qed

lemma LogFile_flush_ok:
  "log_inv s \<Longrightarrow> \<exists>s1. LogFile_flush s = Some s1 \<and> log_inv s1 \<and> log_content s1 = log_content s"
  by (auto simp: LogFile_flush_def log_inv_def log_times_def log_content_def)

lemma LogFile_new_ok:
  assumes "CHR ''/'' \<notin> set basename" and "0 < now"
  shows "\<exists>s. LogFile_new basename roll interval now = Some s \<and> log_inv s \<and> log_content s = []"
  using assms
  by (simp add: LogFile_new_def assertion_def rollFile_def log_inv_def log_times_def log_content_def
      File_new_def Let_def)

lemma log_calls_ok:
  assumes "log_inv s" and "\<forall>c \<in> set cs. fwrite_ok c"
  shows "\<exists>s1. log_calls cs s = Some s1 \<and> log_inv s1 \<and> log_content s1 = log_content s @ log_lines cs"
  using assms
proof (induction cs arbitrary: s)
  case (Cons c cs)
  show ?case
  proof (cases c)
    case (LogAppend fw line now now')
    have "\<forall>i n. 0 < n \<longrightarrow> 0 < fw i n" using Cons(3) LogAppend by simp
    from LogFile_append_ok [OF Cons(2) this] obtain s1 where
      s1: "LogFile_append fw line now now' s = Some s1" "log_inv s1" "log_content s1 = log_content s @ line"
      by blast
    with Cons(1) [OF s1(2)] Cons(3) LogAppend show ?thesis by auto
  next
    case LogFlush
    from LogFile_flush_ok [OF Cons(2)] obtain s1 where
      s1: "LogFile_flush s = Some s1" "log_inv s1" "log_content s1 = log_content s" by blast
    with Cons(1) [OF s1(2)] Cons(3) LogFlush show ?thesis by auto
  qed
qed simp

text \<open>C38: Rolling loses nothing. Whatever the sizes, the clock readings (also a clock that runs backwards) and the
  partial writes of \<open>fwrite\<close>, every sequence of \<open>append\<close> and \<open>flush\<close> calls succeeds, the concatenated files hold
  exactly the lines in order, and no two files have the same name.\<close>

theorem logfile_keeps_everything:
  assumes "CHR ''/'' \<notin> set basename" and "0 < start" and "\<forall>c \<in> set cs. fwrite_ok c"
  shows "\<exists>s. Option.bind (LogFile_new basename roll interval start) (log_calls cs) = Some s \<and>
    log_content s = log_lines cs \<and> distinct (log_times s)"
proof -
  from LogFile_new_ok [OF assms(1,2)] obtain s0 where
    s0: "LogFile_new basename roll interval start = Some s0" "log_inv s0" "log_content s0 = []" by blast
  from log_calls_ok [OF s0(2) assms(3)] obtain s where
    s: "log_calls cs s0 = Some s" "log_inv s" "log_content s = log_lines cs" using s0(3) by auto
  have "distinct (log_times s)" using s(2) by (simp add: log_inv_def strict_sorted_iff)
  with s s0 show ?thesis by simp
qed

theorem logfile_keeps_everything_witness:
  "\<exists>s. Option.bind (LogFile_new ''server'' 4 3 100)
      (log_calls [LogAppend (\<lambda>i n. 2) ''hello'' 100 100, LogAppend (\<lambda>i n. n) ''world'' 101 101]) = Some s \<and>
    log_content s = ''helloworld'' \<and> distinct (log_times s)"
  using logfile_keeps_everything [of "''server''" 100
      "[LogAppend (\<lambda>i n. 2) ''hello'' 100 100, LogAppend (\<lambda>i n. n) ''world'' 101 101]" 4 3] by simp

end
