(* ===== verification/Muduo_AsyncLogging.thy ===== *)
theory Muduo_AsyncLogging
  imports Muduo_LogStream Muduo_LogFile "HOL-Library.Sublist"
begin

text \<open>
  \<open>AsyncLogging\<close> (\<open>muduo/base/AsyncLogging.h\<close>, \<open>AsyncLogging.cc\<close>): threads append lines to 4 MB buffers
  under a mutex, and a logging thread swaps the filled buffers out and writes them.

  The critical sections are atomic steps: \<open>al_append\<close> (a front-end call) and \<open>al_swap\<close> (the locked block of
  \<open>threadFunc\<close>, which waits on the condition while no buffer is full; the wait ends at any time, by a
  notification, the timeout or spuriously). \<open>al_write\<close> is the unlocked rest of the loop body. \<open>logPc\<close> says
  where the logging thread stands. \<open>outCalls\<close> are the calls of \<open>output.append\<close>, \<open>accepted\<close> all bytes
  appended, in order. The null states of \<open>BufferPtr\<close> are \<open>None\<close>; a failed assertion or a null
  dereference is \<open>None\<close> of the operation.
\<close>

section \<open>State\<close>

datatype log_pc = LogNotStarted | LogTop | LogWaiting | LogWriting | LogDone

datatype out_call = BufferOut string | NoticeOut string

fun out_text :: "out_call \<Rightarrow> string" where
  "out_text (BufferOut t) = t"
| "out_text (NoticeOut t) = t"

fun is_notice :: "out_call \<Rightarrow> bool" where
  "is_notice (NoticeOut t) \<longleftrightarrow> True"
| "is_notice (BufferOut t) \<longleftrightarrow> False"

record async_logging =
  running :: bool
  currentBuffer :: "fixed_buffer option"
  nextBuffer :: "fixed_buffer option"
  fullBuffers :: "fixed_buffer list"
  newBuffer1 :: "fixed_buffer option"
  newBuffer2 :: "fixed_buffer option"
  buffersToWrite :: "fixed_buffer list"
  logPc :: log_pc
  outCalls :: "out_call list"
  accepted :: string

abbreviation new_buffer :: fixed_buffer where
  "new_buffer \<equiv> FixedBuffer_new kLargeBuffer"

definition AsyncLogging_new :: async_logging where
  "AsyncLogging_new =
     \<lparr>running = False, currentBuffer = Some (fb_bzero new_buffer), nextBuffer = Some (fb_bzero new_buffer),
      fullBuffers = [], newBuffer1 = None, newBuffer2 = None, buffersToWrite = [], logPc = LogNotStarted,
      outCalls = [], accepted = []\<rparr>"

section \<open>Operations\<close>

definition al_append :: "string \<Rightarrow> async_logging \<Rightarrow> async_logging option" where
  "al_append logline s =
     do { b \<leftarrow> currentBuffer s;
          let s0 = s\<lparr>accepted := accepted s @ (if length logline < kLargeBuffer then logline else [])\<rparr>;
          if fb_avail b > length logline
          then do { b1 \<leftarrow> fb_append logline b; Some (s0\<lparr>currentBuffer := Some b1\<rparr>) }
          else do { let s1 = s0\<lparr>fullBuffers := fullBuffers s0 @ [b]\<rparr>;
                    let (cur, nxt) = (case nextBuffer s1 of Some n \<Rightarrow> (n, None) | None \<Rightarrow> (new_buffer, None));
                    b1 \<leftarrow> fb_append logline cur;
                    Some (s1\<lparr>currentBuffer := Some b1, nextBuffer := nxt\<rparr>) } }"

text \<open>\<open>start\<close> with the beginning of \<open>threadFunc\<close>, and \<open>stop\<close> up to the join.\<close>

definition al_start :: "async_logging \<Rightarrow> async_logging" where
  "al_start s =
     s\<lparr>running := True, newBuffer1 := Some (fb_bzero new_buffer), newBuffer2 := Some (fb_bzero new_buffer),
       buffersToWrite := [], logPc := LogTop\<rparr>"

definition al_stop :: "async_logging \<Rightarrow> async_logging" where
  "al_stop s = s\<lparr>running := False\<rparr>"

text \<open>The locked block, from the end of the wait.\<close>

definition al_swap :: "async_logging \<Rightarrow> async_logging option" where
  "al_swap s =
     do { b \<leftarrow> currentBuffer s;
          let s1 = s\<lparr>fullBuffers := fullBuffers s @ [b]\<rparr>;
          let s2 = s1\<lparr>currentBuffer := newBuffer1 s1, newBuffer1 := None\<rparr>;
          let s3 = s2\<lparr>buffersToWrite := fullBuffers s2, fullBuffers := buffersToWrite s2\<rparr>;
          let s4 = (if nextBuffer s3 = None then s3\<lparr>nextBuffer := newBuffer2 s3, newBuffer2 := None\<rparr> else s3);
          assertion (buffersToWrite s4 \<noteq> []);
          Some (s4\<lparr>logPc := LogWriting\<rparr>) }"

definition buffer_empty :: "fixed_buffer option \<Rightarrow> bool" where
  "buffer_empty p \<longleftrightarrow> (case p of Some b \<Rightarrow> fb_length b = 0 | None \<Rightarrow> False)"

definition al_top :: "async_logging \<Rightarrow> async_logging option" where
  "al_top s =
     (if running s
      then do { assertion (buffer_empty (newBuffer1 s));
                assertion (buffer_empty (newBuffer2 s));
                assertion (buffersToWrite s = []);
                if fullBuffers s = [] then Some (s\<lparr>logPc := LogWaiting\<rparr>) else al_swap s }
      else Some (s\<lparr>logPc := LogDone\<rparr>))"

text \<open>The notice is formatted by \<open>snprintf\<close> into 256 bytes; \<open>nowText\<close> is the formatted time.\<close>

definition drop_notice :: "string \<Rightarrow> nat \<Rightarrow> string" where
  "drop_notice nowText n =
     take 255 (''Dropped log messages at '' @ nowText @ '', '' @ convert (int n) @ '' larger buffers'' @ [CHR 0x0A])"

text \<open>One \<open>newBuffer\<close> refilled from the written buffers.\<close>

definition recycle :: "fixed_buffer option \<Rightarrow> fixed_buffer list \<Rightarrow> (fixed_buffer option \<times> fixed_buffer list) option" where
  "recycle p bs =
     (if p = None
      then do { assertion (bs \<noteq> []); Some (Some (fb_reset (last bs)), butlast bs) }
      else Some (p, bs))"

definition al_write :: "string \<Rightarrow> async_logging \<Rightarrow> async_logging option" where
  "al_write nowText s =
     (let bs = buffersToWrite s;
          (out1, bs1) = (if length bs > 25 then ([NoticeOut (drop_notice nowText (length bs - 2))], take 2 bs)
                         else ([], bs));
          out2 = map (\<lambda>b. BufferOut (asString b)) bs1;
          bs2 = (if length bs1 > 2 then take 2 bs1 else bs1)
      in do { (n1, bs3) \<leftarrow> recycle (newBuffer1 s) bs2;
              (n2, bs4) \<leftarrow> recycle (newBuffer2 s) bs3;
              Some (s\<lparr>outCalls := outCalls s @ out1 @ out2, newBuffer1 := n1, newBuffer2 := n2,
                      buffersToWrite := [], logPc := LogTop\<rparr>) })"

section \<open>Steps\<close>

datatype al_op = AlAppend string | AlStart | AlStop | AlTop | AlWake | AlWrite string

fun al_enabled :: "al_op \<Rightarrow> async_logging \<Rightarrow> bool" where
  "al_enabled (AlAppend line) s \<longleftrightarrow> True"
| "al_enabled AlStart s \<longleftrightarrow> logPc s = LogNotStarted"
| "al_enabled AlStop s \<longleftrightarrow> logPc s \<noteq> LogNotStarted"
| "al_enabled AlTop s \<longleftrightarrow> logPc s = LogTop"
| "al_enabled AlWake s \<longleftrightarrow> logPc s = LogWaiting"
| "al_enabled (AlWrite t) s \<longleftrightarrow> logPc s = LogWriting"

fun al_run :: "al_op \<Rightarrow> async_logging \<Rightarrow> async_logging option" where
  "al_run (AlAppend line) s = al_append line s"
| "al_run AlStart s = Some (al_start s)"
| "al_run AlStop s = Some (al_stop s)"
| "al_run AlTop s = al_top s"
| "al_run AlWake s = al_swap s"
| "al_run (AlWrite t) s = al_write t s"

inductive al_step :: "async_logging \<Rightarrow> async_logging \<Rightarrow> bool" where
  step: "al_enabled op s \<Longrightarrow> al_run op s = Some s' \<Longrightarrow> al_step s s'"

inductive_simps al_step_iff: "al_step s s'"

section \<open>The invariant\<close>

definition text_of :: "fixed_buffer list \<Rightarrow> string" where
  "text_of bs = concat (map asString bs)"

definition written :: "async_logging \<Rightarrow> string" where
  "written s = concat (map out_text (filter (\<lambda>c. \<not> is_notice c) (outCalls s)))"

definition pending :: "async_logging \<Rightarrow> string" where
  "pending s = text_of (buffersToWrite s) @ text_of (fullBuffers s) @
     (case currentBuffer s of Some b \<Rightarrow> asString b | None \<Rightarrow> [])"

definition empty_buffer :: "fixed_buffer option \<Rightarrow> bool" where
  "empty_buffer p \<longleftrightarrow> (\<exists>b. p = Some b \<and> fb_inv kLargeBuffer b \<and> asString b = [] \<and> fb_length b = 0)"

definition spare_inv :: "async_logging \<Rightarrow> bool" where
  "spare_inv s \<longleftrightarrow>
     (logPc s \<in> {LogTop, LogWaiting} \<longrightarrow>
        empty_buffer (newBuffer1 s) \<and> empty_buffer (newBuffer2 s) \<and> buffersToWrite s = []) \<and>
     (logPc s = LogWriting \<longrightarrow>
        newBuffer1 s = None \<and> buffersToWrite s \<noteq> [] \<and>
        (if newBuffer2 s = None then 2 \<le> length (buffersToWrite s) else empty_buffer (newBuffer2 s))) \<and>
     (logPc s = LogNotStarted \<longrightarrow> buffersToWrite s = [])"

definition al_inv :: "async_logging \<Rightarrow> bool" where
  "al_inv s \<longleftrightarrow>
     (\<exists>b. currentBuffer s = Some b \<and> fb_inv kLargeBuffer b) \<and>
     (nextBuffer s \<noteq> None \<longrightarrow> empty_buffer (nextBuffer s)) \<and>
     (nextBuffer s = None \<longrightarrow> fullBuffers s \<noteq> []) \<and>
     (\<forall>b \<in> set (fullBuffers s) \<union> set (buffersToWrite s). fb_inv kLargeBuffer b) \<and>
     spare_inv s \<and>
     subseq (written s @ pending s) (accepted s) \<and>
     ((\<forall>c \<in> set (outCalls s). \<not> is_notice c) \<longrightarrow> written s @ pending s = accepted s)"

lemma text_of_simps [simp]:
  "text_of [] = []" "text_of (b # bs) = asString b @ text_of bs" "text_of (bs @ cs) = text_of bs @ text_of cs"
  by (simp_all add: text_of_def)

lemma fb_bzero_new [simp]: "fb_bzero new_buffer = new_buffer"
  by (simp add: fb_bzero_def FixedBuffer_new_def)

lemma empty_buffer_new [simp]: "empty_buffer (Some new_buffer)" "\<not> empty_buffer None"
  by (simp_all add: empty_buffer_def)

lemma empty_buffer_reset: "fb_inv kLargeBuffer b \<Longrightarrow> empty_buffer (Some (fb_reset b))"
  by (simp add: empty_buffer_def)

lemma AsyncLogging_new_inv [simp]: "al_inv AsyncLogging_new"
  by (simp add: al_inv_def spare_inv_def AsyncLogging_new_def written_def pending_def)

lemma subseq_append_same: "subseq xs ys \<Longrightarrow> subseq (xs @ zs) (ys @ zs)"
  by (rule list_emb_append_mono) simp_all

lemma al_append_ok:
  assumes "al_inv s"
  shows "\<exists>s1. al_append line s = Some s1 \<and> al_inv s1 \<and> logPc s1 = logPc s \<and>
    pending s1 = pending s @ (if length line < kLargeBuffer then line else [])"
proof -
  obtain b where b: "currentBuffer s = Some b" "fb_inv kLargeBuffer b" using assms by (auto simp: al_inv_def)
  let ?l = "if length line < kLargeBuffer then line else []"
  have acc: "subseq (written s @ pending s @ ?l) (accepted s @ ?l)"
    "(\<forall>c \<in> set (outCalls s). \<not> is_notice c) \<longrightarrow> written s @ pending s @ ?l = accepted s @ ?l"
    using assms subseq_append_same [of "written s @ pending s" "accepted s" ?l] by (auto simp: al_inv_def)
  show ?thesis
  proof (cases "fb_avail b > length line")
    case True
    from fb_append_fits [OF b(2) True] obtain b1 where
      b1: "fb_append line b = Some b1" "fb_inv kLargeBuffer b1" "asString b1 = asString b @ line" by blast
    have l: "length line < kLargeBuffer" using True asString_avail [OF b(2)] by simp
    let ?s1 = "s\<lparr>accepted := accepted s @ line, currentBuffer := Some b1\<rparr>"
    have "al_append line s = Some ?s1" using True b1(1) b(1) l by (simp add: al_append_def)
    moreover have p: "pending ?s1 = pending s @ line" "written ?s1 = written s"
      using b(1) b1(3) by (simp_all add: pending_def written_def)
    moreover have "al_inv ?s1"
      using assms b1(2) acc l unfolding al_inv_def p by (simp add: spare_inv_def)
    ultimately show ?thesis using l by (intro exI [of _ ?s1]) simp
  next
    case False
    define cur where "cur = (case nextBuffer s of Some n \<Rightarrow> n | None \<Rightarrow> new_buffer)"
    have cur: "fb_inv kLargeBuffer cur" "asString cur = []"
      using assms by (auto simp: cur_def al_inv_def empty_buffer_def split: option.split)
    from fb_append_ok [OF cur(1), of line] obtain b1 where
      b1: "fb_append line cur = Some b1" "fb_inv kLargeBuffer b1"
        "asString b1 = asString cur @ (if length line < fb_avail cur then line else [])" by blast
    then have t: "asString b1 = ?l" using asString_avail [OF cur(1)] cur(2) by simp
    let ?s1 = "s\<lparr>accepted := accepted s @ ?l, fullBuffers := fullBuffers s @ [b], currentBuffer := Some b1,
        nextBuffer := None\<rparr>"
    have "al_append line s = Some ?s1"
      using False b1(1) b(1) by (auto simp: al_append_def cur_def Let_def split: option.split)
    moreover have p: "pending ?s1 = pending s @ ?l" "written ?s1 = written s"
      using b(1) t by (simp_all add: pending_def written_def)
    moreover have "al_inv ?s1"
      using assms b1(2) b(2) acc unfolding al_inv_def p by (auto simp: spare_inv_def)
    ultimately show ?thesis by (intro exI [of _ ?s1]) simp
  qed
qed

lemma al_swap_ok:
  assumes "al_inv s" and "logPc s \<in> {LogTop, LogWaiting}"
  shows "\<exists>s1. al_swap s = Some s1 \<and> al_inv s1"
proof -
  obtain b where b: "currentBuffer s = Some b" "fb_inv kLargeBuffer b" using assms by (auto simp: al_inv_def)
  have e: "empty_buffer (newBuffer1 s)" "empty_buffer (newBuffer2 s)" "buffersToWrite s = []"
    using assms by (auto simp: al_inv_def spare_inv_def)
  then obtain n1 where n1: "newBuffer1 s = Some n1" "fb_inv kLargeBuffer n1" "asString n1 = []"
    by (auto simp: empty_buffer_def)
  obtain n2 where n2: "newBuffer2 s = Some n2" using e(2) by (auto simp: empty_buffer_def)
  let ?s1 = "s\<lparr>fullBuffers := [], currentBuffer := Some n1, newBuffer1 := None,
      buffersToWrite := fullBuffers s @ [b], logPc := LogWriting,
      nextBuffer := (if nextBuffer s = None then newBuffer2 s else nextBuffer s),
      newBuffer2 := (if nextBuffer s = None then None else newBuffer2 s)\<rparr>"
  have "al_swap s = Some ?s1" using b(1) n1(1) e(3) by (simp add: al_swap_def Let_def assertion_def)
  moreover have p: "pending ?s1 = pending s" "written ?s1 = written s"
    using b(1) n1 e(3) by (simp_all add: pending_def written_def)
  moreover have "al_inv ?s1"
    using assms(1) b(2) n1(2) n2 e unfolding al_inv_def p
    by (cases "fullBuffers s") (auto simp: spare_inv_def)
  ultimately show ?thesis by blast
qed

lemma al_top_ok:
  assumes "al_inv s" and "logPc s = LogTop"
  shows "\<exists>s1. al_top s = Some s1 \<and> al_inv s1"
proof -
  have e: "buffer_empty (newBuffer1 s)" "buffer_empty (newBuffer2 s)" "buffersToWrite s = []"
    using assms by (auto simp: al_inv_def spare_inv_def buffer_empty_def empty_buffer_def)
  have "al_inv (s\<lparr>logPc := LogWaiting\<rparr>)" "al_inv (s\<lparr>logPc := LogDone\<rparr>)"
    using assms e(3) unfolding al_inv_def by (simp_all add: spare_inv_def pending_def written_def)
  with al_swap_ok [OF assms(1)] assms(2) e show ?thesis by (simp add: al_top_def assertion_def)
qed

lemma recycle_ok:
  assumes "p = None \<longrightarrow> bs \<noteq> []" and "p \<noteq> None \<longrightarrow> empty_buffer p" and "\<forall>b \<in> set bs. fb_inv kLargeBuffer b"
  shows "\<exists>n cs. recycle p bs = Some (n, cs) \<and> empty_buffer n \<and>
    cs = (if p = None then butlast bs else bs)"
  using assms by (auto simp: recycle_def assertion_def empty_buffer_reset)

lemma al_write_ok:
  assumes "al_inv s" and "logPc s = LogWriting"
  shows "\<exists>s1. al_write t s = Some s1 \<and> al_inv s1 \<and> logPc s1 = LogTop \<and> running s1 = running s \<and>
    text_of (fullBuffers s1) @ (case currentBuffer s1 of Some b \<Rightarrow> asString b | None \<Rightarrow> []) =
    text_of (fullBuffers s) @ (case currentBuffer s of Some b \<Rightarrow> asString b | None \<Rightarrow> [])"
proof -
  let ?bs = "buffersToWrite s"
  define out1 where "out1 = (if length ?bs > 25 then [NoticeOut (drop_notice t (length ?bs - 2))] else [])"
  define bs1 where "bs1 = (if length ?bs > 25 then take 2 ?bs else ?bs)"
  define bs2 where "bs2 = (if length bs1 > 2 then take 2 bs1 else bs1)"
  have w: "newBuffer1 s = None" "?bs \<noteq> []" "newBuffer2 s \<noteq> None \<longrightarrow> empty_buffer (newBuffer2 s)"
    "newBuffer2 s = None \<longrightarrow> 2 \<le> length ?bs"
    using assms by (auto simp: al_inv_def spare_inv_def split: if_splits)
  have fb: "\<forall>b \<in> set bs2. fb_inv kLargeBuffer b"
    using assms(1) by (auto simp: al_inv_def bs1_def bs2_def dest!: in_set_takeD)
  have len: "bs2 \<noteq> []" "newBuffer2 s = None \<longrightarrow> length bs2 = 2"
    using w by (auto simp: bs1_def bs2_def)
  from recycle_ok [of "newBuffer1 s" bs2] w(1) len(1) fb obtain n1 where
    n1: "recycle (newBuffer1 s) bs2 = Some (n1, butlast bs2)" "empty_buffer n1" by auto
  have "newBuffer2 s = None \<longrightarrow> butlast bs2 \<noteq> []" using len(2) by (cases bs2) auto
  from recycle_ok [OF this w(3)] fb obtain n2 cs where
    n2: "recycle (newBuffer2 s) (butlast bs2) = Some (n2, cs)" "empty_buffer n2"
    by (auto dest: in_set_butlastD)
  let ?s1 = "s\<lparr>outCalls := outCalls s @ out1 @ map (\<lambda>b. BufferOut (asString b)) bs1, newBuffer1 := n1,
      newBuffer2 := n2, buffersToWrite := [], logPc := LogTop\<rparr>"
  have "al_write t s =
      do { (n1, bs3) \<leftarrow> recycle (newBuffer1 s) bs2;
           (n2, bs4) \<leftarrow> recycle (newBuffer2 s) bs3;
           Some (s\<lparr>outCalls := outCalls s @ out1 @ map (\<lambda>b. BufferOut (asString b)) bs1, newBuffer1 := n1,
             newBuffer2 := n2, buffersToWrite := [], logPc := LogTop\<rparr>) }"
    unfolding al_write_def Let_def out1_def bs1_def bs2_def by simp
  then have r: "al_write t s = Some ?s1" by (simp add: n1(1) n2(1))
  let ?rest = "text_of (fullBuffers s) @ (case currentBuffer s of Some b \<Rightarrow> asString b | None \<Rightarrow> [])"
  have p: "pending ?s1 = ?rest" by (simp add: pending_def)
  have "filter (\<lambda>c. \<not> is_notice c) out1 = []" by (simp add: out1_def)
  then have wr: "written ?s1 = written s @ text_of bs1"
    by (simp add: written_def text_of_def comp_def)
  have ps: "pending s = text_of ?bs @ ?rest" by (simp add: pending_def)
  obtain cs where c: "?bs = bs1 @ cs" by (metis append_take_drop_id append_Nil2 bs1_def)
  have "subseq ?rest (text_of cs @ ?rest)" by (rule subseq_drop_many) simp
  then have "subseq (text_of bs1 @ ?rest) (text_of bs1 @ text_of cs @ ?rest)"
    by (rule list_emb_append_mono [OF subseq_order.order_refl])
  then have "subseq (text_of bs1 @ ?rest) (text_of ?bs @ ?rest)" using c by simp
  then have "subseq (written s @ text_of bs1 @ ?rest) (written s @ pending s)"
    unfolding ps by (rule list_emb_append_mono [OF subseq_order.order_refl])
  with assms(1) have "subseq (written ?s1 @ pending ?s1) (accepted ?s1)"
    unfolding wr p al_inv_def by (auto intro: subseq_order.trans)
  moreover have "written ?s1 @ pending ?s1 = accepted ?s1"
    if "\<forall>c \<in> set (outCalls ?s1). \<not> is_notice c"
  proof -
    have "out1 = []" using that by (auto simp: out1_def split: if_splits)
    then have "bs1 = ?bs" by (auto simp: out1_def bs1_def split: if_splits)
    with assms(1) that show ?thesis unfolding wr p al_inv_def ps by auto
  qed
  ultimately have "al_inv ?s1"
    using assms(1) n1(2) n2(2) unfolding al_inv_def by (simp add: spare_inv_def)
  with r show ?thesis by simp
qed

lemma al_op_ok:
  assumes "al_inv s" and "al_enabled op s"
  shows "\<exists>s1. al_run op s = Some s1 \<and> al_inv s1"
proof (cases op)
  case AlStart
  with assms show ?thesis
    by (auto simp: al_start_def al_inv_def spare_inv_def written_def pending_def)
next
  case AlStop
  with assms(1) show ?thesis by (simp add: al_stop_def al_inv_def spare_inv_def written_def pending_def)
qed (use assms al_append_ok al_top_ok al_swap_ok al_write_ok in fastforce)+

lemma al_reachable:
  assumes "al_step\<^sup>*\<^sup>* AsyncLogging_new s"
  shows "al_inv s"
  using assms
proof (induction rule: rtranclp_induct)
  case (step y z)
  from step(2) obtain op where "al_enabled op y" "al_run op y = Some z"
    unfolding al_step_iff by blast
  with al_op_ok [OF step(3)] show ?case by fastforce
qed simp

section \<open>Properties\<close>

text \<open>The hand-over of buffers never goes wrong. In every interleaving of the appending threads, \<open>stop\<close> and the
  logging thread, none of the assertions of \<open>threadFunc\<close> fails, no null buffer is dereferenced or swapped
  in, and no byte is written outside a buffer: each operation that may run next succeeds.\<close>

theorem async_logging_never_fails:
  assumes "al_step\<^sup>*\<^sup>* AsyncLogging_new s" and "al_enabled op s"
  shows "al_run op s \<noteq> None"
  using al_op_ok [OF al_reachable [OF assms(1)] assms(2)] by auto


text \<open>\<open>stop\<close> can lose lines. If a line is appended while the logging thread is writing and \<open>stop\<close> is called
  before that write ends, the thread leaves its loop without another swap: the line was accepted, is still in
  memory, and is never written, since \<open>threadFunc\<close> only flushes the file after the loop.\<close>

theorem async_logging_stop_loses_lines:
  assumes "al_step\<^sup>*\<^sup>* AsyncLogging_new s" and "logPc s = LogWriting" and "length line < kLargeBuffer"
  shows "\<exists>s1 s2 s3 front. al_append line s = Some s1 \<and> al_write t (al_stop s1) = Some s2 \<and>
    al_top s2 = Some s3 \<and> logPc s3 = LogDone \<and> outCalls s3 = outCalls s2 \<and> pending s3 = front @ line"
proof -
  have inv: "al_inv s" by (rule al_reachable [OF assms(1)])
  from al_append_ok [OF inv, of line] assms(2,3) obtain s1 where
    s1: "al_append line s = Some s1" "al_inv s1" "logPc s1 = LogWriting" "pending s1 = pending s @ line" by auto
  have stop: "al_inv (al_stop s1)"
    using s1(2) by (simp add: al_stop_def al_inv_def spare_inv_def written_def pending_def)
  have pc: "logPc (al_stop s1) = LogWriting" using s1(3) by (simp add: al_stop_def)
  from al_write_ok [OF stop pc, of t] obtain s2 where
    s2: "al_write t (al_stop s1) = Some s2" "al_inv s2" "logPc s2 = LogTop" "running s2 = running (al_stop s1)"
      "text_of (fullBuffers s2) @ (case currentBuffer s2 of Some b \<Rightarrow> asString b | None \<Rightarrow> []) =
       text_of (fullBuffers (al_stop s1)) @
         (case currentBuffer (al_stop s1) of Some b \<Rightarrow> asString b | None \<Rightarrow> [])" by blast
  then have "buffersToWrite s2 = []" by (simp add: al_inv_def spare_inv_def)
  with s2(5) have p2: "pending s2 = text_of (fullBuffers s1) @
      (case currentBuffer s1 of Some b \<Rightarrow> asString b | None \<Rightarrow> [])"
    by (simp add: pending_def al_stop_def)
  let ?s3 = "s2\<lparr>logPc := LogDone\<rparr>"
  have "al_top s2 = Some ?s3" using s2(4) by (simp add: al_top_def al_stop_def)
  moreover have "pending ?s3 = pending s2" by (simp add: pending_def)
  moreover have "\<exists>front. pending s2 = front @ line"
  proof -
    have e: "text_of (buffersToWrite s1) @ pending s2 = pending s @ line"
      using s1(4) p2 by (simp add: pending_def)
    have "buffersToWrite s1 = buffersToWrite s"
      using s1(1) by (auto simp: al_append_def Let_def split: Option.bind_splits if_splits option.splits)
    then have "text_of (buffersToWrite s1) @ pending s2 = text_of (buffersToWrite s1) @
        (text_of (fullBuffers s) @ (case currentBuffer s of Some b \<Rightarrow> asString b | None \<Rightarrow> [])) @ line"
      using e by (simp add: pending_def)
    then show ?thesis unfolding same_append_eq by blast
  qed
  ultimately show ?thesis using s1(1) s2(1) by (metis async_logging.select_convs(8,9) async_logging.update_convs(8)
    async_logging.surjective)
qed

definition demo_writing :: async_logging where
  "demo_writing = the (al_swap ((al_start AsyncLogging_new)\<lparr>logPc := LogWaiting\<rparr>))"

lemma demo_writing_reachable:
  "al_step\<^sup>*\<^sup>* AsyncLogging_new demo_writing" "logPc demo_writing = LogWriting"
proof -
  let ?s1 = "al_start AsyncLogging_new"
  let ?s2 = "?s1\<lparr>logPc := LogWaiting\<rparr>"
  have "al_step AsyncLogging_new ?s1"
    by (rule al_step.step [of AlStart]) (simp_all add: AsyncLogging_new_def)
  moreover have "al_step ?s1 ?s2"
    by (rule al_step.step [of AlTop])
      (simp_all add: al_start_def al_top_def buffer_empty_def assertion_def AsyncLogging_new_def)
  moreover have sw: "al_swap ?s2 = Some demo_writing" "logPc demo_writing = LogWriting"
    by (simp_all add: demo_writing_def al_swap_def al_start_def AsyncLogging_new_def assertion_def Let_def)
  have "al_step ?s2 demo_writing"
    by (rule al_step.step [of AlWake]) (simp_all add: sw)
  ultimately show "al_step\<^sup>*\<^sup>* AsyncLogging_new demo_writing"
    by (meson converse_rtranclp_into_rtranclp r_into_rtranclp)
  show "logPc demo_writing = LogWriting" by (rule sw(2))
qed

theorem async_logging_never_fails_witness:
  "al_run (AlWrite ''20120808 17:40:42.065793'') demo_writing \<noteq> None"
  by (rule async_logging_never_fails [OF demo_writing_reachable(1)]) (simp add: demo_writing_reachable(2))


theorem async_logging_stop_loses_lines_witness:
  "\<exists>s1 s2 s3 front. al_append ''last words'' demo_writing = Some s1 \<and> al_write [] (al_stop s1) = Some s2 \<and>
    al_top s2 = Some s3 \<and> logPc s3 = LogDone \<and> outCalls s3 = outCalls s2 \<and> pending s3 = front @ ''last words''"
  by (rule async_logging_stop_loses_lines [OF demo_writing_reachable]) (simp add: kLargeBuffer_def)

end
