(* ===== verification/Muduo_StdMap.thy ===== *)
theory Muduo_StdMap
  imports Muduo_Prelude "HOL-Library.List_Lexorder" "HOL-Library.Char_ord"
begin

text \<open>
  \<open>std::map\<close> as its list of pairs in increasing order of the keys, the order in which it is iterated:
  \<open>m[k] = v\<close>, \<open>erase(k)\<close> with its count, and lookup by \<open>map_of\<close>. Strings are ordered by their bytes.
\<close>

type_synonym ('k, 'v) std_map = "('k \<times> 'v) list"

fun map_set :: "'k::linorder \<Rightarrow> 'v \<Rightarrow> ('k, 'v) std_map \<Rightarrow> ('k, 'v) std_map" where
  "map_set k v [] = [(k, v)]"
| "map_set k v ((k', v') # m) =
     (if k < k' then (k, v) # (k', v') # m
      else if k = k' then (k, v) # m
      else (k', v') # map_set k v m)"

definition map_erase :: "'k \<Rightarrow> ('k, 'v) std_map \<Rightarrow> nat \<times> ('k, 'v) std_map" where
  "map_erase k m =
     (let m' = filter (\<lambda>e. fst e \<noteq> k) m in (length m - length m', m'))"

definition map_inv :: "('k::linorder, 'v) std_map \<Rightarrow> bool" where
  "map_inv m \<longleftrightarrow> sorted_wrt (<) (map fst m)"

lemma map_inv_Nil [simp]: "map_inv []"
  by (simp add: map_inv_def)

lemma map_of_map_set [simp]: "map_inv m \<Longrightarrow> map_of (map_set k v m) = (map_of m)(k \<mapsto> v)"
  by (induction k v m rule: map_set.induct) (auto simp: map_inv_def fun_eq_iff)

lemma keys_map_set: "set (map fst (map_set k v m)) = insert k (set (map fst m))"
  by (induction k v m rule: map_set.induct) auto

lemma map_inv_set [simp]: "map_inv m \<Longrightarrow> map_inv (map_set k v m)"
proof (induction k v m rule: map_set.induct)
  case (2 k v k' v' m)
  then show ?case using keys_map_set [of k v m] by (auto simp: map_inv_def)
qed (simp add: map_inv_def)

lemma map_inv_distinct: "map_inv m \<Longrightarrow> distinct (map fst m)"
  by (simp add: map_inv_def strict_sorted_iff)

lemma map_of_map_erase [simp]: "map_of (snd (map_erase k m)) = (map_of m)(k := None)"
  by (induction m) (auto simp: map_erase_def Let_def fun_eq_iff)

lemma map_inv_erase [simp]: "map_inv m \<Longrightarrow> map_inv (snd (map_erase k m))"
  by (induction m) (auto simp: map_inv_def map_erase_def Let_def)

lemma map_erase_count:
  assumes "map_inv m"
  shows "fst (map_erase k m) = (if map_of m k = None then 0 else 1)"
proof -
  have "distinct (map fst m) \<Longrightarrow> length m - length (filter (\<lambda>e. fst e \<noteq> k) m) = (if map_of m k = None then 0 else 1)"
  proof (induction m)
    case (Cons e m)
    have "fst e = k \<Longrightarrow> filter (\<lambda>e. fst e \<noteq> k) m = m"
      using Cons.prems by (intro filter_True) (auto simp: image_iff)
    moreover have "length (filter (\<lambda>e. fst e \<noteq> k) m) \<le> length m" by simp
    ultimately show ?case using Cons by (cases e) (auto simp: Suc_diff_le split: if_splits)
  qed simp
  with map_inv_distinct [OF assms] show ?thesis by (simp add: map_erase_def Let_def)
qed

end
