(* ===== verification/Muduo_Http.thy ===== *)
theory Muduo_Http
  imports Muduo_Buffer Muduo_LogStream Muduo_Timestamp Muduo_StdMap
begin

text \<open>
  The HTTP server (\<open>muduo/net/http\<close>: \<open>HttpRequest.h\<close>, \<open>HttpContext.h\<close>, \<open>HttpResponse.h\<close>,
  \<open>HttpResponse.cc\<close>, \<open>HttpServer.cc\<close>): an incremental parser over the connection's input buffer, the
  request it fills, and the response it sends.

  \<open>httpCallback_\<close> is a parameter:
  a function of the request and of the response it may change. What \<open>onMessage\<close> does to the connection
  is the list of \<open>http_event\<close>s. A failed assertion is \<open>None\<close> (or \<open>Abort\<close> inside the parse loop).
\<close>

section \<open>Requests\<close>

datatype Method = kInvalid | kGet | kPost | kHead | kPut | kDelete
datatype Version = kUnknown | kHttp10 | kHttp11

type_synonym string_map = "(string, string) std_map"

record http_request =
  reqMethod :: Method
  reqVersion :: Version
  reqPath :: string
  reqReceiveTime :: Timestamp
  reqHeaders :: string_map

definition HttpRequest_new :: http_request where
  "HttpRequest_new = \<lparr>reqMethod = kInvalid, reqVersion = kUnknown, reqPath = [],
     reqReceiveTime = Timestamp_invalid, reqHeaders = []\<rparr>"

definition method_of :: "string \<Rightarrow> Method" where
  "method_of m =
     (if m = ''GET'' then kGet
      else if m = ''POST'' then kPost
      else if m = ''HEAD'' then kHead
      else if m = ''PUT'' then kPut
      else if m = ''DELETE'' then kDelete
      else kInvalid)"

definition setMethod :: "string \<Rightarrow> http_request \<Rightarrow> (bool \<times> http_request) option" where
  "setMethod m req =
     do { assertion (reqMethod req = kInvalid);
          Some (method_of m \<noteq> kInvalid, req\<lparr>reqMethod := method_of m\<rparr>) }"

definition methodString :: "http_request \<Rightarrow> string" where
  "methodString req =
     (case reqMethod req of
        kGet \<Rightarrow> ''GET'' | kPost \<Rightarrow> ''POST'' | kHead \<Rightarrow> ''HEAD'' | kPut \<Rightarrow> ''PUT'' | kDelete \<Rightarrow> ''DELETE''
      | kInvalid \<Rightarrow> ''UNKNOWN'')"

text \<open>\<open>isspace\<close> of the C locale.\<close>

definition isspace :: "char \<Rightarrow> bool" where
  "isspace c \<longleftrightarrow> c \<in> {CHR '' '', CHR 0x09, CHR 0x0A, CHR 0x0B, CHR 0x0C, CHR 0x0D}"

text \<open>\<open>addHeader(start, colon, end)\<close>: the field and what follows the colon.\<close>

definition addHeader :: "string \<Rightarrow> string \<Rightarrow> http_request \<Rightarrow> http_request" where
  "addHeader field rest req =
     (let value = dropWhile isspace rest;
          value' = rev (dropWhile isspace (rev value))
      in req\<lparr>reqHeaders := map_set field value' (reqHeaders req)\<rparr>)"

definition getHeader :: "string \<Rightarrow> http_request \<Rightarrow> string" where
  "getHeader field req = (case map_of (reqHeaders req) field of Some v \<Rightarrow> v | None \<Rightarrow> [])"

text \<open>\<open>swap\<close> exchanges everything but the version.\<close>

definition HttpRequest_swap :: "http_request \<Rightarrow> http_request \<Rightarrow> http_request \<times> http_request" where
  "HttpRequest_swap req that =
     (that\<lparr>reqVersion := reqVersion req\<rparr>, req\<lparr>reqVersion := reqVersion that\<rparr>)"

section \<open>The parse context\<close>

datatype HttpRequestParseState = kExpectRequestLine | kExpectHeaders | kExpectBody | kGotAll

record http_context =
  ctxState :: HttpRequestParseState
  ctxRequest :: http_request

definition HttpContext_new :: http_context where
  "HttpContext_new = \<lparr>ctxState = kExpectRequestLine, ctxRequest = HttpRequest_new\<rparr>"

definition receiveRequestLine :: "http_context \<Rightarrow> http_context" where
  "receiveRequestLine c = c\<lparr>ctxState := kExpectHeaders\<rparr>"

definition receiveHeaders :: "http_context \<Rightarrow> http_context" where
  "receiveHeaders c = c\<lparr>ctxState := kGotAll\<rparr>"

definition HttpContext_reset :: "http_context \<Rightarrow> http_context" where
  "HttpContext_reset c =
     \<lparr>ctxState = kExpectRequestLine, ctxRequest = fst (HttpRequest_swap (ctxRequest c) HttpRequest_new)\<rparr>"

section \<open>Parsing\<close>

definition processRequestLine :: "string \<Rightarrow> http_context \<Rightarrow> (bool \<times> http_context) option" where
  "processRequestLine line c =
     (let sp = std_find (CHR '' '') line
      in if sp \<noteq> length line
         then do { (ok, req) \<leftarrow> setMethod (take sp line) (ctxRequest c);
                   let c1 = c\<lparr>ctxRequest := req\<rparr>;
                   if ok
                   then let rest = drop (sp + 1) line; sp2 = std_find (CHR '' '') rest
                        in if sp2 \<noteq> length rest
                           then let req1 = req\<lparr>reqPath := take sp2 rest\<rparr>;
                                    ver = drop (sp2 + 1) rest
                                in if length ver = 8 \<and> take 7 ver = ''HTTP/1.''
                                   then if last ver = CHR ''1''
                                        then Some (True, c1\<lparr>ctxRequest := req1\<lparr>reqVersion := kHttp11\<rparr>\<rparr>)
                                        else if last ver = CHR ''0''
                                        then Some (True, c1\<lparr>ctxRequest := req1\<lparr>reqVersion := kHttp10\<rparr>\<rparr>)
                                        else Some (False, c1\<lparr>ctxRequest := req1\<rparr>)
                                   else Some (False, c1\<lparr>ctxRequest := req1\<rparr>)
                           else Some (False, c1)
                   else Some (False, c1) }
         else Some (False, c))"

type_synonym parse_state = "bool \<times> buffer \<times> http_context"

text \<open>The \<open>while (hasMore)\<close> loop of \<open>parseRequest\<close>; the state is \<open>ok\<close>, the buffer and the context.\<close>

definition parse_iter :: "Timestamp \<Rightarrow> parse_state \<Rightarrow> parse_state iter" where
  "parse_iter receiveTime s =
     (case s of (ok, buf, c) \<Rightarrow>
      case ctxState c of
        kExpectRequestLine \<Rightarrow>
          (case findCRLF buf of
             Some crlf \<Rightarrow>
               (case processRequestLine (subrange (peek buf) crlf (bufData buf)) c of
                  None \<Rightarrow> Abort
                | Some (ok', c1) \<Rightarrow>
                    if ok'
                    then let c2 = c1\<lparr>ctxRequest := (ctxRequest c1)\<lparr>reqReceiveTime := receiveTime\<rparr>\<rparr>
                         in (case retrieveUntil buf (crlf + 2) of
                               None \<Rightarrow> Abort
                             | Some buf1 \<Rightarrow> Again (True, buf1, receiveRequestLine c2))
                    else Break (False, buf, c1))
           | None \<Rightarrow> Break (ok, buf, c))
      | kExpectHeaders \<Rightarrow>
          (case findCRLF buf of
             Some crlf \<Rightarrow>
               let line = subrange (peek buf) crlf (bufData buf);
                   colon = std_find (CHR '':'') line
               in (case retrieveUntil buf (crlf + 2) of
                     None \<Rightarrow> Abort
                   | Some buf1 \<Rightarrow>
                       if colon \<noteq> length line
                       then Again (ok, buf1,
                              c\<lparr>ctxRequest := addHeader (take colon line) (drop (colon + 1) line) (ctxRequest c)\<rparr>)
                       else Break (ok, buf1, receiveHeaders c))
           | None \<Rightarrow> Break (ok, buf, c))
      | kExpectBody \<Rightarrow> Again (ok, buf, c)
      | kGotAll \<Rightarrow> Again (ok, buf, c))"

text \<open>A line has at least its two end bytes, which bounds the number of iterations.\<close>

definition parseRequest :: "Timestamp \<Rightarrow> buffer \<Rightarrow> http_context \<Rightarrow> parse_state outcome" where
  "parseRequest receiveTime buf c =
     run_loop (parse_iter receiveTime) (Suc (readableBytes buf)) (True, buf, c)"

section \<open>Responses\<close>

record http_response =
  respHeaders :: string_map
  statusCode :: int
  statusMessage :: string
  closeConnection :: bool
  respBody :: string

definition HttpResponse_new :: "bool \<Rightarrow> http_response" where
  "HttpResponse_new close =
     \<lparr>respHeaders = [], statusCode = 0, statusMessage = [], closeConnection = close, respBody = []\<rparr>"

definition resp_addHeader :: "string \<Rightarrow> string \<Rightarrow> http_response \<Rightarrow> http_response" where
  "resp_addHeader key v r = r\<lparr>respHeaders := map_set key v (respHeaders r)\<rparr>"

definition setContentType :: "string \<Rightarrow> http_response \<Rightarrow> http_response" where
  "setContentType t = resp_addHeader ''Content-Type'' t"

text \<open>The pieces \<open>appendToBuffer\<close> appends; the two formatted ones go through a buffer of 32 bytes.\<close>

definition response_pieces :: "http_response \<Rightarrow> string list" where
  "response_pieces r =
     [take 31 (''HTTP/1.1 '' @ convert (statusCode r) @ '' ''), statusMessage r, kCRLF] @
     (if closeConnection r then [''Connection: close'' @ kCRLF]
      else [take 31 (''Content-Length: '' @ convert (int (length (respBody r))) @ kCRLF),
            ''Connection: Keep-Alive'' @ kCRLF]) @
     concat (map (\<lambda>(k, v). [k, '': '', v, kCRLF]) (respHeaders r)) @
     [kCRLF, respBody r]"

fun append_pieces :: "string list \<Rightarrow> buffer \<Rightarrow> buffer option" where
  "append_pieces [] b = Some b"
| "append_pieces (p # ps) b =
     do { b1 \<leftarrow> append_piece b \<lparr>spData = p, spLength = int_of_size (length p)\<rparr>; append_pieces ps b1 }"

definition appendToBuffer :: "http_response \<Rightarrow> buffer \<Rightarrow> buffer option" where
  "appendToBuffer r output = append_pieces (response_pieces r) output"

definition defaultHttpCallback :: "http_request \<Rightarrow> http_response \<Rightarrow> http_response" where
  "defaultHttpCallback req r = r\<lparr>statusCode := 404, statusMessage := ''Not Found'', closeConnection := True\<rparr>"

section \<open>The server\<close>

datatype http_event = HttpCall http_request | HttpSend string | HttpShutdown

definition bad_request :: string where
  "bad_request = ''HTTP/1.1 400 Bad Request'' @ kCRLF @ kCRLF"

definition onRequest :: "(http_request \<Rightarrow> http_response \<Rightarrow> http_response) \<Rightarrow> http_request \<Rightarrow> http_event list option" where
  "onRequest httpCallback req =
     (let connection = getHeader ''Connection'' req;
          close = (connection = ''close'' \<or> (reqVersion req = kHttp10 \<and> connection \<noteq> ''Keep-Alive''));
          response = httpCallback req (HttpResponse_new close)
      in do { buf \<leftarrow> appendToBuffer response Buffer_new;
              Some ([HttpCall req, HttpSend (contents buf)] @
                    (if closeConnection response then [HttpShutdown] else [])) })"

definition http_onConnection :: "bool \<Rightarrow> http_context option \<Rightarrow> http_context option" where
  "http_onConnection connected c = (if connected then Some HttpContext_new else c)"

definition http_onMessage :: "(http_request \<Rightarrow> http_response \<Rightarrow> http_response) \<Rightarrow> Timestamp \<Rightarrow> buffer \<Rightarrow> http_context \<Rightarrow>
    (http_event list \<times> buffer \<times> http_context) option" where
  "http_onMessage httpCallback receiveTime buf c =
     (case parseRequest receiveTime buf c of
        Finished (ok, buf1, c1) \<Rightarrow>
          let ev = (if \<not> ok then [HttpSend bad_request, HttpShutdown] else [])
          in if ctxState c1 = kGotAll
             then do { ev' \<leftarrow> onRequest httpCallback (ctxRequest c1);
                       Some (ev @ ev', buf1, HttpContext_reset c1) }
             else Some (ev, buf1, c1)
      | _ \<Rightarrow> None)"

section \<open>One line\<close>

text \<open>What a line (without its end) does to a context whose time is left aside; \<open>None\<close> when the line is
  refused or the context is not reading lines.\<close>

definition line_step :: "http_context \<Rightarrow> string \<Rightarrow> http_context option" where
  "line_step c line =
     (case ctxState c of
        kExpectRequestLine \<Rightarrow>
          (case processRequestLine line c of
             Some (True, c1) \<Rightarrow> Some (receiveRequestLine c1)
           | _ \<Rightarrow> None)
      | kExpectHeaders \<Rightarrow>
          (let colon = std_find (CHR '':'') line
           in Some (if colon \<noteq> length line
                    then c\<lparr>ctxRequest := addHeader (take colon line) (drop (colon + 1) line) (ctxRequest c)\<rparr>
                    else receiveHeaders c))
      | _ \<Rightarrow> None)"

fun feed :: "http_context \<Rightarrow> string list \<Rightarrow> http_context option" where
  "feed c [] = Some c"
| "feed c (l # ls) = do { c1 \<leftarrow> line_step c l; feed c1 ls }"

definition erase_req :: "http_request \<Rightarrow> http_request" where
  "erase_req req = req\<lparr>reqReceiveTime := Timestamp_invalid\<rparr>"

definition erase :: "http_context \<Rightarrow> http_context" where
  "erase c = c\<lparr>ctxRequest := erase_req (ctxRequest c)\<rparr>"

lemma erase_simps [simp]:
  "ctxState (erase c) = ctxState c" "ctxRequest (erase c) = erase_req (ctxRequest c)"
  "erase_req (req\<lparr>reqReceiveTime := t\<rparr>) = erase_req req" "erase (erase c) = erase c"
  "erase (c\<lparr>ctxRequest := req\<rparr>) = (erase c)\<lparr>ctxRequest := erase_req req\<rparr>"
  "erase (receiveHeaders c) = receiveHeaders (erase c)"
  "erase (receiveRequestLine c) = receiveRequestLine (erase c)"
  by (simp_all add: erase_def erase_req_def receiveHeaders_def receiveRequestLine_def)

lemma erase_addHeader [simp]: "erase_req (addHeader f v req) = addHeader f v (erase_req req)"
  by (simp add: erase_req_def addHeader_def Let_def)

lemma processRequestLine_erase:
  "processRequestLine line (erase c) = map_option (\<lambda>(ok, c1). (ok, erase c1)) (processRequestLine line c)"
  by (simp add: processRequestLine_def setMethod_def erase_def erase_req_def assertion_def Let_def)

text \<open>The first line end in a buffer whose contents begin with a whole line.\<close>

lemma std_search_CRLF:
  "CHR 0x0D \<notin> set line \<Longrightarrow> std_search kCRLF (line @ kCRLF @ ys) = length line"
proof (induction line)
  case (Cons x line)
  have "take (length kCRLF) ((x # line) @ kCRLF @ ys) \<noteq> kCRLF"
    using Cons(2) by (auto simp: kCRLF_def)
  with Cons show ?case by simp
qed (simp add: kCRLF_def)

lemma no_CRLF_empty: "std_search kCRLF [] = length []"
  by simp

lemma findCRLF_wait:
  assumes "buffer_inv b" and "std_search kCRLF (contents b) = length (contents b)"
  shows "findCRLF b = None"
  using findCRLF_eq [OF assms(1)] assms(2) by (simp add: Let_def)

lemma findCRLF_line:
  assumes inv: "buffer_inv b" and c: "contents b = line @ kCRLF @ xs" and l: "CHR 0x0D \<notin> set line"
  shows "findCRLF b = Some (peek b + length line)"
    and "subrange (peek b) (peek b + length line) (bufData b) = line"
    and "\<exists>b'. retrieveUntil b (peek b + length line + 2) = Some b' \<and> buffer_inv b' \<and> contents b' = xs \<and>
      buffer_size b' = buffer_size b"
proof -
  show "findCRLF b = Some (peek b + length line)"
    using findCRLF_eq [OF inv] std_search_CRLF [OF l, of xs] c by (simp add: Let_def kCRLF_def)
  show "subrange (peek b) (peek b + length line) (bufData b) = line"
    using front_bytes [OF inv, of "length line"] c by simp
  from retrieveUntil_ok [OF inv, of "length line + 2"] c
  show "\<exists>b'. retrieveUntil b (peek b + length line + 2) = Some b' \<and> buffer_inv b' \<and> contents b' = xs \<and>
      buffer_size b' = buffer_size b" by (simp add: kCRLF_def add.assoc)
qed

lemma parse_iter_wait:
  assumes "buffer_inv b" and "std_search kCRLF (contents b) = length (contents b)"
    and "ctxState c = kExpectRequestLine \<or> ctxState c = kExpectHeaders"
  shows "parse_iter t (ok, b, c) = Break (ok, b, c)"
  using findCRLF_wait [OF assms(1,2)] assms(3) by (auto simp: parse_iter_def)

lemma parse_iter_line:
  assumes inv: "buffer_inv b" and c: "contents b = line @ kCRLF @ xs" and l: "CHR 0x0D \<notin> set line"
    and step: "line_step (erase c) line = Some c2"
  shows "\<exists>b' c1. buffer_inv b' \<and> contents b' = xs \<and> buffer_size b' = buffer_size b \<and> erase c1 = c2 \<and>
    parse_iter t (True, b, c) =
      (if ctxState c1 = kGotAll then Break (True, b', c1) else Again (True, b', c1))"
proof -
  note f = findCRLF_line [OF inv c l]
  from f(3) obtain b' where b': "retrieveUntil b (peek b + length line + 2) = Some b'" "buffer_inv b'"
    "contents b' = xs" "buffer_size b' = buffer_size b" by blast
  show ?thesis
  proof (cases "ctxState c")
    case kExpectRequestLine
    then obtain c1 where c1: "processRequestLine line c = Some (True, c1)"
      "c2 = receiveRequestLine (erase c1)"
      using step processRequestLine_erase [of line c]
      by (auto simp: line_step_def split: option.splits bool.splits)
    then show ?thesis using kExpectRequestLine f(1,2) b'
      by (intro exI [of _ b'] exI [of _ "receiveRequestLine (c1\<lparr>ctxRequest := (ctxRequest c1)\<lparr>reqReceiveTime := t\<rparr>\<rparr>)"])
        (simp add: parse_iter_def receiveRequestLine_def erase_def erase_req_def)
  next
    case kExpectHeaders
    let ?k = "std_find (CHR '':'') line"
    let ?c1 = "c\<lparr>ctxRequest := addHeader (take ?k line) (drop (?k + 1) line) (ctxRequest c)\<rparr>"
    show ?thesis
    proof (cases "?k = length line")
      case True
      then have "erase (receiveHeaders c) = c2"
        using kExpectHeaders step by (simp add: line_step_def Let_def)
      moreover have "parse_iter t (True, b, c) = Break (True, b', receiveHeaders c)"
        using kExpectHeaders f(1,2) b'(1) True by (simp add: parse_iter_def Let_def)
      moreover have "ctxState (receiveHeaders c) = kGotAll" by (simp add: receiveHeaders_def)
      ultimately
      show ?thesis using b' by (intro exI [of _ b'] exI [of _ "receiveHeaders c"]) simp
    next
      case False
      then have "erase ?c1 = c2" "parse_iter t (True, b, c) = Again (True, b', ?c1)"
        "ctxState ?c1 \<noteq> kGotAll"
        using kExpectHeaders f(1,2) b'(1) step
        by (simp_all add: parse_iter_def line_step_def Let_def)
      with b' show ?thesis by (intro exI [of _ b'] exI [of _ ?c1]) simp
    qed
  qed (use step in \<open>auto simp: line_step_def\<close>)
qed

section \<open>A request in pieces\<close>

definition lines_text :: "string list \<Rightarrow> string" where
  "lines_text ls = concat (map (\<lambda>l. l @ kCRLF) ls)"

lemma lines_text_simps [simp]: "lines_text [] = []" "lines_text (l # ls) = l @ kCRLF @ lines_text ls"
  by (simp_all add: lines_text_def)

definition waiting :: "buffer \<Rightarrow> bool" where
  "waiting b \<longleftrightarrow> std_search kCRLF (contents b) = length (contents b)"

text \<open>When the unread stream begins with a line, the buffer holds the whole line or no line end.\<close>

lemma line_or_wait:
  assumes "xs @ ys = line @ kCRLF @ zs" and "CHR 0x0D \<notin> set line"
  shows "std_search kCRLF xs = length xs \<or> (\<exists>xs'. xs = line @ kCRLF @ xs' \<and> xs' @ ys = zs)"
proof (cases "std_search kCRLF xs < length xs")
  case True
  have s: "std_search kCRLF (xs @ ys) = length line" using std_search_CRLF [OF assms(2)] assms(1) by simp
  then have s': "std_search kCRLF xs = length line" using std_search_append [OF True, of ys] by simp
  have "length line + 2 \<le> length xs" using std_search_hit [OF True] s' by (simp add: kCRLF_def)
  then have "xs = take (length line + 2) (xs @ ys) @ drop (length line + 2) xs" by simp
  also have "take (length line + 2) (xs @ ys) = line @ kCRLF"
    unfolding assms(1) by (simp add: kCRLF_def)
  finally have "xs = line @ kCRLF @ drop (length line + 2) xs" by simp
  moreover from this assms(1) have "drop (length line + 2) xs @ ys = zs"
    by (metis append.assoc same_append_eq)
  ultimately show ?thesis by blast
next
  case False
  with std_search_le [of kCRLF xs] show ?thesis by simp
qed

lemma waiting_lines:
  "waiting b \<Longrightarrow> contents b = lines_text ls @ zs \<Longrightarrow> \<forall>l \<in> set ls. CHR 0x0D \<notin> set l \<Longrightarrow> ls = []"
  using std_search_CRLF [of "hd ls" "lines_text (tl ls) @ zs"]
  by (cases ls) (auto simp: waiting_def kCRLF_def)

lemma parse_lines:
  assumes "buffer_inv b" and "contents b @ ys = lines_text ls @ zs" and "\<forall>l \<in> set ls. CHR 0x0D \<notin> set l"
    and "feed (erase c) ls = Some cf" and "ctxState cf = kGotAll" and "ctxState c = kExpectRequestLine \<or> ctxState c = kExpectHeaders"
    and "length (contents b) < n"
  shows "\<exists>b' c' ls'. run_loop (parse_iter t) n (True, b, c) = Finished (True, b', c') \<and> buffer_inv b' \<and>
    buffer_size b' = buffer_size b \<and> contents b' @ ys = lines_text ls' @ zs \<and> set ls' \<subseteq> set ls \<and>
    feed (erase c') ls' = Some cf \<and> ctxState c' \<noteq> kExpectBody \<and>
    (if ctxState c' = kGotAll then ls' = [] else waiting b')"
  using assms
proof (induction ls arbitrary: b c n)
  case Nil
  then have False by (auto dest: arg_cong [where f = ctxState])
  then show ?case ..
next
  case (Cons l ls)
  obtain m where m: "n = Suc m" using Cons.prems(7) by (cases n) auto
  have l: "CHR 0x0D \<notin> set l" using Cons.prems(3) by simp
  from line_or_wait [of "contents b" ys l "lines_text ls @ zs"] Cons.prems(2) l consider
    (wait) "std_search kCRLF (contents b) = length (contents b)"
    | (line) xs' where "contents b = l @ kCRLF @ xs'" "xs' @ ys = lines_text ls @ zs" by auto
  then show ?case
  proof cases
    case wait
    then have "parse_iter t (True, b, c) = Break (True, b, c)"
      using parse_iter_wait [OF Cons.prems(1) _ Cons.prems(6)] by simp
    with Cons.prems m wait show ?thesis
      by (intro exI [of _ b] exI [of _ c] exI [of _ "l # ls"]) (auto simp: waiting_def)
  next
    case line
    obtain c2 where c2: "line_step (erase c) l = Some c2" "feed c2 ls = Some cf"
      using Cons.prems(4) by (auto split: Option.bind_splits)
    from parse_iter_line [OF Cons.prems(1) line(1) l c2(1), of t] obtain b' c1 where
      b': "buffer_inv b'" "contents b' = xs'" "buffer_size b' = buffer_size b" "erase c1 = c2"
        "parse_iter t (True, b, c) =
          (if ctxState c1 = kGotAll then Break (True, b', c1) else Again (True, b', c1))" by blast
    have st: "ctxState c1 \<noteq> kExpectBody"
    proof -
      have "ctxState c2 \<noteq> kExpectBody" using c2(1) Cons.prems(6)
        by (auto simp: line_step_def receiveRequestLine_def receiveHeaders_def Let_def
            split: option.splits bool.splits if_splits)
      with b'(4) show ?thesis by auto
    qed
    show ?thesis
    proof (cases "ctxState c1 = kGotAll")
      case True
      have "ls = []"
      proof (cases ls)
        case (Cons l' ls')
        have "ctxState c2 = kGotAll" using True b'(4) by auto
        with c2(2) Cons show ?thesis by (simp add: line_step_def)
      qed simp
      with True m b' line c2(2) show ?thesis by (intro exI [of _ b'] exI [of _ c1] exI [of _ "[]"]) auto
    next
      case False
      then have s: "ctxState c1 = kExpectRequestLine \<or> ctxState c1 = kExpectHeaders"
        using st by (cases "ctxState c1") auto
      have "length (contents b') < m" using Cons.prems(7) m line(1) b'(2) by (simp add: kCRLF_def)
      from Cons.IH [OF b'(1) _ _ _ Cons.prems(5) s this] b' line(2) c2(2) Cons.prems(3) obtain b2 c' ls' where
        r: "run_loop (parse_iter t) m (True, b', c1) = Finished (True, b2, c')" "buffer_inv b2"
          "buffer_size b2 = buffer_size b'" "contents b2 @ ys = lines_text ls' @ zs" "set ls' \<subseteq> set ls"
          "feed (erase c') ls' = Some cf" "ctxState c' \<noteq> kExpectBody"
          "if ctxState c' = kGotAll then ls' = [] else waiting b2" by auto
      with m b'(3,5) False show ?thesis
        by (intro exI [of _ b2] exI [of _ c'] exI [of _ ls']) auto
    qed
  qed
qed

section \<open>Sending a response\<close>

lemma append_pieces_ok:
  "buffer_inv b \<Longrightarrow> buffer_size b + length (concat ps) \<le> vector_max \<Longrightarrow> length (concat ps) < 2 ^ 31 \<Longrightarrow>
   \<exists>b'. append_pieces ps b = Some b' \<and> buffer_inv b' \<and> contents b' = contents b @ concat ps"
proof (induction ps arbitrary: b)
  case (Cons p ps)
  let ?sp = "\<lparr>spData = p, spLength = int_of_size (length p)\<rparr>"
  have "length p < 2 ^ 31" using Cons.prems(3) by simp
  then have "spLength ?sp = int (length p)" by (simp add: int_of_size_exact)
  from append_piece_ok [OF Cons.prems(1) this] Cons.prems(2) obtain b1 where b1:
    "append_piece b ?sp = Some b1" "buffer_inv b1" "contents b1 = contents b @ p"
    "buffer_size b1 \<le> buffer_size b + length p" by auto
  moreover have "buffer_size b1 + length (concat ps) \<le> vector_max" using b1(4) Cons.prems(2) by simp
  moreover have "length (concat ps) < 2 ^ 31" using Cons.prems(3) by simp
  ultimately show ?case using Cons.IH [of b1] by auto
qed simp

definition response_ok :: "http_response \<Rightarrow> bool" where
  "response_ok r \<longleftrightarrow> length (concat (response_pieces r)) < 2 ^ 31"

definition wants_close :: "http_request \<Rightarrow> bool" where
  "wants_close req \<longleftrightarrow> getHeader ''Connection'' req = ''close'' \<or>
     (reqVersion req = kHttp10 \<and> getHeader ''Connection'' req \<noteq> ''Keep-Alive'')"

definition answer :: "(http_request \<Rightarrow> http_response \<Rightarrow> http_response) \<Rightarrow> http_request \<Rightarrow> http_event list" where
  "answer cb req =
     (let r = cb req (HttpResponse_new (wants_close req))
      in [HttpCall req, HttpSend (concat (response_pieces r))] @ (if closeConnection r then [HttpShutdown] else []))"

lemma onRequest_answer:
  assumes "response_ok (cb req (HttpResponse_new (wants_close req)))"
  shows "onRequest cb req = Some (answer cb req)"
proof -
  let ?r = "cb req (HttpResponse_new (wants_close req))"
  have len: "length (concat (response_pieces ?r)) < 2 ^ 31" using assms by (simp add: response_ok_def)
  then have "buffer_size Buffer_new + length (concat (response_pieces ?r)) \<le> vector_max"
    by (simp add: vector_max_def)
  from append_pieces_ok [OF Buffer_new_inv this len] obtain b' where
    "append_pieces (response_pieces ?r) Buffer_new = Some b'" "contents b' = concat (response_pieces ?r)"
    by auto
  then show ?thesis
    by (simp add: onRequest_def answer_def appendToBuffer_def wants_close_def Let_def)
qed

section \<open>Requests on the wire\<close>

text \<open>A request as a client writes it: method, path, the digit of the version, header fields.\<close>

type_synonym wire_request = "string \<times> string \<times> char \<times> (string \<times> string) list"

definition request_line :: "string \<Rightarrow> string \<Rightarrow> char \<Rightarrow> string" where
  "request_line m path v = m @ '' '' @ path @ '' HTTP/1.'' @ [v]"

definition header_line :: "string \<times> string \<Rightarrow> string" where
  "header_line h = fst h @ '': '' @ snd h"

fun request_lines :: "wire_request \<Rightarrow> string list" where
  "request_lines (m, path, v, hs) = request_line m path v # map header_line hs @ [[]]"

definition request_text :: "wire_request \<Rightarrow> string" where
  "request_text rq = lines_text (request_lines rq)"

definition trimmed :: "string \<Rightarrow> bool" where
  "trimmed x \<longleftrightarrow> x = [] \<or> (\<not> isspace (hd x) \<and> \<not> isspace (last x))"

definition valid_header :: "string \<times> string \<Rightarrow> bool" where
  "valid_header h \<longleftrightarrow> CHR '':'' \<notin> set (fst h) \<and> CHR 0x0D \<notin> set (fst h) \<and> CHR 0x0D \<notin> set (snd h) \<and>
     trimmed (snd h)"

fun valid_request :: "wire_request \<Rightarrow> bool" where
  "valid_request (m, path, v, hs) \<longleftrightarrow>
     m \<in> {''GET'', ''POST'', ''HEAD'', ''PUT'', ''DELETE''} \<and> CHR '' '' \<notin> set path \<and> CHR 0x0D \<notin> set path \<and>
     v \<in> {CHR ''0'', CHR ''1''} \<and> (\<forall>h \<in> set hs. valid_header h)"

text \<open>The request object the server should hand to the callback, its time left aside.\<close>

fun expected_request :: "wire_request \<Rightarrow> http_request" where
  "expected_request (m, path, v, hs) =
     \<lparr>reqMethod = method_of m, reqVersion = (if v = CHR ''1'' then kHttp11 else kHttp10), reqPath = path,
      reqReceiveTime = Timestamp_invalid, reqHeaders = fold (\<lambda>(f, x) hm. map_set f x hm) hs []\<rparr>"

definition idle :: "http_context \<Rightarrow> bool" where
  "idle c \<longleftrightarrow> ctxState c = kExpectRequestLine \<and>
     ctxRequest c = HttpRequest_new\<lparr>reqVersion := reqVersion (ctxRequest c)\<rparr>"

lemma idle_new: "idle HttpContext_new"
  by (simp add: idle_def HttpContext_new_def)

lemma idle_reset: "idle (HttpContext_reset c)"
  by (simp add: idle_def HttpContext_reset_def HttpRequest_swap_def HttpRequest_new_def)

lemma idle_eq: "idle c \<Longrightarrow> c = \<lparr>ctxState = kExpectRequestLine, ctxRequest = HttpRequest_new\<lparr>reqVersion := reqVersion (ctxRequest c)\<rparr>\<rparr>"
  by (cases c) (simp add: idle_def)

lemma idleE:
  assumes "idle c"
  obtains v where "c = \<lparr>ctxState = kExpectRequestLine, ctxRequest = HttpRequest_new\<lparr>reqVersion := v\<rparr>\<rparr>"
  using idle_eq [OF assms] by blast

lemma erase_idle: "idle c \<Longrightarrow> erase c = c"
  by (erule idleE) (simp add: erase_def erase_req_def HttpRequest_new_def)

section \<open>What the lines of a valid request do\<close>

lemma std_find_sep [simp]: "c \<notin> set xs \<Longrightarrow> std_find c (xs @ c # ys) = length xs"
  by (simp add: std_find_append)

lemma trim_trimmed:
  assumes "trimmed x"
  shows "dropWhile isspace (CHR '' '' # x) = x" "rev (dropWhile isspace (rev x)) = x"
proof -
  show "dropWhile isspace (CHR '' '' # x) = x"
    using assms by (cases x) (auto simp: trimmed_def isspace_def)
  show "rev (dropWhile isspace (rev x)) = x"
    using assms by (cases x rule: rev_cases) (auto simp: trimmed_def)
qed

lemma addHeader_valid:
  assumes "trimmed x"
  shows "addHeader f (CHR '' '' # x) req = req\<lparr>reqHeaders := map_set f x (reqHeaders req)\<rparr>"
  using trim_trimmed [OF assms] by (simp add: addHeader_def Let_def)

lemma line_step_header:
  assumes "ctxState c = kExpectHeaders" and "valid_header h"
  shows "line_step c (header_line h) = Some (c\<lparr>ctxRequest := (ctxRequest c)
    \<lparr>reqHeaders := map_set (fst h) (snd h) (reqHeaders (ctxRequest c))\<rparr>\<rparr>)"
  using assms addHeader_valid [of "snd h" "fst h"]
  by (simp add: line_step_def header_line_def valid_header_def Let_def)

lemma feed_headers:
  "ctxState c = kExpectHeaders \<Longrightarrow> \<forall>h \<in> set hs. valid_header h \<Longrightarrow>
   feed c (map header_line hs @ [[]]) = Some (receiveHeaders (c\<lparr>ctxRequest := (ctxRequest c)
     \<lparr>reqHeaders := fold (\<lambda>(f, x) hm. map_set f x hm) hs (reqHeaders (ctxRequest c))\<rparr>\<rparr>))"
proof (induction hs arbitrary: c)
  case Nil
  then show ?case by (simp add: line_step_def)
next
  case (Cons h hs)
  then show ?case by (simp add: line_step_header split_def)
qed

lemma processRequestLine_valid:
  assumes "m \<in> {''GET'', ''POST'', ''HEAD'', ''PUT'', ''DELETE''}" "CHR '' '' \<notin> set path"
    "v \<in> {CHR ''0'', CHR ''1''}" "reqMethod (ctxRequest c) = kInvalid"
  shows "processRequestLine (request_line m path v) c = Some (True, c\<lparr>ctxRequest := (ctxRequest c)
    \<lparr>reqMethod := method_of m, reqPath := path, reqVersion := (if v = CHR ''1'' then kHttp11 else kHttp10)\<rparr>\<rparr>)"
proof -
  have m: "CHR '' '' \<notin> set m" "method_of m \<noteq> kInvalid" using assms(1) by (auto simp: method_of_def)
  have find: "std_find (CHR '' '') (request_line m path v) = length m" "length m < length (request_line m path v)"
    "take (length m) (request_line m path v) = m"
    "drop (Suc (length m)) (request_line m path v) = path @ CHR '' '' # ''HTTP/1.'' @ [v]"
    using m by (simp_all add: request_line_def)
  show ?thesis using assms(2-4) m(2) find
    by (auto simp: processRequestLine_def setMethod_def assertion_def Let_def)
qed

lemma feed_request:
  assumes "idle c" and "valid_request rq"
  shows "\<exists>cf. feed (erase c) (request_lines rq) = Some cf \<and> ctxState cf = kGotAll \<and>
    ctxRequest cf = expected_request rq"
proof (cases rq)
  case (fields m path v hs)
  obtain w where c: "c = \<lparr>ctxState = kExpectRequestLine, ctxRequest = HttpRequest_new\<lparr>reqVersion := w\<rparr>\<rparr>"
    using assms(1) by (rule idleE)
  have "reqMethod (ctxRequest c) = kInvalid" using c by (simp add: HttpRequest_new_def)
  with assms(2) fields have "line_step c (request_line m path v) = Some (receiveRequestLine
    (c\<lparr>ctxRequest := (ctxRequest c)\<lparr>reqMethod := method_of m, reqPath := path,
      reqVersion := (if v = CHR ''1'' then kHttp11 else kHttp10)\<rparr>\<rparr>))"
    using c processRequestLine_valid [of m path v c] by (auto simp: line_step_def)
  then show ?thesis using fields assms erase_idle [OF assms(1)] c
    by (simp add: feed_headers receiveRequestLine_def receiveHeaders_def HttpRequest_new_def)
qed

lemma request_lines_no_CR: "valid_request rq \<Longrightarrow> \<forall>l \<in> set (request_lines rq). CHR 0x0D \<notin> set l"
  by (cases rq) (auto simp: request_line_def header_line_def valid_header_def)

section \<open>Receiving requests\<close>

text \<open>The receiving side of a connection: each chunk is read at some time with \<open>readFd\<close>, then
  \<open>onMessage\<close> runs on the input buffer.\<close>

fun http_receive :: "(http_request \<Rightarrow> http_response \<Rightarrow> http_response) \<Rightarrow> (Timestamp \<times> string) list \<Rightarrow> buffer \<Rightarrow>
    http_context \<Rightarrow> (http_event list \<times> buffer \<times> http_context) option" where
  "http_receive cb [] b c = Some ([], b, c)"
| "http_receive cb ((t, d) # cs) b c =
     do { (n, e, b1) \<leftarrow> readFd b (Inr d);
          (ev, b2, c2) \<leftarrow> http_onMessage cb t b1 c;
          (ev', b3, c3) \<leftarrow> http_receive cb cs b2 c2;
          Some (ev @ ev', b3, c3) }"

lemma http_receive_append:
  "http_receive cb (cs @ ds) b c =
     do { (ev, b1, c1) \<leftarrow> http_receive cb cs b c;
          (ev', b2, c2) \<leftarrow> http_receive cb ds b1 c1;
          Some (ev @ ev', b2, c2) }"
  by (induction cs arbitrary: b c) (auto simp: split_def split: Option.bind_splits)

definition cut_of :: "string \<Rightarrow> (Timestamp \<times> string) list \<Rightarrow> bool" where
  "cut_of text cs \<longleftrightarrow> concat (map snd cs) = text \<and> (\<forall>d \<in> set cs. snd d \<noteq> [] \<and> length (snd d) \<le> kExtraBuf)"

lemma receive_one:
  assumes cb: "\<forall>req close. response_ok (cb req (HttpResponse_new close))"
  shows "buffer_inv b \<Longrightarrow> waiting b \<Longrightarrow> contents b @ concat (map snd cs) = lines_text ls \<Longrightarrow>
    \<forall>l \<in> set ls. CHR 0x0D \<notin> set l \<Longrightarrow> feed (erase c) ls = Some cf \<Longrightarrow> ctxState cf = kGotAll \<Longrightarrow>
    ctxState c = kExpectRequestLine \<or> ctxState c = kExpectHeaders \<Longrightarrow>
    \<forall>d \<in> set cs. snd d \<noteq> [] \<and> length (snd d) \<le> kExtraBuf \<Longrightarrow>
    buffer_size b + length (concat (map snd cs)) \<le> vector_max \<Longrightarrow>
    \<exists>req b' c'. http_receive cb cs b c = Some (answer cb req, b', c') \<and> erase_req req = ctxRequest cf \<and>
      buffer_inv b' \<and> contents b' = [] \<and> idle c' \<and>
      buffer_size b' \<le> buffer_size b + length (concat (map snd cs))"
proof (induction cs arbitrary: b c ls)
  case Nil
  have "ls = []"
  proof (cases ls)
    case (Cons l ls')
    with Nil.prems(2-4) std_search_CRLF [of l "lines_text ls'"] show ?thesis
      by (simp add: waiting_def kCRLF_def)
  qed simp
  with Nil.prems(5-7) have False by (auto dest: arg_cong [where f = ctxState])
  then show ?case ..
next
  case (Cons d cs)
  obtain t x where d: "d = (t, x)" by (cases d)
  have x: "x \<noteq> []" "length x \<le> kExtraBuf" using Cons.prems(8) d by auto
  then have "readv_ok b (Inr x)" by (simp add: readv_ok_def trans_le_add2)
  from readFd_ok [OF Cons.prems(1) this] Cons.prems(9) d obtain b1 where b1:
    "readFd b (Inr x) = Some (int (length x), None, b1)" "buffer_inv b1"
    "contents b1 = contents b @ x" "buffer_size b1 \<le> buffer_size b + length x" by auto
  have "contents b1 @ concat (map snd cs) = lines_text ls" using Cons.prems(3) b1(3) d by simp
  moreover have "length (contents b1) < Suc (readableBytes b1)" using length_contents [OF b1(2)] by simp
  ultimately obtain b2 c2 ls2 where p:
    "parseRequest t b1 c = Finished (True, b2, c2)" "buffer_inv b2" "buffer_size b2 = buffer_size b1"
    "contents b2 @ concat (map snd cs) = lines_text ls2" "set ls2 \<subseteq> set ls" "feed (erase c2) ls2 = Some cf"
    "ctxState c2 \<noteq> kExpectBody" "if ctxState c2 = kGotAll then ls2 = [] else waiting b2"
    using parse_lines [OF b1(2) _ Cons.prems(4,5,6,7), of _ "[]" _ t] unfolding parseRequest_def append_Nil2 by blast
  show ?case
  proof (cases "ctxState c2 = kGotAll")
    case True
    then have e: "contents b2 = []" "concat (map snd cs) = []" using p(4,8) by simp_all
    then have "cs = []" using Cons.prems(8) by (cases cs) auto
    moreover have "erase_req (ctxRequest c2) = ctxRequest cf" using True p(6,8) by auto
    moreover have "http_onMessage cb t b1 c = Some (answer cb (ctxRequest c2), b2, HttpContext_reset c2)"
      using p(1) True onRequest_answer [of cb] cb by (simp add: http_onMessage_def)
    ultimately show ?thesis using d b1(1,4) p(2,3) e(1) idle_reset [of c2]
      by (intro exI [of _ "ctxRequest c2"]) simp
  next
    case False
    then have m: "http_onMessage cb t b1 c = Some ([], b2, c2)" using p(1) by (simp add: http_onMessage_def)
    have "ctxState c2 = kExpectRequestLine \<or> ctxState c2 = kExpectHeaders"
      using False p(7) by (cases "ctxState c2") auto
    moreover have "\<forall>l \<in> set ls2. CHR 0x0D \<notin> set l" using p(5) Cons.prems(4) by blast
    ultimately obtain req b' c' where "http_receive cb cs b2 c2 = Some (answer cb req, b', c')"
      "erase_req req = ctxRequest cf" "buffer_inv b'" "contents b' = []" "idle c'"
      "buffer_size b' \<le> buffer_size b2 + length (concat (map snd cs))"
      using Cons.IH [OF p(2) _ p(4) _ p(6) Cons.prems(6)] False p(3,8) b1(4) Cons.prems(8,9) d by auto
    with d b1(1,4) m p(3) show ?thesis by auto
  qed
qed

lemma receive_all:
  assumes cb: "\<forall>req close. response_ok (cb req (HttpResponse_new close))"
  shows "list_all2 (\<lambda>rq cs. valid_request rq \<and> cut_of (request_text rq) cs) rqs css \<Longrightarrow>
    buffer_inv b \<Longrightarrow> contents b = [] \<Longrightarrow> idle c \<Longrightarrow>
    buffer_size b + length (concat (map request_text rqs)) \<le> vector_max \<Longrightarrow>
    \<exists>reqs b' c'. http_receive cb (concat css) b c = Some (concat (map (answer cb) reqs), b', c') \<and>
      map erase_req reqs = map expected_request rqs \<and> contents b' = [] \<and> idle c'"
proof (induction rqs css arbitrary: b c rule: list_all2_induct)
  case (Cons rq rqs cs css)
  from feed_request [OF Cons.prems(3)] Cons.hyps obtain cf where cf:
    "feed (erase c) (request_lines rq) = Some cf" "ctxState cf = kGotAll" "ctxRequest cf = expected_request rq"
    by blast
  have "contents b @ concat (map snd cs) = lines_text (request_lines rq)"
    "\<forall>d \<in> set cs. snd d \<noteq> [] \<and> length (snd d) \<le> kExtraBuf" "waiting b"
    and len: "length (concat (map snd cs)) = length (request_text rq)"
    using Cons.hyps Cons.prems(2) by (simp_all add: cut_of_def request_text_def waiting_def)
  moreover have "ctxState c = kExpectRequestLine" using Cons.prems(3) by (simp add: idle_def)
  moreover have "buffer_size b + length (concat (map snd cs)) \<le> vector_max" using len Cons.prems(4) by simp
  moreover have "\<forall>l \<in> set (request_lines rq). CHR 0x0D \<notin> set l" using request_lines_no_CR Cons.hyps by blast
  ultimately obtain req b1 c1 where 1: "http_receive cb cs b c = Some (answer cb req, b1, c1)"
    "erase_req req = expected_request rq" "buffer_inv b1" "contents b1 = []" "idle c1"
    "buffer_size b1 \<le> buffer_size b + length (request_text rq)"
    using receive_one [OF cb Cons.prems(1), of cs "request_lines rq" c cf] cf(1,2) unfolding len cf(3) by blast
  then have "buffer_size b1 + length (concat (map request_text rqs)) \<le> vector_max" using Cons.prems(4) by simp
  from Cons.IH [OF 1(3,4,5) this] obtain reqs b' c' where
    "http_receive cb (concat css) b1 c1 = Some (concat (map (answer cb) reqs), b', c')"
    "map erase_req reqs = map expected_request rqs" "contents b' = []" "idle c'" by blast
  with 1(1,2) show ?case by (intro exI [of _ "req # reqs"]) (auto simp: http_receive_append)
qed (auto intro: exI [of _ "[]"])

section \<open>Properties\<close>


lemma default_response_ok: "response_ok (defaultHttpCallback req (HttpResponse_new close))"
  by (simp add: response_ok_def response_pieces_def defaultHttpCallback_def HttpResponse_new_def kCRLF_def)


text \<open>A second request that arrives with the first one is not parsed: \<open>onMessage\<close> answers one
  request and leaves the other, complete, in the buffer until more data arrives.\<close>

theorem http_pipelined_request_waits:
  assumes "buffer_inv b" and "idle c" and "valid_request rq1" and "contents b = request_text rq1 @ request_text rq2"
    and "\<forall>req close. response_ok (cb req (HttpResponse_new close))"
  shows "\<exists>req b' c'. http_onMessage cb t b c = Some (answer cb req, b', c') \<and>
    erase_req req = expected_request rq1 \<and> contents b' = request_text rq2 \<and> idle c'"
proof -
  from feed_request [OF assms(2,3)] obtain cf where cf: "feed (erase c) (request_lines rq1) = Some cf"
    "ctxState cf = kGotAll" "ctxRequest cf = expected_request rq1" by blast
  have "ctxState c = kExpectRequestLine \<or> ctxState c = kExpectHeaders" using assms(2) by (simp add: idle_def)
  from parse_lines [OF assms(1) _ request_lines_no_CR [OF assms(3)] cf(1,2) this, of "[]" "request_text rq2" _ t]
    assms(4) length_contents [OF assms(1)]
  obtain b' c' ls' where p: "parseRequest t b c = Finished (True, b', c')"
    "contents b' = lines_text ls' @ request_text rq2" "feed (erase c') ls' = Some cf"
    "ctxState c' \<noteq> kExpectBody" "if ctxState c' = kGotAll then ls' = [] else waiting b'" "set ls' \<subseteq> set (request_lines rq1)"
    unfolding parseRequest_def request_text_def [of rq1] by fastforce
  have g: "ctxState c' = kGotAll"
  proof (rule ccontr)
    assume n: "ctxState c' \<noteq> kGotAll"
    then have "ls' \<noteq> []" using p(3) cf(2) by (cases ls') auto
    moreover have "\<forall>l \<in> set ls'. CHR 0x0D \<notin> set l" using p(6) request_lines_no_CR [OF assms(3)] by blast
    ultimately show False using waiting_lines [OF _ p(2)] p(5) n by simp
  qed
  then have "ls' = []" using p(5) by simp
  moreover have "http_onMessage cb t b c = Some (answer cb (ctxRequest c'), b', HttpContext_reset c')"
    using p(1) g onRequest_answer [of cb] assms(5) by (simp add: http_onMessage_def)
  ultimately show ?thesis using p(2,3) cf(3) idle_reset by auto
qed

theorem http_pipelined_request_waits_witness:
  "\<exists>b req b' c'. contents b = ''GET / HTTP/1.1'' @ kCRLF @ kCRLF @ ''GET / HTTP/1.0'' @ kCRLF @ kCRLF \<and>
    http_onMessage defaultHttpCallback Timestamp_invalid b HttpContext_new = Some (answer defaultHttpCallback req, b', c') \<and>
    contents b' = ''GET / HTTP/1.0'' @ kCRLF @ kCRLF"
proof -
  let ?rq1 = "(''GET'', ''/'', CHR ''1'', [])" and ?rq2 = "(''GET'', ''/'', CHR ''0'', [])"
  let ?text = "request_text ?rq1 @ request_text ?rq2"
  have "buffer_size Buffer_new + length ?text \<le> vector_max"
    by (simp add: request_text_def request_line_def kCRLF_def vector_max_def)
  from append_ok [OF Buffer_new_inv this] obtain b where b: "buffer_inv b" "contents b = ?text" by auto
  from http_pipelined_request_waits [OF b(1) idle_new _ b(2)] default_response_ok b(2) show ?thesis
    by (fastforce simp: request_text_def request_line_def)
qed

text \<open>A request line with a known method but without a version (an HTTP/0.9 request, say) is
  answered with 400 and left in the buffer with the method set; the next \<open>onMessage\<close> of the connection
  parses it again and fails the assertion of \<open>setMethod\<close>.\<close>

theorem http_bad_request_twice_aborts:
  assumes "buffer_inv b" and "idle c" and "m \<in> {''GET'', ''POST'', ''HEAD'', ''PUT'', ''DELETE''}"
    and "CHR '' '' \<notin> set path" "CHR 0x0D \<notin> set path"
    and "contents b = m @ '' '' @ path @ kCRLF @ rest"
  shows "\<exists>c1. http_onMessage cb t b c = Some ([HttpSend bad_request, HttpShutdown], b, c1) \<and>
    (\<forall>t' b' more. buffer_inv b' \<and> contents b' = contents b @ more \<longrightarrow> http_onMessage cb t' b' c1 = None)"
proof -
  let ?line = "m @ '' '' @ path"
  let ?c1 = "c\<lparr>ctxRequest := (ctxRequest c)\<lparr>reqMethod := method_of m\<rparr>\<rparr>"
  have m: "CHR '' '' \<notin> set m" "CHR 0x0D \<notin> set m" "method_of m \<noteq> kInvalid"
    using assms(3) by (auto simp: method_of_def)
  then have line: "CHR 0x0D \<notin> set ?line" using assms(5) by simp
  have find: "std_find (CHR '' '') ?line = length m" "length m < length ?line" "take (length m) ?line = m"
    "drop (Suc (length m)) ?line = path" using m(1) by simp_all
  have path: "std_find (CHR '' '') path = length path"
    using assms(4) std_find_le [of "CHR '' ''" path] std_find_less [of "CHR '' ''" path] by linarith
  have idle: "ctxState c = kExpectRequestLine" "reqMethod (ctxRequest c) = kInvalid"
    using assms(2) by (auto elim!: idleE simp: HttpRequest_new_def)
  have p1: "processRequestLine ?line c = Some (False, ?c1)"
    unfolding processRequestLine_def find using find(2) path idle(2) m(3)
    by (simp add: setMethod_def assertion_def Let_def)
  have p2: "processRequestLine ?line ?c1 = None"
    unfolding processRequestLine_def find using find(2) m(3)
    by (simp add: setMethod_def assertion_def Let_def)
  have c: "contents b = ?line @ kCRLF @ rest" using assms(6) by simp
  note f = findCRLF_line(1,2) [OF assms(1) c line]
  have 1: "http_onMessage cb t b c = Some ([HttpSend bad_request, HttpShutdown], b, ?c1)"
    using f p1 idle(1) by (simp add: http_onMessage_def parseRequest_def parse_iter_def)
  have "http_onMessage cb t' b' ?c1 = None" if "buffer_inv b'" "contents b' = contents b @ more" for t' b' more
  proof -
    have "contents b' = ?line @ kCRLF @ (rest @ more)" using c that(2) by simp
    note f = findCRLF_line(1,2) [OF that(1) this line]
    show ?thesis using f p2 idle(1) by (simp add: http_onMessage_def parseRequest_def parse_iter_def)
  qed
  with 1 show ?thesis by blast
qed

theorem http_bad_request_twice_aborts_witness:
  "\<exists>b c1. contents b = ''GET /'' @ kCRLF \<and>
    http_onMessage defaultHttpCallback Timestamp_invalid b HttpContext_new = Some ([HttpSend bad_request, HttpShutdown], b, c1) \<and>
    http_onMessage defaultHttpCallback Timestamp_invalid b c1 = None"
proof -
  have "buffer_size Buffer_new + length (''GET /'' @ kCRLF) \<le> vector_max"
    by (simp add: kCRLF_def vector_max_def)
  from append_ok [OF Buffer_new_inv this] obtain b where b: "buffer_inv b" "contents b = ''GET /'' @ kCRLF" by auto
  have "contents b = ''GET'' @ '' '' @ ''/'' @ kCRLF @ []" using b(2) by simp
  from http_bad_request_twice_aborts [OF b(1) idle_new _ _ _ this, of defaultHttpCallback Timestamp_invalid] b show ?thesis
    by fastforce
qed

end
