(* ===== verification/Muduo_TcpServer.thy ===== *)
theory Muduo_TcpServer
  imports Muduo_TcpConnection Muduo_LogStream Muduo_StdMap
begin

text \<open>
  \<open>TcpServer\<close>, \<open>Acceptor\<close> and \<open>EventLoopThreadPool\<close> (\<open>muduo/net/TcpServer.h\<close>, \<open>TcpServer.cc\<close>,
  \<open>Acceptor.h\<close>, \<open>Acceptor.cc\<close>, \<open>EventLoopThreadPool.h\<close>, \<open>EventLoopThreadPool.cc\<close>): accepting connections, spreading
  them over the loops of a thread pool, and taking them down again across threads.

  A loop is a number: \<open>0\<close> is the base loop, \<open>i + 1\<close> is \<open>loops_[i]\<close>; \<open>srvQueues\<close> holds the functors each
  loop has been given by \<open>runInLoop\<close> from another thread or by \<open>queueInLoop\<close>. \<open>srvObjs\<close> lists every
  \<open>TcpConnection\<close> made so far, the position is its identity (the \<open>shared_ptr\<close> in functors and map).
  System calls are parameters; a failed assertion, an access to a destroyed server or a \<open>LOG_FATAL\<close> is \<open>None\<close>.
\<close>

section \<open>The thread pool\<close>

type_synonym loop_id = nat

record thread_pool =
  poolStarted :: bool
  numThreads :: int
  poolNext :: nat
  poolLoops :: "loop_id list"
  initCalls :: "loop_id list"

definition EventLoopThreadPool_new :: thread_pool where
  "EventLoopThreadPool_new =
     \<lparr>poolStarted = False, numThreads = 0, poolNext = 0, poolLoops = [], initCalls = []\<rparr>"

text \<open>Each thread calls the callback on its own loop before \<open>startLoop\<close> returns.\<close>

definition pool_start :: "loop_id \<Rightarrow> bool \<Rightarrow> thread_pool \<Rightarrow> thread_pool option" where
  "pool_start th cb p =
     do { assertion (\<not> poolStarted p);
          assertion (th = 0);
          let loops = map Suc [0..<nat (numThreads p)];
          Some (p\<lparr>poolStarted := True, poolLoops := poolLoops p @ loops,
                 initCalls := initCalls p @ (if cb then if numThreads p = 0 then [0] else loops else [])\<rparr>) }"

definition getNextLoop :: "loop_id \<Rightarrow> thread_pool \<Rightarrow> (loop_id \<times> thread_pool) option" where
  "getNextLoop th p =
     do { assertion (th = 0);
          Some (if poolLoops p \<noteq> []
                then let loop = poolLoops p ! poolNext p;
                         next1 = poolNext p + 1
                     in (loop, p\<lparr>poolNext := (if next1 \<ge> length (poolLoops p) then 0 else next1)\<rparr>)
                else (0, p)) }"

section \<open>The acceptor\<close>

record acceptor =
  acceptChannel :: channel
  acceptListenning :: bool
  idleFd :: int
  accClosed :: "int list"

definition Acceptor_new :: "int \<Rightarrow> int \<Rightarrow> acceptor option" where
  "Acceptor_new acceptFd idle =
     do { assertion (idle \<ge> 0);
          Some \<lparr>acceptChannel = (Channel_new acceptFd)\<lparr>hasReadCallback := True\<rparr>, acceptListenning = False,
                idleFd = idle, accClosed = []\<rparr> }"

definition Acceptor_listen :: "acceptor \<Rightarrow> acceptor" where
  "Acceptor_listen a =
     a\<lparr>acceptListenning := True,
       acceptChannel := (acceptChannel a)\<lparr>events := new_events (EnableReading 0) (events (acceptChannel a))\<rparr>\<rparr>"

definition Acceptor_destroy :: "acceptor \<Rightarrow> acceptor" where
  "Acceptor_destroy a =
     a\<lparr>acceptChannel := (acceptChannel a)\<lparr>events := new_events (DisableAll 0) (events (acceptChannel a))\<rparr>,
       accClosed := accClosed a @ [idleFd a]\<rparr>"

text \<open>The \<open>errno\<close> values that \<open>sockets::accept\<close> expects, by their Linux numbers: \<open>EAGAIN\<close>, \<open>ECONNABORTED\<close>,
  \<open>EINTR\<close>, \<open>EPROTO\<close>, \<open>EPERM\<close>, \<open>EMFILE\<close>; any other is fatal.\<close>

definition EMFILE :: int where
  "EMFILE = 24"

definition accept_expected :: "int \<Rightarrow> bool" where
  "accept_expected savedErrno \<longleftrightarrow> savedErrno \<in> {11, 103, 4, 71, 1, EMFILE}"

text \<open>\<open>rv\<close> is the result of \<open>accept4\<close>, \<open>fd2\<close> and \<open>idle2\<close> those of the second \<open>accept\<close> and of \<open>open\<close>.
  The connection to hand to the callback is returned.\<close>

definition Acceptor_handleRead :: "int + int \<Rightarrow> int \<Rightarrow> int \<Rightarrow> acceptor \<Rightarrow> (int option \<times> acceptor) option" where
  "Acceptor_handleRead rv fd2 idle2 a =
     (case rv of
        Inr connfd \<Rightarrow> Some (Some connfd, a)
      | Inl errno \<Rightarrow>
          do { assertion (accept_expected errno);
               Some (None,
                 if errno = EMFILE
                 then a\<lparr>accClosed := accClosed a @ [idleFd a, fd2], idleFd := idle2\<rparr>
                 else a) })"

section \<open>The server\<close>

datatype server_functor =
  AcceptorListen | ConnectEstablished nat | RemoveConnectionInLoop nat | ConnectDestroyed nat

record server_conn =
  connName :: string
  connLoop :: loop_id
  connObj :: tcp_connection

record tcp_server =
  hostport :: string
  srvName :: string
  srvAcceptor :: acceptor
  srvPool :: thread_pool
  hasInitCallback :: bool
  srvStarted :: bool
  nextConnId :: int
  connections :: "(string, nat) std_map"
  srvObjs :: "server_conn list"
  srvQueues :: "loop_id \<Rightarrow> server_functor list"
  srvAlive :: bool

definition TcpServer_new :: "string \<Rightarrow> string \<Rightarrow> acceptor \<Rightarrow> tcp_server" where
  "TcpServer_new hp nameArg acc =
     \<lparr>hostport = hp, srvName = nameArg, srvAcceptor = acc, srvPool = EventLoopThreadPool_new,
      hasInitCallback = False, srvStarted = False, nextConnId = 1, connections = [], srvObjs = [],
      srvQueues = (\<lambda>_. []), srvAlive = True\<rparr>"

definition setThreadNum :: "int \<Rightarrow> tcp_server \<Rightarrow> tcp_server option" where
  "setThreadNum n S =
     do { assertion (0 \<le> n); Some (S\<lparr>srvPool := (srvPool S)\<lparr>numThreads := n\<rparr>\<rparr>) }"

definition setThreadInitCallback :: "tcp_server \<Rightarrow> tcp_server" where
  "setThreadInitCallback S = S\<lparr>hasInitCallback := True\<rparr>"

definition enqueue :: "loop_id \<Rightarrow> server_functor \<Rightarrow> tcp_server \<Rightarrow> tcp_server" where
  "enqueue l f S = S\<lparr>srvQueues := (srvQueues S)(l := srvQueues S l @ [f])\<rparr>"

definition TcpServer_start :: "loop_id \<Rightarrow> tcp_server \<Rightarrow> tcp_server option" where
  "TcpServer_start th S =
     do { S1 \<leftarrow> (if \<not> srvStarted S
                then do { p \<leftarrow> pool_start th (hasInitCallback S) (srvPool S);
                          Some (S\<lparr>srvStarted := True, srvPool := p\<rparr>) }
                else Some S);
          Some (if \<not> acceptListenning (srvAcceptor S1)
                then if th = 0 then S1\<lparr>srvAcceptor := Acceptor_listen (srvAcceptor S1)\<rparr>
                     else enqueue 0 AcceptorListen S1
                else S1) }"

text \<open>\<open>snprintf\<close> into \<open>char buf[32]\<close> keeps 31 characters.\<close>

definition conn_name :: "string \<Rightarrow> string \<Rightarrow> int \<Rightarrow> string" where
  "conn_name sname hp n = sname @ take 31 ('':'' @ hp @ ''#'' @ convert n)"

definition update_obj :: "nat \<Rightarrow> tcp_connection \<Rightarrow> tcp_server \<Rightarrow> tcp_server" where
  "update_obj i s S = S\<lparr>srvObjs := (srvObjs S)[i := (srvObjs S ! i)\<lparr>connObj := s\<rparr>]\<rparr>"

definition run_established :: "nat \<Rightarrow> tcp_server \<Rightarrow> tcp_server option" where
  "run_established i S =
     do { s \<leftarrow> connectEstablished (connObj (srvObjs S ! i)); Some (update_obj i s S) }"

definition run_destroyed :: "nat \<Rightarrow> tcp_server \<Rightarrow> tcp_server option" where
  "run_destroyed i S =
     do { s \<leftarrow> connectDestroyed (connObj (srvObjs S ! i)); Some (update_obj i s S) }"

definition newConnection :: "loop_id \<Rightarrow> int \<Rightarrow> tcp_server \<Rightarrow> tcp_server option" where
  "newConnection th sockfd S =
     do { assertion (srvAlive S \<and> th = 0);
          (ioLoop, p) \<leftarrow> getNextLoop th (srvPool S);
          let name = conn_name (srvName S) (hostport S) (nextConnId S);
          let i = length (srvObjs S);
          let S1 = S\<lparr>srvPool := p, nextConnId := nextConnId S + 1,
                     srvObjs := srvObjs S @ [\<lparr>connName = name, connLoop = ioLoop, connObj = TcpConnection_new sockfd\<rparr>],
                     connections := map_set name i (connections S)\<rparr>;
          (if ioLoop = th then run_established i S1 else Some (enqueue ioLoop (ConnectEstablished i) S1)) }"

definition removeConnectionInLoop :: "loop_id \<Rightarrow> nat \<Rightarrow> tcp_server \<Rightarrow> tcp_server option" where
  "removeConnectionInLoop th i S =
     do { assertion (srvAlive S \<and> th = 0);
          let (n, conns) = map_erase (connName (srvObjs S ! i)) (connections S);
          assertion (n = 1);
          Some (enqueue (connLoop (srvObjs S ! i)) (ConnectDestroyed i)
                 (S\<lparr>connections := conns\<rparr>)) }"

definition removeConnection :: "loop_id \<Rightarrow> nat \<Rightarrow> tcp_server \<Rightarrow> tcp_server option" where
  "removeConnection th i S =
     do { assertion (srvAlive S);
          if th = 0 then removeConnectionInLoop th i S
          else Some (enqueue 0 (RemoveConnectionInLoop i) S) }"

fun run_server_functor :: "loop_id \<Rightarrow> server_functor \<Rightarrow> tcp_server \<Rightarrow> tcp_server option" where
  "run_server_functor th AcceptorListen S =
     do { assertion (srvAlive S \<and> th = 0); Some (S\<lparr>srvAcceptor := Acceptor_listen (srvAcceptor S)\<rparr>) }"
| "run_server_functor th (ConnectEstablished i) S = run_established i S"
| "run_server_functor th (RemoveConnectionInLoop i) S = removeConnectionInLoop th i S"
| "run_server_functor th (ConnectDestroyed i) S = run_destroyed i S"

text \<open>The destructor: the loop over \<open>connections_\<close>, then the members.\<close>

fun destroy_conns :: "loop_id \<Rightarrow> (string, nat) std_map \<Rightarrow> tcp_server \<Rightarrow> tcp_server option" where
  "destroy_conns th [] S = Some S"
| "destroy_conns th ((name, i) # m) S =
     do { S1 \<leftarrow> (if connLoop (srvObjs S ! i) = th then run_destroyed i S
                else Some (enqueue (connLoop (srvObjs S ! i)) (ConnectDestroyed i) S));
          destroy_conns th m S1 }"

definition TcpServer_destroy :: "loop_id \<Rightarrow> tcp_server \<Rightarrow> tcp_server option" where
  "TcpServer_destroy th S =
     do { assertion (th = 0);
          S1 \<leftarrow> destroy_conns th (connections S) S;
          Some (S1\<lparr>connections := [], srvAcceptor := Acceptor_destroy (srvAcceptor S1), srvAlive := False\<rparr>) }"

section \<open>Steps\<close>

text \<open>\<open>OpIo i s\<close> is one handler, call of the user or queued functor on connection \<open>i\<close>, which leaves it in state
  \<open>s\<close>; when it called the close callback, \<open>removeConnection\<close> runs in the thread of the connection's loop.\<close>

definition closeCalls :: "tcp_connection \<Rightarrow> nat" where
  "closeCalls s = length (filter (\<lambda>c. c = CloseCallback) (calls s))"

datatype server_op =
  OpStart loop_id | OpAccept "int + int" int int | OpIo nat tcp_connection | OpLoop loop_id

fun server_enabled :: "server_op \<Rightarrow> tcp_server \<Rightarrow> bool" where
  "server_enabled (OpStart th) S \<longleftrightarrow> srvStarted S \<or> th = 0"
| "server_enabled (OpAccept rv fd2 idle2) S \<longleftrightarrow> \<not> isNoneEvent (acceptChannel (srvAcceptor S)) \<and>
     (case rv of Inr connfd \<Rightarrow> 0 \<le> connfd \<and> nextConnId S < 10 ^ 8 | Inl errno \<Rightarrow> accept_expected errno)"
| "server_enabled (OpIo i s) S \<longleftrightarrow> i < length (srvObjs S) \<and> state (connObj (srvObjs S ! i)) \<noteq> kConnecting \<and>
     conn_step (connObj (srvObjs S ! i)) s \<and> removed s = removed (connObj (srvObjs S ! i))"
| "server_enabled (OpLoop l) S \<longleftrightarrow> srvQueues S l \<noteq> []"

fun server_run :: "server_op \<Rightarrow> tcp_server \<Rightarrow> tcp_server option" where
  "server_run (OpStart th) S = TcpServer_start th S"
| "server_run (OpAccept rv fd2 idle2) S =
     do { (connfd, a) \<leftarrow> Acceptor_handleRead rv fd2 idle2 (srvAcceptor S);
          (case connfd of
             None \<Rightarrow> Some (S\<lparr>srvAcceptor := a\<rparr>)
           | Some sockfd \<Rightarrow> newConnection 0 sockfd (S\<lparr>srvAcceptor := a\<rparr>)) }"
| "server_run (OpIo i s) S =
     (if closeCalls s > closeCalls (connObj (srvObjs S ! i))
      then removeConnection (connLoop (srvObjs S ! i)) i (update_obj i s S)
      else Some (update_obj i s S))"
| "server_run (OpLoop l) S =
     (case srvQueues S l of
        [] \<Rightarrow> None
      | f # fs \<Rightarrow> run_server_functor l f (S\<lparr>srvQueues := (srvQueues S)(l := fs)\<rparr>))"

inductive server_step :: "tcp_server \<Rightarrow> tcp_server \<Rightarrow> bool" where
  step: "server_enabled op S \<Longrightarrow> server_run op S = Some S' \<Longrightarrow> server_step S S'"

inductive_simps server_step_iff: "server_step S S'"

section \<open>One connection's life\<close>

lemma sendInLoop_life: "sendInLoop data w s = Some s' \<Longrightarrow> state s' = state s \<and> calls s' = calls s"
  by (auto simp: sendInLoop_def send_direct_def send_rest_def conn_queueInLoop_def channel_set_def Let_def
      split: if_splits sum.splits prod.splits Option.bind_splits)

lemma handleClose_life:
  "handleClose s = Some s' \<Longrightarrow> up s \<and> state s' = kDisconnected \<and> closeCalls s' = Suc (closeCalls s) \<and>
   removed s' = removed s"
  by (auto simp: handleClose_def up_def closeCalls_def user_call_def channel_set_def setState_def removed_def
      split: if_splits)

definition keeps_life :: "tcp_connection \<Rightarrow> tcp_connection \<Rightarrow> bool" where
  "keeps_life s s' \<longleftrightarrow> up s' = up s \<and> (state s' = kDisconnected) = (state s = kDisconnected) \<and>
     closeCalls s' = closeCalls s"

definition closes :: "tcp_connection \<Rightarrow> tcp_connection \<Rightarrow> bool" where
  "closes s s' \<longleftrightarrow> up s \<and> state s' = kDisconnected \<and> closeCalls s' = Suc (closeCalls s)"

lemma functor_life:
  "run_functor f w s = Some s' \<Longrightarrow> state s' = state s \<and> closeCalls s' = closeCalls s"
  by (cases f) (auto simp: shutdownInLoop_def user_call_def closeCalls_def dest: sendInLoop_life)

lemma handleRead_life:
  assumes "handleRead rv t s = Some s'"
  shows "keeps_life s s' \<or> closes s s'"
proof -
  from assms obtain n e buf where r: "readFd (inputBuffer s) rv = Some (n, e, buf)"
    by (auto simp: handleRead_def split: Option.bind_splits)
  let ?s1 = "s\<lparr>inputBuffer := buf, received := received s @ (case rv of Inr d \<Rightarrow> d | Inl e \<Rightarrow> [])\<rparr>"
  show ?thesis
  proof (cases "n = 0")
    case True
    then have "handleClose ?s1 = Some s'" using assms r by (simp add: handleRead_def)
    from handleClose_life [OF this] show ?thesis by (simp add: closes_def up_def closeCalls_def)
  next
    case False
    then show ?thesis using assms r
      by (auto simp: handleRead_def keeps_life_def up_def closeCalls_def user_call_def Let_def split: if_splits)
  qed
qed

lemma handleWrite_life: "handleWrite w s = Some s' \<Longrightarrow> keeps_life s s'"
  by (auto simp: handleWrite_def shutdownInLoop_def conn_queueInLoop_def channel_set_def Let_def keeps_life_def
      up_def closeCalls_def split: Option.bind_splits if_splits sum.splits)

lemma conn_step_life:
  assumes "conn_step s s'" and "state s \<noteq> kConnecting" and "removed s' = removed s"
  shows "keeps_life s s' \<or> closes s s'"
  using assms(1)
proof cases
  case (send w data b)
  then show ?thesis using sendInLoop_life [of data w s s']
    by (auto simp: conn_send_def conn_queueInLoop_def keeps_life_def up_def closeCalls_def split: if_splits)
next
  case (queued f fs w)
  from functor_life [OF queued(3)] show ?thesis by (simp add: keeps_life_def up_def closeCalls_def)
next
  case (readable rv t)
  from handleRead_life [OF readable(4)] show ?thesis .
next
  case (writable w)
  from handleWrite_life [OF writable(2)] show ?thesis by simp
next
  case hangup
  from handleClose_life [OF hangup(2)] show ?thesis by (simp add: closes_def)
next
  case destroyed
  then have "removed s'" by (auto simp: connectDestroyed_def channel_remove_def removed_def split: if_splits)
  with destroyed(2) assms(3) show ?thesis by (simp add: removed_def)
qed (use assms(2) in \<open>auto simp: keeps_life_def up_def closeCalls_def connectEstablished_def conn_shutdown_def
      shutdownInLoop_def conn_queueInLoop_def setState_def user_retrieve_def setWriteCompleteCallback_def
      setHighWaterMarkCallback_def Let_def split: if_splits Option.bind_splits\<close>)

section \<open>Names\<close>

lemma conn_name_inj:
  assumes "conn_name sname hp m = conn_name sname hp n" and "length hp \<le> 21"
    and "0 \<le> m" "m < 10 ^ 8" "0 \<le> n" "n < 10 ^ 8"
  shows "m = n"
proof -
  have full: "take 31 ('':'' @ hp @ ''#'' @ convert k) = '':'' @ hp @ ''#'' @ convert k" if "0 \<le> k" "k < 10 ^ 8" for k
  proof -
    have "nat k < 10 ^ 8" using that by simp
    then have "length (number_text 10 (nat k)) \<le> 8" by (intro length_number_text) auto
    with that assms(2) show ?thesis by (simp add: convert_eq)
  qed
  have "convert m = convert n"
    using assms(1) unfolding conn_name_def full [OF assms(3,4)] full [OF assms(5,6)] by simp
  then have "number_text 10 (nat m) = number_text 10 (nat n)" using assms(3,5) by (simp add: convert_eq)
  then have "parse_number 10 (number_text 10 (nat m)) = parse_number 10 (number_text 10 (nat n))" by simp
  then have "nat m = nat n" unfolding parse_number_text [of 10, simplified] .
  then show ?thesis using assms(3,5) by simp
qed

section \<open>The invariant\<close>

text \<open>Where a connection is in its life, and the functors of the loops that are about it.\<close>

datatype phase = Fresh | Live | Closing | Erased | Gone

fun phase_state :: "phase \<Rightarrow> tcp_connection \<Rightarrow> bool" where
  "phase_state Fresh s \<longleftrightarrow> state s = kConnecting"
| "phase_state Live s \<longleftrightarrow> up s"
| "phase_state Gone s \<longleftrightarrow> state s = kDisconnected \<and> removed s"
| "phase_state _ s \<longleftrightarrow> state s = kDisconnected \<and> \<not> removed s"

fun in_map :: "phase \<Rightarrow> bool" where
  "in_map Erased = False"
| "in_map Gone = False"
| "in_map _ = True"

fun about :: "nat \<Rightarrow> server_functor \<Rightarrow> bool" where
  "about i AcceptorListen = False"
| "about i (ConnectEstablished j) = (i = j)"
| "about i (RemoveConnectionInLoop j) = (i = j)"
| "about i (ConnectDestroyed j) = (i = j)"

fun pending :: "phase \<Rightarrow> nat \<Rightarrow> loop_id \<Rightarrow> loop_id \<Rightarrow> server_functor list" where
  "pending Fresh i li l = (if l = li then [ConnectEstablished i] else [])"
| "pending Closing i li l = (if l = 0 then [RemoveConnectionInLoop i] else [])"
| "pending Erased i li l = (if l = li then [ConnectDestroyed i] else [])"
| "pending _ i li l = []"

lemma pending_none [simp]: "pending Live i li = (\<lambda>_. [])" "pending Gone i li = (\<lambda>_. [])"
  by (auto simp: fun_eq_iff)

definition loop_of :: "tcp_server \<Rightarrow> nat \<Rightarrow> loop_id" where
  "loop_of S i =
     (let loops = poolLoops (srvPool S) in if loops = [] then 0 else loops ! (i mod length loops))"

definition name_of :: "tcp_server \<Rightarrow> nat \<Rightarrow> string" where
  "name_of S i = conn_name (srvName S) (hostport S) (int i + 1)"

definition conn_ok :: "tcp_server \<Rightarrow> phase \<Rightarrow> (loop_id \<Rightarrow> server_functor list) \<Rightarrow> nat \<Rightarrow> bool" where
  "conn_ok S p q i \<longleftrightarrow>
     connName (srvObjs S ! i) = name_of S i \<and> connLoop (srvObjs S ! i) = loop_of S i \<and>
     conn_inv (connObj (srvObjs S ! i)) \<and> phase_state p (connObj (srvObjs S ! i)) \<and>
     (\<forall>l. filter (about i) (srvQueues S l) = q l) \<and>
     map_of (connections S) (name_of S i) = (if in_map p then Some i else None)"

definition conns_ok :: "tcp_server \<Rightarrow> (nat \<Rightarrow> phase) \<Rightarrow> bool" where
  "conns_ok S ph \<longleftrightarrow> (\<forall>i < length (srvObjs S). conn_ok S (ph i) (pending (ph i) i (loop_of S i)) i)"

text \<open>What does not depend on the connections' states.\<close>

definition server_base :: "tcp_server \<Rightarrow> bool" where
  "server_base S \<longleftrightarrow> srvAlive S \<and> map_inv (connections S) \<and> length (hostport S) \<le> 21 \<and>
     nextConnId S = int (length (srvObjs S)) + 1 \<and> length (srvObjs S) < 10 ^ 8 \<and>
     (\<forall>n i. map_of (connections S) n = Some i \<longrightarrow> i < length (srvObjs S) \<and> n = name_of S i) \<and>
     (\<forall>l f i. f \<in> set (srvQueues S l) \<and> about i f \<longrightarrow> i < length (srvObjs S)) \<and>
     (\<forall>l. AcceptorListen \<in> set (srvQueues S l) \<longrightarrow> l = 0) \<and>
     poolStarted (srvPool S) = srvStarted S \<and> 0 \<le> numThreads (srvPool S) \<and>
     (srvStarted S \<longrightarrow> poolLoops (srvPool S) = map Suc [0..<nat (numThreads (srvPool S))]) \<and>
     (\<not> srvStarted S \<longrightarrow> srvObjs S = [] \<and> poolLoops (srvPool S) = [] \<and> (\<forall>l. srvQueues S l = []) \<and>
       isNoneEvent (acceptChannel (srvAcceptor S))) \<and>
     poolNext (srvPool S) = length (srvObjs S) mod max 1 (length (poolLoops (srvPool S)))"

definition server_inv :: "tcp_server \<Rightarrow> bool" where
  "server_inv S \<longleftrightarrow> server_base S \<and> (\<exists>ph. conns_ok S ph)"

lemma name_of_inj:
  assumes "name_of S i = name_of S j" "length (hostport S) \<le> 21" "i < 99999999" "j < 99999999"
  shows "i = j"
  using conn_name_inj [of "srvName S" "hostport S" "int i + 1" "int j + 1"] assms by (simp add: name_of_def)

lemma base_about:
  "server_base S \<Longrightarrow> f \<in> set (srvQueues S l) \<Longrightarrow> about i f \<Longrightarrow> i < length (srvObjs S)"
  unfolding server_base_def by blast

text \<open>A change that concerns one connection only.\<close>

lemma conn_ok_other:
  assumes "conn_ok S p q j" and "srvObjs S' ! j = srvObjs S ! j" and "hostport S' = hostport S"
    and "srvName S' = srvName S" and "poolLoops (srvPool S') = poolLoops (srvPool S)"
    and "\<And>l. filter (about j) (srvQueues S' l) = filter (about j) (srvQueues S l)"
    and "map_of (connections S') (name_of S j) = map_of (connections S) (name_of S j)"
  shows "conn_ok S' p q j"
  using assms by (simp add: conn_ok_def name_of_def loop_of_def)

lemma filter_enqueue:
  "filter (about j) (srvQueues (enqueue l f S) l') =
     filter (about j) (srvQueues S l') @ (if l' = l \<and> about j f then [f] else [])"
  by (simp add: enqueue_def)

lemma enqueue_simps [simp]:
  "srvObjs (enqueue l f S) = srvObjs S" "hostport (enqueue l f S) = hostport S"
  "srvName (enqueue l f S) = srvName S" "srvPool (enqueue l f S) = srvPool S"
  "connections (enqueue l f S) = connections S" "srvAlive (enqueue l f S) = srvAlive S"
  "nextConnId (enqueue l f S) = nextConnId S" "srvStarted (enqueue l f S) = srvStarted S"
  "srvAcceptor (enqueue l f S) = srvAcceptor S" "hasInitCallback (enqueue l f S) = hasInitCallback S"
  "name_of (enqueue l f S) = name_of S" "loop_of (enqueue l f S) = loop_of S"
  by (auto simp: enqueue_def name_of_def loop_of_def fun_eq_iff)

lemma update_obj_simps [simp]:
  "hostport (update_obj i s S) = hostport S" "srvName (update_obj i s S) = srvName S"
  "srvPool (update_obj i s S) = srvPool S" "connections (update_obj i s S) = connections S"
  "srvAlive (update_obj i s S) = srvAlive S" "nextConnId (update_obj i s S) = nextConnId S"
  "srvStarted (update_obj i s S) = srvStarted S" "srvAcceptor (update_obj i s S) = srvAcceptor S"
  "hasInitCallback (update_obj i s S) = hasInitCallback S" "srvQueues (update_obj i s S) = srvQueues S"
  "length (srvObjs (update_obj i s S)) = length (srvObjs S)"
  "name_of (update_obj i s S) = name_of S" "loop_of (update_obj i s S) = loop_of S"
  by (auto simp: update_obj_def name_of_def loop_of_def fun_eq_iff)

lemma update_obj_nth:
  "i < length (srvObjs S) \<Longrightarrow> srvObjs (update_obj i s S) ! j =
     (if j = i then (srvObjs S ! i)\<lparr>connObj := s\<rparr> else srvObjs S ! j)"
  by (simp add: update_obj_def)

definition others_ok :: "tcp_server \<Rightarrow> (nat \<Rightarrow> phase) \<Rightarrow> nat \<Rightarrow> bool" where
  "others_ok S ph i \<longleftrightarrow>
     (\<forall>j < length (srvObjs S). j \<noteq> i \<longrightarrow> conn_ok S (ph j) (pending (ph j) j (loop_of S j)) j)"

lemma others_ok_change:
  assumes "others_ok S ph i" and "length (srvObjs S') = length (srvObjs S)"
    and "hostport S' = hostport S" "srvName S' = srvName S" "poolLoops (srvPool S') = poolLoops (srvPool S)"
    and "\<And>j. j \<noteq> i \<Longrightarrow> srvObjs S' ! j = srvObjs S ! j"
    and "\<And>j l. j \<noteq> i \<Longrightarrow> filter (about j) (srvQueues S' l) = filter (about j) (srvQueues S l)"
    and "\<And>j. j \<noteq> i \<Longrightarrow> j < length (srvObjs S) \<Longrightarrow>
      map_of (connections S') (name_of S j) = map_of (connections S) (name_of S j)"
  shows "others_ok S' ph i"
proof -
  have l: "loop_of S' = loop_of S" using assms(5) by (auto simp: loop_of_def fun_eq_iff)
  have "conn_ok S' (ph j) (pending (ph j) j (loop_of S j)) j" if "j < length (srvObjs S)" "j \<noteq> i" for j
    using assms(1) that unfolding others_ok_def
    by (intro conn_ok_other [OF _ assms(6) [OF that(2)] assms(3,4,5) assms(7) [OF that(2)]
          assms(8) [OF that(2,1)]]) blast
  then show ?thesis using assms(2) l by (auto simp: others_ok_def)
qed

lemma conns_ok_split:
  "i < length (srvObjs S) \<Longrightarrow>
   conns_ok S ph \<longleftrightarrow> others_ok S ph i \<and> conn_ok S (ph i) (pending (ph i) i (loop_of S i)) i"
  by (auto simp: conns_ok_def others_ok_def)

lemma conns_ok_put:
  "others_ok S ph i \<Longrightarrow> conn_ok S p (pending p i (loop_of S i)) i \<Longrightarrow> conns_ok S (ph(i := p))"
  by (auto simp: conns_ok_def others_ok_def)

section \<open>The operations keep the invariant\<close>

text \<open>Operations on one connection whose pending functor has been taken off its queue.\<close>

lemma base_update_obj: "server_base S \<Longrightarrow> server_base (update_obj i s S)"
  by (auto simp: server_base_def) (simp_all add: update_obj_def)

lemma update_obj_others: "others_ok S ph i \<Longrightarrow> others_ok (update_obj i s S) ph i"
  by (erule others_ok_change) (auto simp: update_obj_def)

lemma update_obj_ok:
  assumes "conn_ok S p q i" "i < length (srvObjs S)" "conn_inv s" "phase_state p' s" "in_map p' = in_map p"
  shows "conn_ok (update_obj i s S) p' q i"
  using assms by (simp add: conn_ok_def update_obj_nth)

lemma established_ok:
  assumes "server_base S" "others_ok S ph i" "conn_ok S Fresh (\<lambda>_. []) i" "i < length (srvObjs S)"
  shows "\<exists>S'. run_established i S = Some S' \<and> server_base S' \<and> conns_ok S' (ph(i := Live))"
proof -
  have "conn_inv (connObj (srvObjs S ! i))" "state (connObj (srvObjs S ! i)) = kConnecting"
    using assms(3) by (simp_all add: conn_ok_def)
  from connectEstablished_ok [OF this] obtain s where s:
    "connectEstablished (connObj (srvObjs S ! i)) = Some s" "conn_inv s" "state s = kConnected" by blast
  have "conn_ok (update_obj i s S) Live (\<lambda>_. []) i"
    using update_obj_ok [OF assms(3,4) s(2)] s(3) by (simp add: up_def)
  then have "conns_ok (update_obj i s S) (ph(i := Live))"
    by (intro conns_ok_put update_obj_others assms(2)) simp
  then show ?thesis using s(1) base_update_obj [OF assms(1)] by (simp add: run_established_def)
qed

lemma destroyed_ok:
  assumes "server_base S" "others_ok S ph i" "conn_ok S Erased (\<lambda>_. []) i" "i < length (srvObjs S)"
  shows "\<exists>S'. run_destroyed i S = Some S' \<and> server_base S' \<and> conns_ok S' (ph(i := Gone))"
proof -
  let ?s = "connObj (srvObjs S ! i)"
  have "conn_inv ?s" "state ?s = kConnected \<or> state ?s = kDisconnected" "\<not> removed ?s"
    using assms(3) by (simp_all add: conn_ok_def)
  from connectDestroyed_ok [OF this] obtain s where s:
    "connectDestroyed ?s = Some s" "conn_inv s" "state s = kDisconnected" by blast
  have "removed s" using s(1) by (auto simp: connectDestroyed_def channel_remove_def removed_def split: if_splits)
  then have "conn_ok (update_obj i s S) Gone (\<lambda>_. []) i"
    using update_obj_ok [OF assms(3,4) s(2), of Gone] s(3) by simp
  then have "conns_ok (update_obj i s S) (ph(i := Gone))"
    by (intro conns_ok_put update_obj_others assms(2)) simp
  then show ?thesis using s(1) base_update_obj [OF assms(1)] by (simp add: run_destroyed_def)
qed

lemma base_inj:
  "server_base S \<Longrightarrow> i < length (srvObjs S) \<Longrightarrow> j < length (srvObjs S) \<Longrightarrow> name_of S i = name_of S j \<Longrightarrow> i = j"
  by (rule name_of_inj [of S]) (auto simp: server_base_def)

lemma enqueue_base:
  "server_base S \<Longrightarrow> srvStarted S \<Longrightarrow> (\<And>j. about j f \<Longrightarrow> j < length (srvObjs S)) \<Longrightarrow>
   (f = AcceptorListen \<Longrightarrow> l = 0) \<Longrightarrow> server_base (enqueue l f S)"
  unfolding server_base_def enqueue_simps by (auto simp: enqueue_def)

lemma enqueue_others: "others_ok S ph i \<Longrightarrow> (\<And>j. j \<noteq> i \<Longrightarrow> \<not> about j f) \<Longrightarrow> others_ok (enqueue l f S) ph i"
  by (erule others_ok_change) (simp_all add: filter_enqueue)

lemma started_objs: "server_base S \<Longrightarrow> i < length (srvObjs S) \<Longrightarrow> srvStarted S"
  by (auto simp: server_base_def)

lemma removeInLoop_ok:
  assumes base: "server_base S" and others: "others_ok S ph i" and ok: "conn_ok S Closing (\<lambda>_. []) i"
    and i: "i < length (srvObjs S)"
  shows "\<exists>S'. removeConnectionInLoop 0 i S = Some S' \<and> server_base S' \<and> conns_ok S' (ph(i := Erased))"
proof -
  let ?n = "name_of S i"
  let ?S1 = "S\<lparr>connections := snd (map_erase ?n (connections S))\<rparr>"
  let ?S2 = "enqueue (loop_of S i) (ConnectDestroyed i) ?S1"
  have f: "connName (srvObjs S ! i) = ?n" "connLoop (srvObjs S ! i) = loop_of S i"
    "map_of (connections S) ?n = Some i" using ok by (simp_all add: conn_ok_def)
  have m: "map_inv (connections S)" using base by (simp add: server_base_def)
  have n: "name_of ?S1 = name_of S" "loop_of ?S1 = loop_of S" by (auto simp: name_of_def loop_of_def fun_eq_iff)
  have "fst (map_erase ?n (connections S)) = 1" using map_erase_count [OF m, of ?n] f(3) by simp
  moreover have alive: "srvAlive S" using base by (simp add: server_base_def)
  ultimately have eq: "removeConnectionInLoop 0 i S = Some ?S2"
    using f by (simp add: removeConnectionInLoop_def split_def)
  have "server_base ?S1" using base unfolding server_base_def n by (auto split: if_splits)
  then have b2: "server_base ?S2" using started_objs [OF base i] i by (intro enqueue_base) auto
  have "others_ok ?S1 ph i"
    using base_inj [OF base _ i] by (intro others_ok_change [OF others]) auto
  then have o2: "others_ok ?S2 ph i" by (intro enqueue_others) auto
  have "conn_ok ?S2 Erased (pending Erased i (loop_of S i)) i"
    using ok n by (auto simp: conn_ok_def filter_enqueue)
  with o2 have "conns_ok ?S2 (ph(i := Erased))" by (intro conns_ok_put) (simp_all add: n)
  with eq b2 show ?thesis by blast
qed

lemma newConnection_ok:
  assumes base: "server_base S" and ok: "conns_ok S ph" and started: "srvStarted S"
    and fd: "0 \<le> sockfd" and n: "nextConnId S < 10 ^ 8"
  shows "\<exists>S' ph'. newConnection 0 sockfd S = Some S' \<and> server_base S' \<and> conns_ok S' ph'"
proof -
  let ?i = "length (srvObjs S)" and ?loops = "poolLoops (srvPool S)"
  let ?li = "loop_of S ?i"
  define p where "p = (if ?loops = [] then srvPool S else (srvPool S)\<lparr>poolNext :=
    (if poolNext (srvPool S) + 1 \<ge> length ?loops then 0 else poolNext (srvPool S) + 1)\<rparr>)"
  define S1 where "S1 = S\<lparr>srvPool := p, nextConnId := nextConnId S + 1,
    srvObjs := srvObjs S @ [\<lparr>connName = name_of S ?i, connLoop = ?li, connObj = TcpConnection_new sockfd\<rparr>],
    connections := map_set (name_of S ?i) ?i (connections S)\<rparr>"
  have next_pool: "poolNext (srvPool S) = ?i mod max 1 (length ?loops)" and id: "nextConnId S = int ?i + 1"
    and alive: "srvAlive S" and m: "map_inv (connections S)"
    using base by (simp_all add: server_base_def)
  have get: "getNextLoop 0 (srvPool S) = Some (?li, p)"
    using next_pool by (cases ?loops) (auto simp: getNextLoop_def p_def loop_of_def Let_def)
  have eq: "newConnection 0 sockfd S = (if ?li = 0 then run_established ?i S1
      else Some (enqueue ?li (ConnectEstablished ?i) S1))"
    using get alive id by (simp add: newConnection_def S1_def name_of_def Let_def)
  have names: "name_of S1 = name_of S" and loops: "loop_of S1 = loop_of S"
    by (auto simp: S1_def name_of_def loop_of_def p_def fun_eq_iff)
  have lt: "length ?loops \<le> Suc (?i mod length ?loops) \<longleftrightarrow> Suc (?i mod length ?loops) = length ?loops"
    if "?loops \<noteq> []"
  proof -
    have "?i mod length ?loops < length ?loops" using that by simp
    then show ?thesis by linarith
  qed
  have "poolNext p = Suc ?i mod max 1 (length ?loops)" "poolLoops p = ?loops"
    "poolStarted p = poolStarted (srvPool S)" "numThreads p = numThreads (srvPool S)"
    using next_pool lt by (auto simp: p_def mod_Suc max_def not_less_eq_eq Suc_le_eq split: if_splits)
  then have b1: "server_base S1"
    using base n id started m unfolding server_base_def names
    by (auto simp: S1_def less_Suc_eq split: if_splits)
  have "map_of (connections S) (name_of S ?i) = None"
  proof (cases "map_of (connections S) (name_of S ?i)")
    case (Some y)
    then have "y < ?i" "name_of S ?i = name_of S y" using base by (auto simp: server_base_def)
    moreover have "?i < 99999999" "length (hostport S) \<le> 21" using base n id by (auto simp: server_base_def)
    ultimately have "?i = y" using name_of_inj [of S ?i y] by simp
    with \<open>y < ?i\<close> show ?thesis by simp
  qed
  moreover have "name_of S j \<noteq> name_of S ?i" if "j < ?i" for j
    using base_inj [OF b1, of j ?i] that names by (auto simp: S1_def)
  moreover have "filter (about ?i) (srvQueues S l) = []" for l
    using base_about [OF base, of _ l ?i] by (auto simp: filter_empty_conv)
  ultimately have o1: "others_ok S1 ph ?i" and new: "conn_ok S1 Fresh (\<lambda>_. []) ?i"
    using ok m fd names loops
    by (auto simp: others_ok_def conns_ok_def conn_ok_def S1_def nth_append TcpConnection_new_inv)
      (simp_all add: TcpConnection_new_def)
  show ?thesis
  proof (cases "?li = 0")
    case True
    with established_ok [OF b1 o1 new] eq show ?thesis by (auto simp: S1_def)
  next
    case False
    let ?S2 = "enqueue ?li (ConnectEstablished ?i) S1"
    have "server_base ?S2" using b1 started by (intro enqueue_base) (auto simp: S1_def)
    moreover have "conns_ok ?S2 (ph(?i := Fresh))"
    proof (rule conns_ok_put)
      show "others_ok ?S2 ph ?i" by (intro enqueue_others o1) auto
      show "conn_ok ?S2 Fresh (pending Fresh ?i (loop_of ?S2 ?i)) ?i"
        using new loops by (auto simp: conn_ok_def filter_enqueue)
    qed
    ultimately show ?thesis using eq False by auto
  qed
qed

text \<open>Each operation of the server returns and keeps the invariant.\<close>

lemma listen_base:
  "server_base S \<Longrightarrow> srvStarted S \<Longrightarrow> server_base (S\<lparr>srvAcceptor := a\<rparr>)"
  by (auto simp: server_base_def name_of_def)

lemma conns_ok_frame:
  "conns_ok S ph \<Longrightarrow> srvObjs S' = srvObjs S \<Longrightarrow> hostport S' = hostport S \<Longrightarrow> srvName S' = srvName S \<Longrightarrow>
   poolLoops (srvPool S') = poolLoops (srvPool S) \<Longrightarrow> connections S' = connections S \<Longrightarrow>
   (\<And>j l. filter (about j) (srvQueues S' l) = filter (about j) (srvQueues S l)) \<Longrightarrow> conns_ok S' ph"
  by (simp add: conns_ok_def conn_ok_def name_of_def loop_of_def)

lemma op_start_ok:
  assumes "server_base S" "conns_ok S ph" "srvStarted S \<or> th = 0"
  shows "\<exists>S'. TcpServer_start th S = Some S' \<and> server_base S' \<and> conns_ok S' ph"
proof -
  define S1 where "S1 = (if srvStarted S then S
     else S\<lparr>srvStarted := True, srvPool := the (pool_start 0 (hasInitCallback S) (srvPool S))\<rparr>)"
  have p: "pool_start 0 (hasInitCallback S) (srvPool S) \<noteq> None" if "\<not> srvStarted S"
    using that assms(1) by (simp add: pool_start_def server_base_def Let_def)
  have b1: "server_base S1" "srvStarted S1"
    using assms(1) by (auto simp: S1_def server_base_def pool_start_def name_of_def Let_def)
  have c1: "conns_ok S1 ph"
    using assms(1,2) by (cases "srvStarted S") (simp_all add: S1_def conns_ok_def server_base_def)
  have eq: "TcpServer_start th S = Some (if acceptListenning (srvAcceptor S1) then S1
      else if th = 0 then S1\<lparr>srvAcceptor := Acceptor_listen (srvAcceptor S1)\<rparr> else enqueue 0 AcceptorListen S1)"
    using assms(3) p by (auto simp: TcpServer_start_def S1_def)
  have "conns_ok (enqueue 0 AcceptorListen S1) ph" "conns_ok (S1\<lparr>srvAcceptor := a\<rparr>) ph" for a
    by (rule conns_ok_frame [OF c1]; simp add: filter_enqueue)+
  moreover have "server_base (enqueue 0 AcceptorListen S1)" using b1 by (intro enqueue_base) auto
  moreover have "server_base (S1\<lparr>srvAcceptor := a\<rparr>)" for a using b1 by (rule listen_base)
  ultimately show ?thesis using eq b1 c1 by auto
qed

lemma op_accept_ok:
  assumes "server_base S" "conns_ok S ph" "server_enabled (OpAccept rv fd2 idle2) S"
  shows "\<exists>S' ph'. server_run (OpAccept rv fd2 idle2) S = Some S' \<and> server_base S' \<and> conns_ok S' ph'"
proof -
  have started: "srvStarted S" using assms(1,3) by (auto simp: server_base_def)
  have b: "server_base (S\<lparr>srvAcceptor := a\<rparr>)" and c: "conns_ok (S\<lparr>srvAcceptor := a\<rparr>) ph" for a
    using listen_base [OF assms(1) started] by (simp, intro conns_ok_frame [OF assms(2)]) simp_all
  show ?thesis
  proof (cases rv)
    case (Inl e)
    then show ?thesis using assms b c by (auto simp: Acceptor_handleRead_def)
  next
    case (Inr connfd)
    with newConnection_ok [OF assms(1,2) started] assms(3) show ?thesis by (simp add: Acceptor_handleRead_def)
  qed
qed

lemma op_io_ok:
  assumes base: "server_base S" and ok: "conns_ok S ph" and en: "server_enabled (OpIo i s) S"
  shows "\<exists>S' ph'. server_run (OpIo i s) S = Some S' \<and> server_base S' \<and> conns_ok S' ph'"
proof -
  let ?s = "connObj (srvObjs S ! i)" and ?S1 = "update_obj i s S"
  have i: "i < length (srvObjs S)" using en by simp
  have o: "others_ok S ph i" and c: "conn_ok S (ph i) (pending (ph i) i (loop_of S i)) i"
    using ok conns_ok_split [OF i] by simp_all
  have inv: "conn_inv s" using conn_step_inv [of ?s s] c en by (simp add: conn_ok_def)
  have b1: "server_base ?S1" by (rule base_update_obj [OF base])
  have o1: "others_ok ?S1 ph i" by (rule update_obj_others [OF o])
  have life: "keeps_life ?s s \<or> closes ?s s" using conn_step_life [of ?s s] en by simp
  show ?thesis
  proof (cases "closes ?s s")
    case False
    then have k: "keeps_life ?s s" using life by simp
    then have "phase_state (ph i) s"
      using c en by (cases "ph i") (auto simp: conn_ok_def keeps_life_def)
    then have "conn_ok ?S1 (ph i) (pending (ph i) i (loop_of S i)) i"
      using update_obj_ok [OF c i inv] by simp
    then have "conns_ok ?S1 (ph(i := ph i))" by (intro conns_ok_put o1) simp
    moreover have "server_run (OpIo i s) S = Some ?S1" using k by (simp add: keeps_life_def)
    ultimately show ?thesis using b1 by blast
  next
    case True
    then have live: "ph i = Live" using c by (cases "ph i") (auto simp: conn_ok_def closes_def up_def)
    have "\<not> removed s" using True en conn_removed [of ?s] c by (auto simp: closes_def up_def conn_ok_def)
    then have c1: "conn_ok ?S1 Closing (\<lambda>_. []) i"
      using update_obj_ok [of S Live "\<lambda>_. []" i s Closing] c live inv i True by (simp add: closes_def)
    have loop: "connLoop (srvObjs S ! i) = loop_of S i" using c by (simp add: conn_ok_def)
    have alive: "srvAlive S" using base by (simp add: server_base_def)
    show ?thesis
    proof (cases "loop_of S i = 0")
      case True
      with removeInLoop_ok [OF b1 o1 c1] \<open>closes ?s s\<close> loop alive i show ?thesis
        by (auto simp: closes_def removeConnection_def)
    next
      case False
      let ?S2 = "enqueue 0 (RemoveConnectionInLoop i) ?S1"
      have "server_base ?S2" using started_objs [OF base i] i b1 by (intro enqueue_base) auto
      moreover have "conns_ok ?S2 (ph(i := Closing))"
      proof (rule conns_ok_put)
        show "others_ok ?S2 ph i" by (intro enqueue_others o1) auto
        show "conn_ok ?S2 Closing (pending Closing i (loop_of ?S2 i)) i"
          using c1 by (auto simp: conn_ok_def filter_enqueue)
      qed
      moreover have "server_run (OpIo i s) S = Some ?S2"
        using \<open>closes ?s s\<close> loop alive False by (simp add: closes_def removeConnection_def)
      ultimately show ?thesis by blast
    qed
  qed
qed

text \<open>The functor at the head of a queue tells in which phase its connection is.\<close>

lemma pop_base:
  assumes base: "server_base S" and q: "srvQueues S l = f # fs"
  shows "server_base (S\<lparr>srvQueues := (srvQueues S)(l := fs)\<rparr>)"
proof -
  define S1 where "S1 = S\<lparr>srvQueues := (srvQueues S)(l := fs)\<rparr>"
  have sub: "g \<in> set (srvQueues S k)" if "g \<in> set (srvQueues S1 k)" for g k
    using that q by (auto simp: S1_def split: if_splits)
  have none: "\<forall>k. srvQueues S k = [] \<Longrightarrow> srvQueues S1 k = []" for k using q by simp
  have "srvAlive S1 = srvAlive S" "connections S1 = connections S" "hostport S1 = hostport S"
    "nextConnId S1 = nextConnId S" "srvObjs S1 = srvObjs S" "name_of S1 = name_of S" "srvPool S1 = srvPool S"
    "srvStarted S1 = srvStarted S" "srvAcceptor S1 = srvAcceptor S"
    by (auto simp: S1_def name_of_def fun_eq_iff)
  with base sub none show ?thesis unfolding server_base_def S1_def [symmetric] by simp blast
qed

lemma queue_head:
  assumes "conns_ok S ph" "server_base S" "srvQueues S l = f # fs" "about i f"
  defines "S1 \<equiv> S\<lparr>srvQueues := (srvQueues S)(l := fs)\<rparr>"
  shows "i < length (srvObjs S1)" "server_base S1" "others_ok S1 ph i" "conn_ok S1 (ph i) (\<lambda>_. []) i"
    "f = ConnectEstablished i \<and> ph i = Fresh \<or> f = RemoveConnectionInLoop i \<and> ph i = Closing \<and> l = 0 \<or>
     f = ConnectDestroyed i \<and> ph i = Erased"
proof -
  show i: "i < length (srvObjs S1)" using base_about [OF assms(2), of f l i] assms(3,4) by (simp add: S1_def)
  show "server_base S1" unfolding S1_def by (rule pop_base [OF assms(2,3)])
  have other: "\<not> about j f" if "j \<noteq> i" for j using assms(4) that by (cases f) auto
  have names: "name_of S1 = name_of S" "loop_of S1 = loop_of S"
    by (auto simp: S1_def name_of_def loop_of_def fun_eq_iff)
  have o: "others_ok S ph i" and c: "conn_ok S (ph i) (pending (ph i) i (loop_of S i)) i"
    using assms(1) i conns_ok_split [of i S ph] by (simp_all add: S1_def)
  show "others_ok S1 ph i" using assms(3) other by (intro others_ok_change [OF o]) (auto simp: S1_def)
  have q: "filter (about i) (srvQueues S k) = pending (ph i) i (loop_of S i) k" for k
    using c by (simp add: conn_ok_def)
  have ql: "f # filter (about i) fs = pending (ph i) i (loop_of S i) l" using q [of l] assms(3,4) by simp
  then show "f = ConnectEstablished i \<and> ph i = Fresh \<or> f = RemoveConnectionInLoop i \<and> ph i = Closing \<and> l = 0 \<or>
     f = ConnectDestroyed i \<and> ph i = Erased"
    by (cases "ph i") (auto split: if_splits)
  have "filter (about i) (srvQueues S1 k) = []" for k
  proof (cases "k = l")
    case True
    with ql show ?thesis by (cases "ph i") (auto simp: S1_def split: if_splits)
  next
    case False
    with ql q [of k] show ?thesis by (cases "ph i") (auto simp: S1_def split: if_splits)
  qed
  with c show "conn_ok S1 (ph i) (\<lambda>_. []) i" by (simp add: conn_ok_def names) (simp add: S1_def)
qed

lemma op_loop_ok:
  assumes base: "server_base S" and ok: "conns_ok S ph" and en: "server_enabled (OpLoop l) S"
  shows "\<exists>S' ph'. server_run (OpLoop l) S = Some S' \<and> server_base S' \<and> conns_ok S' ph'"
proof -
  obtain f fs where q: "srvQueues S l = f # fs" using en by (cases "srvQueues S l") auto
  let ?S1 = "S\<lparr>srvQueues := (srvQueues S)(l := fs)\<rparr>"
  have run: "server_run (OpLoop l) S = run_server_functor l f ?S1" using q by simp
  show ?thesis
  proof (cases "f = AcceptorListen")
    case True
    have started: "srvStarted S" using base q by (auto simp: server_base_def)
    have "l = 0" "srvAlive S" using base q True by (auto simp: server_base_def)
    moreover have "server_base ?S1" by (rule pop_base [OF base q])
    then have "server_base (?S1\<lparr>srvAcceptor := a\<rparr>)" for a using started by (intro listen_base) simp_all
    moreover have "conns_ok (?S1\<lparr>srvAcceptor := a\<rparr>) ph" for a
      by (rule conns_ok_frame [OF ok]) (use q True in simp_all)
    ultimately show ?thesis using run True by auto
  next
    case False
    then obtain i where a: "about i f" by (cases f) auto
    note h = queue_head [OF ok base q a]
    from h(5) show ?thesis
    proof (elim disjE conjE)
      assume "f = ConnectEstablished i" "ph i = Fresh"
      with established_ok [OF h(2,3) _ h(1)] h(4) run show ?thesis by auto
    next
      assume "f = RemoveConnectionInLoop i" "ph i = Closing" "l = 0"
      with removeInLoop_ok [OF h(2,3) _ h(1)] h(4) run show ?thesis by auto
    next
      assume "f = ConnectDestroyed i" "ph i = Erased"
      with destroyed_ok [OF h(2,3) _ h(1)] h(4) run show ?thesis by auto
    qed
  qed
qed

lemma server_op_ok:
  assumes "server_inv S" "server_enabled op S"
  shows "\<exists>S'. server_run op S = Some S' \<and> server_inv S'"
proof -
  from assms(1) obtain ph where b: "server_base S" and c: "conns_ok S ph" by (auto simp: server_inv_def)
  show ?thesis
  proof (cases op)
    case (OpStart th)
    then have "srvStarted S \<or> th = 0" using assms(2) by simp
    from op_start_ok [OF b c this] OpStart show ?thesis by (auto simp: server_inv_def)
  next
    case (OpAccept rv fd2 idle2)
    with op_accept_ok [OF b c, of rv fd2 idle2] assms(2) show ?thesis
      unfolding server_inv_def OpAccept by blast
  next
    case (OpIo i s)
    with op_io_ok [OF b c, of i s] assms(2) show ?thesis unfolding server_inv_def OpIo by blast
  next
    case (OpLoop l)
    with op_loop_ok [OF b c, of l] assms(2) show ?thesis unfolding server_inv_def OpLoop by blast
  qed
qed

lemma server_reachable: "server_step\<^sup>*\<^sup>* S S' \<Longrightarrow> server_inv S \<Longrightarrow> server_inv S'"
proof (induction rule: rtranclp_induct)
  case (step S1 S2)
  from step(2) obtain op where "server_enabled op S1" "server_run op S1 = Some S2"
    by (auto simp: server_step_iff)
  with server_op_ok [OF step.IH [OF step.prems]] show ?case by force
qed

text \<open>A server as its owner sets it up: listening address, name, number of threads.\<close>

definition server_setup :: "string \<Rightarrow> string \<Rightarrow> int \<Rightarrow> int \<Rightarrow> int \<Rightarrow> tcp_server option" where
  "server_setup hp sname acceptFd idle n =
     do { a \<leftarrow> Acceptor_new acceptFd idle; setThreadNum n (TcpServer_new hp sname a) }"

lemma setup_inv:
  "server_setup hp sname acceptFd idle n = Some S \<Longrightarrow> length hp \<le> 21 \<Longrightarrow> server_inv S"
  by (auto simp: server_setup_def setThreadNum_def Acceptor_new_def TcpServer_new_def server_inv_def server_base_def
      conns_ok_def EventLoopThreadPool_new_def Channel_new_def isNoneEvent_def kNoneEvent_def
      split: Option.bind_splits if_splits)

section \<open>Properties\<close>


text \<open>C25: The map holds exactly the connections. In every reachable state each entry leads to the connection of that
  name, the names of all connections ever made are distinct, a connection that is connecting or up is in the map;
  and when the loops have called their functors, the map holds just the connections that are up and all others
  have been destroyed.\<close>

theorem server_connections_exact:
  assumes "server_setup hp sname acceptFd idle n = Some S0" and "length hp \<le> 21" and "server_step\<^sup>*\<^sup>* S0 S"
  shows "(\<forall>name i. map_of (connections S) name = Some i \<longrightarrow>
      i < length (srvObjs S) \<and> connName (srvObjs S ! i) = name) \<and>
    distinct (map connName (srvObjs S)) \<and>
    (\<forall>i < length (srvObjs S). state (connObj (srvObjs S ! i)) \<noteq> kDisconnected \<longrightarrow>
      map_of (connections S) (connName (srvObjs S ! i)) = Some i) \<and>
    ((\<forall>l. srvQueues S l = []) \<longrightarrow> (\<forall>i < length (srvObjs S).
      if up (connObj (srvObjs S ! i)) then map_of (connections S) (connName (srvObjs S ! i)) = Some i
      else map_of (connections S) (connName (srvObjs S ! i)) = None \<and> removed (connObj (srvObjs S ! i))))"
proof -
  from server_reachable [OF assms(3) setup_inv [OF assms(1,2)]] obtain ph where
    b: "server_base S" and c: "conns_ok S ph" by (auto simp: server_inv_def)
  have ok: "conn_ok S (ph i) (pending (ph i) i (loop_of S i)) i" if "i < length (srvObjs S)" for i
    using c that by (simp add: conns_ok_def)
  have name: "connName (srvObjs S ! i) = name_of S i" if "i < length (srvObjs S)" for i
    using ok [OF that] by (simp add: conn_ok_def)
  have 1: "\<forall>name i. map_of (connections S) name = Some i \<longrightarrow>
      i < length (srvObjs S) \<and> connName (srvObjs S ! i) = name"
    using b name unfolding server_base_def by metis
  have 2: "distinct (map connName (srvObjs S))"
    using base_inj [OF b] name by (fastforce simp: distinct_conv_nth)
  have 3: "map_of (connections S) (connName (srvObjs S ! i)) = Some i"
    if "i < length (srvObjs S)" "state (connObj (srvObjs S ! i)) \<noteq> kDisconnected" for i
    using ok [OF that(1)] that(2) by (cases "ph i") (auto simp: conn_ok_def)
  have 4: "if up (connObj (srvObjs S ! i)) then map_of (connections S) (connName (srvObjs S ! i)) = Some i
      else map_of (connections S) (connName (srvObjs S ! i)) = None \<and> removed (connObj (srvObjs S ! i))"
    if "\<forall>l. srvQueues S l = []" "i < length (srvObjs S)" for i
  proof -
    have "pending (ph i) i (loop_of S i) l = []" for l using ok [OF that(2)] that(1) by (simp add: conn_ok_def)
    from this [of 0] this [of "loop_of S i"] have "ph i = Live \<or> ph i = Gone" by (cases "ph i") simp_all
    then show ?thesis using ok [OF that(2)] by (auto simp: conn_ok_def up_def)
  qed
  from 1 2 3 4 show ?thesis by blast
qed

text \<open>Connections are spread over the threads in turn: the \<open>i\<close>-th connection ever accepted belongs to
  loop \<open>i mod n\<close> of the \<open>n\<close> loops of the pool, and to the base loop when there are none.\<close>

theorem server_round_robin:
  assumes "server_setup hp sname acceptFd idle n = Some S0" and "length hp \<le> 21" and "server_step\<^sup>*\<^sup>* S0 S"
    and "i < length (srvObjs S)"
  shows "connLoop (srvObjs S ! i) =
    (if numThreads (srvPool S) = 0 then 0 else Suc (i mod nat (numThreads (srvPool S))))"
proof -
  from server_reachable [OF assms(3) setup_inv [OF assms(1,2)]] obtain ph where
    b: "server_base S" and c: "conns_ok S ph" by (auto simp: server_inv_def)
  have "connLoop (srvObjs S ! i) = loop_of S i" using c assms(4) by (simp add: conns_ok_def conn_ok_def)
  moreover have "poolLoops (srvPool S) = map Suc [0..<nat (numThreads (srvPool S))]" "0 \<le> numThreads (srvPool S)"
    using b started_objs [OF b assms(4)] by (auto simp: server_base_def)
  ultimately show ?thesis by (auto simp: loop_of_def Let_def)
qed

section \<open>A server with one thread and one connection\<close>

definition demo0 :: tcp_server where
  "demo0 = the (server_setup ''10.0.0.1:80'' ''srv'' 3 4 1)"

definition demo1 :: tcp_server where
  "demo1 = the (server_run (OpStart 0) demo0)"

definition demo2 :: tcp_server where
  "demo2 = the (server_run (OpAccept (Inr 5) 0 0) demo1)"

lemmas demo_defs = demo0_def demo1_def demo2_def server_setup_def Acceptor_new_def TcpServer_new_def setThreadNum_def
  EventLoopThreadPool_new_def TcpServer_start_def pool_start_def Acceptor_listen_def Channel_new_def
  Acceptor_handleRead_def newConnection_def getNextLoop_def enqueue_def Let_def

lemma demo0: "server_setup ''10.0.0.1:80'' ''srv'' 3 4 1 = Some demo0"
  by (simp add: demo_defs)

lemma demo1: "server_run (OpStart 0) demo0 = Some demo1" "server_enabled (OpStart 0) demo0"
  by (simp_all add: demo_defs)

lemma demo2: "server_run (OpAccept (Inr 5) 0 0) demo1 = Some demo2" "server_enabled (OpAccept (Inr 5) 0 0) demo1"
  by (simp_all add: demo_defs isNoneEvent_def event_consts)

lemma demo2_state: "srvQueues demo2 = (\<lambda>l. if l = 1 then [ConnectEstablished 0] else [])"
  "map connObj (srvObjs demo2) = [TcpConnection_new 5]" "map connLoop (srvObjs demo2) = [1]"
  by (auto simp: demo_defs fun_eq_iff)

lemma demo2_reachable: "server_step\<^sup>*\<^sup>* demo0 demo2"
  using demo1 demo2 by (meson converse_rtranclp_into_rtranclp rtranclp.rtrancl_refl server_step.step)

lemma demo_server_up:
  "\<exists>S c. server_step\<^sup>*\<^sup>* demo0 S \<and> map connObj (srvObjs S) = [c] \<and> map connLoop (srvObjs S) = [1] \<and>
     state c = kConnected \<and> conn_inv c \<and> srvQueues S = (\<lambda>_. [])"
proof -
  have "conn_inv (TcpConnection_new 5)" "state (TcpConnection_new 5) = kConnecting"
    using TcpConnection_new_inv [of 5] by (simp_all add: TcpConnection_new_def)
  from connectEstablished_ok [OF this] obtain c where c:
    "connectEstablished (TcpConnection_new 5) = Some c" "conn_inv c" "state c = kConnected" by blast
  let ?S = "update_obj 0 c (demo2\<lparr>srvQueues := (srvQueues demo2)(1 := [])\<rparr>)"
  obtain r where r: "srvObjs demo2 = [r]" "connObj r = TcpConnection_new 5" "connLoop r = 1"
    using demo2_state(2,3) by (cases "srvObjs demo2") auto
  have "server_run (OpLoop 1) demo2 = Some ?S"
    using demo2_state(1) r c(1) by (simp add: run_established_def)
  moreover have "server_enabled (OpLoop 1) demo2" using demo2_state(1) by simp
  ultimately have "server_step demo2 ?S" by (rule server_step.step [rotated])
  with demo2_reachable have "server_step\<^sup>*\<^sup>* demo0 ?S" by (rule rtranclp.rtrancl_into_rtrancl)
  moreover have "srvQueues ?S = (\<lambda>_. [])" using demo2_state(1) by (auto simp: fun_eq_iff)
  ultimately show ?thesis using c r by (intro exI [of _ ?S] exI [of _ c]) (simp add: update_obj_def)
qed

lemma demo_server_closing:
  "\<exists>S. server_step\<^sup>*\<^sup>* demo0 S \<and> srvQueues S 0 = [RemoveConnectionInLoop 0] \<and> length (srvObjs S) = 1 \<and>
     connLoop (srvObjs S ! 0) = 1"
proof -
  from demo_server_up obtain S c where S: "server_step\<^sup>*\<^sup>* demo0 S" "map connObj (srvObjs S) = [c]"
    "map connLoop (srvObjs S) = [1]" "state c = kConnected" "conn_inv c" "srvQueues S = (\<lambda>_. [])"
    by (elim exE conjE) (rule that)
  obtain r where r: "srvObjs S = [r]" "connObj r = c" "connLoop r = 1"
    using S(2,3) by (cases "srvObjs S") auto
  have u: "up c" using S(4) by (simp add: up_def)
  from handleClose_ok [OF S(5) u] obtain c' where c': "handleClose c = Some c'" by blast
  note life = handleClose_life [OF c']
  have "\<not> isNoneEvent (connChannel c)"
    using conn_events(1) [OF S(5) u] by (simp add: isNoneEvent_def event_consts)
  then have "conn_step c c'" using c' by (rule conn_step.hangup)
  then have en: "server_enabled (OpIo 0 c') S" using r S(4) life by simp
  have inv: "server_inv S" using server_reachable [OF S(1) setup_inv [OF demo0]] by simp
  then have "srvAlive S" by (auto simp: server_inv_def server_base_def)
  then have run: "server_run (OpIo 0 c') S = Some (enqueue 0 (RemoveConnectionInLoop 0) (update_obj 0 c' S))"
    using r life by (simp add: removeConnection_def)
  from server_step.step [OF en run] S(1)
  have "server_step\<^sup>*\<^sup>* demo0 (enqueue 0 (RemoveConnectionInLoop 0) (update_obj 0 c' S))"
    by (rule rtranclp.rtrancl_into_rtrancl [rotated])
  with r S(6) show ?thesis
    by (intro exI [of _ "enqueue 0 (RemoveConnectionInLoop 0) (update_obj 0 c' S)"])
      (simp add: enqueue_def update_obj_def)
qed


theorem server_connections_exact_witness:
  "\<exists>S. server_step\<^sup>*\<^sup>* demo0 S \<and> up (connObj (srvObjs S ! 0)) \<and>
     map_of (connections S) (connName (srvObjs S ! 0)) = Some 0"
proof -
  from demo_server_up obtain S c where S: "server_step\<^sup>*\<^sup>* demo0 S" "map connObj (srvObjs S) = [c]"
    "state c = kConnected" by (elim exE conjE) (rule that)
  then have "0 < length (srvObjs S)" "connObj (srvObjs S ! 0) = c" by (cases "srvObjs S"; auto)+
  with server_connections_exact [OF demo0 _ S(1)] S(1,3) show ?thesis by (auto simp: up_def)
qed

theorem server_round_robin_witness:
  "connLoop (srvObjs demo2 ! 0) = 1"
  using server_round_robin [OF demo0 _ demo2_reachable, of 0] by (simp add: demo_defs)

lemma destroy_conns_queue:
  "destroy_conns 0 m S = Some S' \<Longrightarrow> srvQueues S' 0 = srvQueues S 0"
proof (induction m arbitrary: S)
  case (Cons e m)
  obtain name i where e: "e = (name, i)" by (cases e)
  from Cons.prems e obtain S1 where S1: "destroy_conns 0 m S1 = Some S'"
    "(if connLoop (srvObjs S ! i) = 0 then run_destroyed i S
      else Some (enqueue (connLoop (srvObjs S ! i)) (ConnectDestroyed i) S)) = Some S1"
    by (auto split: Option.bind_splits)
  have "srvQueues S1 0 = srvQueues S 0"
    using S1(2) by (auto simp: run_destroyed_def enqueue_def split: if_splits Option.bind_splits)
  with Cons.IH [OF S1(1)] show ?case by simp
qed simp

lemma destroy_other_loops:
  "\<forall>e \<in> set m. connLoop (srvObjs S ! snd e) \<noteq> 0 \<Longrightarrow> \<exists>S'. destroy_conns 0 m S = Some S'"
  by (induction m arbitrary: S) auto

text \<open>Destroying a server while a connection of another thread is closing is not safe: the functor
  \<open>removeConnectionInLoop\<close> that connection queued holds the bare \<open>this\<close>, and runs after the destructor.\<close>

theorem server_destroyed_with_pending_removal:
  assumes "srvQueues S 0 = RemoveConnectionInLoop i # fs" and "TcpServer_destroy 0 S = Some S'"
  shows "server_enabled (OpLoop 0) S' \<and> server_run (OpLoop 0) S' = None"
proof -
  from assms(2) obtain S1 where S1: "destroy_conns 0 (connections S) S = Some S1"
    "S' = S1\<lparr>connections := [], srvAcceptor := Acceptor_destroy (srvAcceptor S1), srvAlive := False\<rparr>"
    by (auto simp: TcpServer_destroy_def split: Option.bind_splits)
  have "srvQueues S' 0 = RemoveConnectionInLoop i # fs" "\<not> srvAlive S'"
    using destroy_conns_queue [OF S1(1)] assms(1) S1(2) by simp_all
  then show ?thesis by (simp add: removeConnectionInLoop_def)
qed

theorem server_destroyed_with_pending_removal_witness:
  "\<exists>S S'. server_step\<^sup>*\<^sup>* demo0 S \<and> TcpServer_destroy 0 S = Some S' \<and> server_run (OpLoop 0) S' = None"
proof -
  from demo_server_closing obtain S where S: "server_step\<^sup>*\<^sup>* demo0 S" "srvQueues S 0 = [RemoveConnectionInLoop 0]"
    "length (srvObjs S) = 1" "connLoop (srvObjs S ! 0) = 1" by (elim exE conjE) (rule that)
  have inv: "server_inv S" using server_reachable [OF S(1) setup_inv [OF demo0]] by simp
  then have "\<forall>e \<in> set (connections S). snd e = 0"
    using S(3) map_inv_distinct [of "connections S"] unfolding server_inv_def server_base_def
    by (metis less_one map_of_is_SomeI prod.collapse)
  then have "\<forall>e \<in> set (connections S). connLoop (srvObjs S ! snd e) \<noteq> 0" using S(4) by simp
  from destroy_other_loops [OF this] obtain S' where "TcpServer_destroy 0 S = Some S'"
    by (auto simp: TcpServer_destroy_def)
  with server_destroyed_with_pending_removal [OF S(2) this] S(1) show ?thesis by blast
qed

end
