(* ===== verification/Muduo_TcpClient.thy ===== *)
theory Muduo_TcpClient
  imports Muduo_TcpServer Muduo_Connector
begin

text \<open>
  \<open>TcpClient\<close> (\<open>net/TcpClient.h\<close>, \<open>net/TcpClient.cc\<close>): a connector that makes connections, the one connection the
  client holds, and what becomes of it when it closes, with a reconnection on demand. The models of the connector
  and of the connection run inside; all but \<open>connect\<close>, \<open>disconnect\<close> and \<open>stop\<close> runs in the loop's thread.
\<close>

section \<open>State and operations\<close>

text \<open>\<open>cliConns\<close> are all connections made so far, \<open>cliConnection\<close> is \<open>connection_\<close> as an index into it, \<open>cliDestroys\<close>
  the queued calls of \<open>connectDestroyed\<close>. \<open>cliDetached\<close> is the connection that outlives the client, whose close
  callback is then \<open>detail::removeConnection\<close>.\<close>

record tcp_client =
  cliName :: string
  cliConnector :: connector
  cliRetry :: bool
  cliConnect :: bool
  cliNextConnId :: int
  cliConns :: "(string \<times> tcp_connection) list"
  cliConnection :: "nat option"
  cliDestroys :: "nat list"
  cliAlive :: bool
  cliDetached :: "nat option"

definition TcpClient_new :: "string \<Rightarrow> tcp_client" where
  "TcpClient_new name =
     \<lparr>cliName = name, cliConnector = Connector_new, cliRetry = False, cliConnect = True, cliNextConnId = 1,
      cliConns = [], cliConnection = None, cliDestroys = [], cliAlive = True, cliDetached = None\<rparr>"

definition enableRetry :: "tcp_client \<Rightarrow> tcp_client" where
  "enableRetry C = C\<lparr>cliRetry := True\<rparr>"

definition client_connect :: "bool \<Rightarrow> int \<Rightarrow> int \<Rightarrow> tcp_client \<Rightarrow> tcp_client option" where
  "client_connect inLoopThread sockfd savedErrno C =
     do { K \<leftarrow> connector_start inLoopThread sockfd savedErrno (cliConnector C);
          Some (C\<lparr>cliConnect := True, cliConnector := K\<rparr>) }"

definition set_conn :: "nat \<Rightarrow> tcp_connection \<Rightarrow> tcp_client \<Rightarrow> tcp_client" where
  "set_conn i s C = C\<lparr>cliConns := (cliConns C)[i := (fst (cliConns C ! i), s)]\<rparr>"

definition client_disconnect :: "bool \<Rightarrow> tcp_client \<Rightarrow> tcp_client" where
  "client_disconnect inLoopThread C =
     (let C1 = C\<lparr>cliConnect := False\<rparr>
      in case cliConnection C1 of
           None \<Rightarrow> C1
         | Some i \<Rightarrow> set_conn i (conn_shutdown inLoopThread (snd (cliConns C1 ! i))) C1)"

definition client_stop :: "bool \<Rightarrow> tcp_client \<Rightarrow> tcp_client option" where
  "client_stop inLoopThread C =
     do { K \<leftarrow> connector_stop inLoopThread (cliConnector C);
          Some (C\<lparr>cliConnect := False, cliConnector := K\<rparr>) }"

definition client_newConnection :: "string \<Rightarrow> int \<Rightarrow> tcp_client \<Rightarrow> tcp_client option" where
  "client_newConnection peer sockfd C =
     do { assertion (cliAlive C);
          let i = length (cliConns C);
          s \<leftarrow> connectEstablished (TcpConnection_new sockfd);
          Some (C\<lparr>cliNextConnId := cliNextConnId C + 1,
                  cliConns := cliConns C @ [(conn_name (cliName C) peer (cliNextConnId C), s)],
                  cliConnection := Some i\<rparr>) }"

definition client_removeConnection :: "nat \<Rightarrow> int \<Rightarrow> int \<Rightarrow> tcp_client \<Rightarrow> tcp_client option" where
  "client_removeConnection i sockfd savedErrno C =
     do { assertion (cliAlive C \<and> cliConnection C = Some i);
          let C1 = C\<lparr>cliConnection := None, cliDestroys := cliDestroys C @ [i]\<rparr>;
          if cliRetry C1 \<and> cliConnect C1
          then do { K \<leftarrow> connector_restart sockfd savedErrno (cliConnector C1); Some (C1\<lparr>cliConnector := K\<rparr>) }
          else Some C1 }"

text \<open>\<open>detail::removeConnection\<close>.\<close>

definition detail_removeConnection :: "nat \<Rightarrow> tcp_client \<Rightarrow> tcp_client" where
  "detail_removeConnection i C = C\<lparr>cliDestroys := cliDestroys C @ [i]\<rparr>"

text \<open>The close callback that connection \<open>i\<close> has.\<close>

definition client_closeCallback :: "nat \<Rightarrow> int \<Rightarrow> int \<Rightarrow> tcp_client \<Rightarrow> tcp_client option" where
  "client_closeCallback i sockfd savedErrno C =
     (if cliDetached C = Some i then Some (detail_removeConnection i C) else client_removeConnection i sockfd savedErrno C)"

text \<open>The destructor, in the loop's thread. With a connection the connector goes with the client, and its own
  destructor asserts that it has no channel; without one the connector is stopped and kept for a second.\<close>

definition TcpClient_destroy :: "tcp_client \<Rightarrow> tcp_client option" where
  "TcpClient_destroy C =
     (case cliConnection C of
        Some i \<Rightarrow> do { assertion (ctorChannel (cliConnector C) = None);
                       Some (C\<lparr>cliDetached := Some i, cliConnection := None, cliAlive := False\<rparr>) }
      | None \<Rightarrow> do { K \<leftarrow> connector_stop True (cliConnector C); Some (C\<lparr>cliConnector := K, cliAlive := False\<rparr>) })"

definition client_destroyed :: "nat \<Rightarrow> tcp_client \<Rightarrow> tcp_client option" where
  "client_destroyed i C = do { s \<leftarrow> connectDestroyed (snd (cliConns C ! i)); Some (set_conn i s C) }"

text \<open>What the loop runs for the connector; when the connector hands over a socket, it calls \<open>newConnection\<close>.\<close>

definition client_connector :: "connector_op \<Rightarrow> string \<Rightarrow> tcp_client \<Rightarrow> tcp_client option" where
  "client_connector op peer C =
     do { K \<leftarrow> op_run op (cliConnector C);
          let C1 = C\<lparr>cliConnector := K\<rparr>;
          if length (delivered K) > length (delivered (cliConnector C))
          then client_newConnection peer (last (delivered K)) C1 else Some C1 }"

section \<open>Steps\<close>

datatype client_op =
  ClConnect bool int int | ClDisconnect bool | ClStop bool | ClEnableRetry | ClConnector connector_op string
  | ClIo nat tcp_connection int int | ClLoop | ClDelete

text \<open>Sockets the kernel gives are not negative. \<open>connect\<close> is called when the connector is at rest. The loop
  runs what is queued before it polls again, so a new connection has no events while the connector waits for its
  reset. The client is not deleted while functors of its connector are queued.\<close>

fun from_loop :: "connector_op \<Rightarrow> bool" where
  "from_loop (OpTimeout d sockfd e) \<longleftrightarrow> 0 \<le> sockfd"
| "from_loop (OpFunctor f fs sockfd e) \<longleftrightarrow> 0 \<le> sockfd"
| "from_loop (OpEvent revt t probe) \<longleftrightarrow> True"
| "from_loop _ \<longleftrightarrow> False"

fun client_enabled :: "client_op \<Rightarrow> tcp_client \<Rightarrow> bool" where
  "client_enabled (ClConnect b sockfd e) C \<longleftrightarrow> cliAlive C \<and> 0 \<le> sockfd \<and> op_enabled (OpStart b sockfd e) (cliConnector C)"
| "client_enabled (ClDisconnect b) C \<longleftrightarrow> cliAlive C"
| "client_enabled (ClStop b) C \<longleftrightarrow> cliAlive C"
| "client_enabled ClEnableRetry C \<longleftrightarrow> cliAlive C"
| "client_enabled (ClConnector op peer) C \<longleftrightarrow> from_loop op \<and> op_enabled op (cliConnector C)"
| "client_enabled (ClIo i s sockfd e) C \<longleftrightarrow> i < length (cliConns C) \<and> conn_step (snd (cliConns C ! i)) s \<and>
     removed s = removed (snd (cliConns C ! i)) \<and> ResetChannel \<notin> set (connFunctors (cliConnector C)) \<and> 0 \<le> sockfd"
| "client_enabled ClLoop C \<longleftrightarrow> cliDestroys C \<noteq> []"
| "client_enabled ClDelete C \<longleftrightarrow> cliAlive C \<and> connFunctors (cliConnector C) = []"

fun client_run :: "client_op \<Rightarrow> tcp_client \<Rightarrow> tcp_client option" where
  "client_run (ClConnect b sockfd e) C = client_connect b sockfd e C"
| "client_run (ClDisconnect b) C = Some (client_disconnect b C)"
| "client_run (ClStop b) C = client_stop b C"
| "client_run ClEnableRetry C = Some (enableRetry C)"
| "client_run (ClConnector op peer) C = client_connector op peer C"
| "client_run (ClIo i s sockfd e) C =
     (if closeCalls s > closeCalls (snd (cliConns C ! i)) then client_closeCallback i sockfd e (set_conn i s C)
      else Some (set_conn i s C))"
| "client_run ClLoop C =
     (case cliDestroys C of [] \<Rightarrow> None | i # is \<Rightarrow> client_destroyed i (C\<lparr>cliDestroys := is\<rparr>))"
| "client_run ClDelete C = TcpClient_destroy C"

inductive client_step :: "tcp_client \<Rightarrow> tcp_client \<Rightarrow> bool" where
  step: "client_enabled op C \<Longrightarrow> client_run op C = Some C' \<Longrightarrow> client_step C C'"

inductive_simps client_step_iff: "client_step C C'"

section \<open>What the connector does\<close>

definition fd_ok :: "connector \<Rightarrow> bool" where
  "fd_ok K \<longleftrightarrow> (\<forall>ch. ctorChannel K = Some ch \<longrightarrow> 0 \<le> fd ch)"

text \<open>A run of the connector that hands over at most one socket, and only from a pending attempt that is wanted.\<close>

definition hands_over :: "connector \<Rightarrow> connector \<Rightarrow> bool" where
  "hands_over K K' \<longleftrightarrow> fd_ok K' \<and>
     (delivered K' = delivered K \<and> (connState K = States.kConnected \<longrightarrow> connState K' = States.kConnected) \<or>
      connState K = States.kConnecting \<and> connectFlag K \<and> connState K' = States.kConnected \<and>
        (\<exists>sockfd \<ge> 0. delivered K' = delivered K @ [sockfd])) \<and>
     (\<not> connectFlag K \<longrightarrow> \<not> connectFlag K')"

lemma start_in_loop:
  assumes "startInLoop sockfd e K = Some K'" "fd_ok K" "0 \<le> sockfd"
  shows "fd_ok K' \<and> delivered K' = delivered K \<and> connectFlag K' = connectFlag K \<and> connState K = States.kDisconnected"
  using assms
  by (auto simp: startInLoop_def connector_connect_def connecting_def connector_retry_def close_fd_def assertion_def fd_ok_def
      Channel_new_def Let_def split: if_splits connect_action.splits Option.bind_splits)

lemma retry_fields [simp]: "connectFlag (connector_retry f K) = connectFlag K" "fd_ok (connector_retry f K) = fd_ok K"
  by (simp_all add: connector_retry_def close_fd_def fd_ok_def Let_def)

lemma fd_ok_fields [simp]:
  "fd_ok (K\<lparr>connState := st\<rparr>) = fd_ok K" "fd_ok (K\<lparr>connectFlag := b\<rparr>) = fd_ok K" "fd_ok (K\<lparr>startTimers := ts\<rparr>) = fd_ok K"
  "fd_ok (K\<lparr>connFunctors := fs\<rparr>) = fd_ok K" "fd_ok (K\<lparr>delivered := ds\<rparr>) = fd_ok K" "fd_ok (close_fd f K) = fd_ok K"
  "fd_ok (K\<lparr>connState := st, retryDelayMs := d, connectFlag := b, retries := rs\<rparr>) = fd_ok K"
  by (simp_all add: fd_ok_def close_fd_def)

lemma stop_in_loop:
  assumes "stopInLoop K = Some K'" "fd_ok K"
  shows "hands_over K K' \<and> delivered K' = delivered K \<and> (connState K = States.kConnected \<longrightarrow> K' = K)"
  using assms by (cases "ctorChannel K") (auto simp: stopInLoop_def hands_over_def removeAndResetChannel_def fd_ok_def split: if_splits)

lemma handle_write:
  assumes "connector_handleWrite probe K = Some K'" "fd_ok K"
  shows "hands_over K K'"
  using assms by (cases "ctorChannel K") (auto simp: connector_handleWrite_def hands_over_def removeAndResetChannel_def fd_ok_def
    assertion_def close_fd_def Let_def split: if_splits)

lemma handle_error:
  assumes "connector_handleError K = Some K'" "fd_ok K"
  shows "hands_over K K' \<and> delivered K' = delivered K \<and> connState K' = States.kDisconnected \<and> connState K = States.kConnecting"
  using assms by (cases "ctorChannel K") (auto simp: connector_handleError_def hands_over_def removeAndResetChannel_def fd_ok_def
    assertion_def split: if_splits)

lemma connector_event_hands:
  assumes "connector_event revt t probe K = Some K'" "connector_inv K" "connState K = States.kConnecting" "fd_ok K"
  shows "hands_over K K'"
proof -
  obtain ch where ch: "ctorChannel K = Some ch" "hasWriteCallback ch" "hasErrorCallback ch"
    "\<not> hasReadCallback ch" "\<not> hasCloseCallback ch" "\<not> tied ch"
    using assms(2,3) by (auto simp: connector_defs)
  then consider "handleEvent (ch\<lparr>revents := revt\<rparr>) t = []"
    | "handleEvent (ch\<lparr>revents := revt\<rparr>) t = [ErrorCallback]"
    | "handleEvent (ch\<lparr>revents := revt\<rparr>) t = [WriteCallback]"
    | "handleEvent (ch\<lparr>revents := revt\<rparr>) t = [ErrorCallback, WriteCallback]"
    by (cases "revt AND (POLLERR OR POLLNVAL) = 0"; cases "revt AND POLLOUT = 0")
      (simp_all add: handleEvent_def handleEventWithGuard_def)
  then show ?thesis
  proof cases
    case 4
    then obtain K1 where "connector_handleError K = Some K1" "connector_handleWrite probe K1 = Some K'"
      using assms(1) ch(1) by (auto simp: connector_event_def split: Option.bind_splits)
    with handle_error [of K K1] handle_write [of probe K1 K'] assms(3,4) show ?thesis
      by (auto simp: hands_over_def)
  qed (use assms ch(1) handle_write [of probe K K'] handle_error [of K K'] in
    \<open>auto simp: connector_event_def hands_over_def split: Option.bind_splits\<close>)
qed

lemma op_hands:
  assumes "op_run op K = Some K'" "op_enabled op K" "from_loop op" "connector_inv K" "fd_ok K"
  shows "hands_over K K'"
proof (cases op)
  case (OpTimeout d sockfd e)
  then show ?thesis using assms start_in_loop [of sockfd e "K\<lparr>startTimers := remove1 d (startTimers K)\<rparr>" K'] by (auto simp: hands_over_def)
next
  case (OpFunctor f fs sockfd e)
  then show ?thesis
    using assms start_in_loop [of sockfd e "K\<lparr>connFunctors := fs\<rparr>" K'] stop_in_loop [of "K\<lparr>connFunctors := fs\<rparr>" K']
    by (cases f) (auto simp: hands_over_def resetChannel_def fd_ok_def)
next
  case (OpEvent revt t probe)
  then show ?thesis using assms connector_event_hands by simp
qed (use assms in auto)

section \<open>The invariant\<close>

definition conn_of :: "tcp_client \<Rightarrow> nat \<Rightarrow> tcp_connection" where
  "conn_of C i = snd (cliConns C ! i)"

text \<open>A connection is up exactly while the client holds it, or has left it behind; one that is down has its
  \<open>connectDestroyed\<close> queued once, until it has run.\<close>

definition held :: "tcp_client \<Rightarrow> nat \<Rightarrow> bool" where
  "held C i \<longleftrightarrow> cliConnection C = Some i \<or> cliDetached C = Some i"

definition client_conn_ok :: "tcp_client \<Rightarrow> nat \<Rightarrow> bool" where
  "client_conn_ok C i \<longleftrightarrow> conn_inv (conn_of C i) \<and> state (conn_of C i) \<noteq> StateE.kConnecting \<and>
     (up (conn_of C i) \<longrightarrow> held C i) \<and> (cliConnection C = Some i \<longrightarrow> up (conn_of C i)) \<and>
     count_list (cliDestroys C) i = (if up (conn_of C i) \<or> removed (conn_of C i) then 0 else 1)"

definition client_inv :: "tcp_client \<Rightarrow> bool" where
  "client_inv C \<longleftrightarrow> connector_inv (cliConnector C) \<and> fd_ok (cliConnector C) \<and>
     (\<forall>i < length (cliConns C). client_conn_ok C i) \<and> set (cliDestroys C) \<subseteq> {..<length (cliConns C)} \<and>
     (\<forall>i. held C i \<longrightarrow> i < length (cliConns C)) \<and>
     (\<forall>i. cliConnection C = Some i \<longrightarrow> connState (cliConnector C) = States.kConnected) \<and>
     (cliAlive C \<longrightarrow> cliDetached C = None) \<and>
     (\<not> cliAlive C \<longrightarrow> cliConnection C = None \<and>
        (connectFlag (cliConnector C) \<longrightarrow> connState (cliConnector C) = States.kConnected))"

lemma client_conn_ok_fields [simp]:
  "client_conn_ok (C\<lparr>cliConnector := K\<rparr>) i = client_conn_ok C i" "client_conn_ok (C\<lparr>cliAlive := b\<rparr>) i = client_conn_ok C i"
  "client_conn_ok (C\<lparr>cliConnect := b\<rparr>) i = client_conn_ok C i" "client_conn_ok (C\<lparr>cliRetry := b\<rparr>) i = client_conn_ok C i"
  by (simp_all add: client_conn_ok_def conn_of_def held_def)

lemma held_fields [simp]:
  "held (C\<lparr>cliConnector := K\<rparr>) i = held C i" "held (C\<lparr>cliAlive := b\<rparr>) i = held C i"
  "held (C\<lparr>cliConnect := b\<rparr>) i = held C i" "held (C\<lparr>cliRetry := b\<rparr>) i = held C i"
  by (simp_all add: held_def)

lemma client_inv_new: "client_inv (TcpClient_new name)"
  using Connector_new_inv by (simp add: client_inv_def TcpClient_new_def held_def fd_ok_def Connector_new_def)

lemma conn_of_set [simp]:
  "i < length (cliConns C) \<Longrightarrow> conn_of (set_conn i s C) j = (if j = i then s else conn_of C j)"
  "length (cliConns (set_conn i s C)) = length (cliConns C)" "cliConnector (set_conn i s C) = cliConnector C"
  "cliConnection (set_conn i s C) = cliConnection C" "cliDetached (set_conn i s C) = cliDetached C"
  "cliDestroys (set_conn i s C) = cliDestroys C" "cliAlive (set_conn i s C) = cliAlive C"
  "held (set_conn i s C) = held C" "cliRetry (set_conn i s C) = cliRetry C" "cliConnect (set_conn i s C) = cliConnect C"
  by (auto simp: conn_of_def set_conn_def held_def fun_eq_iff)

text \<open>A change of one connection that keeps it up or down.\<close>

lemma client_inv_set:
  assumes "client_inv C" "i < length (cliConns C)" "conn_inv s" "up s = up (conn_of C i)"
    and "state s \<noteq> StateE.kConnecting" "removed s = removed (conn_of C i)"
  shows "client_inv (set_conn i s C)"
  using assms by (auto simp: client_inv_def client_conn_ok_def)

text \<open>A change of the connector only.\<close>

lemma client_inv_connector:
  assumes "client_inv C" "connector_inv K" "fd_ok K"
    and "connState (cliConnector C) = States.kConnected \<Longrightarrow> connState K = States.kConnected"
    and "\<not> cliAlive C \<Longrightarrow> connectFlag K \<Longrightarrow> connectFlag (cliConnector C)"
  shows "client_inv (C\<lparr>cliConnector := K\<rparr>)"
  using assms by (auto simp: client_inv_def client_conn_ok_def conn_of_def held_def)

lemma client_inv_flags [simp]:
  "client_inv (C\<lparr>cliConnect := b\<rparr>) = client_inv C" "client_inv (C\<lparr>cliRetry := b\<rparr>) = client_inv C"
  "client_inv (C\<lparr>cliConnect := b, cliConnector := K\<rparr>) = client_inv (C\<lparr>cliConnector := K\<rparr>)"
  by (auto simp: client_inv_def client_conn_ok_def conn_of_def held_def)

text \<open>A connection that goes down, with its destruction queued.\<close>

lemma closing_inv:
  assumes "client_inv C" "i < length (cliConns C)" "conn_inv s" "up (conn_of C i)" "\<not> up s" "state s = StateE.kDisconnected"
    and "\<not> removed s" "cliConnection C \<noteq> None \<longrightarrow> cliConnection C = Some i"
  shows "client_inv ((set_conn i s C)\<lparr>cliConnection := None, cliDestroys := cliDestroys C @ [i]\<rparr>)"
proof -
  let ?C = "(set_conn i s C)\<lparr>cliConnection := None, cliDestroys := cliDestroys C @ [i]\<rparr>"
  have conn: "conn_of ?C j = (if j = i then s else conn_of C j)" for j
    using conn_of_set(1) [OF assms(2), of s j] by (simp add: conn_of_def)
  have count: "count_list (cliDestroys C) i = 0" using assms(1,2,4) by (auto simp: client_inv_def client_conn_ok_def)
  have ok: "client_conn_ok C j" if "j < length (cliConns C)" for j using assms(1) that by (simp add: client_inv_def)
  have "client_conn_ok ?C j" if "j < length (cliConns C)" for j
    using ok [OF that] assms(3,5-8) count by (auto simp: client_conn_ok_def conn held_def)
  then show ?thesis using assms(1,2) by (auto simp: client_inv_def held_def)
qed

lemma closed_inv:
  assumes "client_inv C" "i < length (cliConns C)" "conn_inv s" "up (conn_of C i)" "\<not> up s" "state s = StateE.kDisconnected"
    "\<not> removed s" "ResetChannel \<notin> set (connFunctors (cliConnector C))" "0 \<le> sockfd"
  shows "\<exists>C'. client_closeCallback i sockfd e (set_conn i s C) = Some C' \<and> client_inv C'"
proof -
  have held: "held C i" using assms(1,2,4) by (auto simp: client_inv_def client_conn_ok_def)
  let ?C1 = "(set_conn i s C)\<lparr>cliConnection := None, cliDestroys := cliDestroys C @ [i]\<rparr>"
  have inv: "client_inv ?C1"
    using held assms(1) by (intro closing_inv [OF assms(1-7)]) (auto simp: held_def client_inv_def)
  show ?thesis
  proof (cases "cliDetached C = Some i")
    case True
    then have "cliConnection C = None" using assms(1) by (auto simp: client_inv_def)
    then have "?C1 = detail_removeConnection i (set_conn i s C)" by (simp add: detail_removeConnection_def set_conn_def)
    then show ?thesis using True inv by (simp add: client_closeCallback_def)
  next
    case False
    then have c: "cliConnection C = Some i" "cliAlive C"
      using held assms(1) by (auto simp: held_def client_inv_def)
    let ?K = "cliConnector C"
    have "connState ?K = States.kConnected" "connector_inv ?K" "fd_ok ?K" using assms(1) c by (auto simp: client_inv_def)
    then have "op_enabled (OpRestart sockfd e) ?K"
      using assms(8) by (auto simp: idle_def connector_defs count_list_0_iff split: if_splits)
    with op_ok [of ?K "OpRestart sockfd e"] \<open>connector_inv ?K\<close> obtain K where
      K: "connector_restart sockfd e ?K = Some K" "connector_inv K" by auto
    then have "fd_ok K" using start_in_loop [OF K(1) [unfolded connector_restart_def]] \<open>fd_ok ?K\<close> assms(9) by simp
    then have "client_inv (?C1\<lparr>cliConnector := K\<rparr>)"
      using inv K(2) c by (auto simp: client_inv_def client_conn_ok_def conn_of_def held_def)
    with K inv c False show ?thesis
      by (simp add: client_closeCallback_def client_removeConnection_def assertion_def Let_def)
  qed
qed

section \<open>The operations keep the invariant\<close>

lemma client_connect_ok:
  assumes "client_inv C" "client_enabled (ClConnect b sockfd e) C"
  shows "\<exists>C'. client_connect b sockfd e C = Some C' \<and> client_inv C'"
proof -
  let ?K = "cliConnector C"
  have K: "connector_inv ?K" "fd_ok ?K" "op_enabled (OpStart b sockfd e) ?K" "cliAlive C" "0 \<le> sockfd"
    using assms by (auto simp: client_inv_def)
  then obtain K where K': "connector_start b sockfd e ?K = Some K" "connector_inv K"
    using op_ok [of ?K "OpStart b sockfd e"] by auto
  have "fd_ok K"
    using K' K start_in_loop [of sockfd e "?K\<lparr>connectFlag := True\<rparr>" K] by (auto simp: connector_start_def Let_def split: if_splits)
  moreover have "connState ?K = States.kDisconnected" using K(3) by simp
  ultimately have "client_inv (C\<lparr>cliConnector := K\<rparr>)"
    using K'(2) K(4) by (intro client_inv_connector [OF assms(1)]) auto
  then show ?thesis using K'(1) by (simp add: client_connect_def)
qed

lemma client_stop_ok:
  assumes "client_inv C"
  shows "\<exists>K. connector_stop b (cliConnector C) = Some K \<and> client_inv (C\<lparr>cliConnector := K\<rparr>) \<and> \<not> connectFlag K"
proof -
  let ?K = "cliConnector C"
  have K: "connector_inv ?K" "fd_ok ?K" using assms by (auto simp: client_inv_def)
  then obtain K where K': "connector_stop b ?K = Some K" "connector_inv K"
    using op_ok [of ?K "OpStop b"] by auto
  have "fd_ok K \<and> \<not> connectFlag K \<and> (connState ?K = States.kConnected \<longrightarrow> connState K = States.kConnected)"
    using K' K stop_in_loop [of "?K\<lparr>connectFlag := False\<rparr>" K]
    by (auto simp: connector_stop_def hands_over_def Let_def split: if_splits)
  then show ?thesis using K' client_inv_connector [OF assms K'(2)] by blast
qed

lemma conn_io:
  assumes "conn_inv s" "state s \<noteq> StateE.kConnecting" "conn_step s s'" "removed s' = removed s"
  shows "conn_inv s' \<and> state s' \<noteq> StateE.kConnecting \<and> (keeps_life s s' \<or> closes s s')"
  using conn_step_inv [OF assms(3,1)] conn_step_life [OF assms(3,2,4)] assms(2)
  by (cases "state s") (auto simp: keeps_life_def closes_def up_def)

lemma client_disconnect_inv:
  assumes "client_inv C"
  shows "client_inv (client_disconnect b C)"
proof (cases "cliConnection C")
  case (Some i)
  let ?s = "conn_of C i" and ?s' = "conn_shutdown b (conn_of C i)"
  have i: "i < length (cliConns C)" "conn_inv ?s" "up ?s" using assms Some by (auto simp: client_inv_def client_conn_ok_def held_def)
  have r: "removed ?s' = removed ?s" and u: "up ?s'" and st: "state ?s' \<noteq> StateE.kConnecting"
    using i(3) by (auto simp: conn_shutdown_def shutdownInLoop_def conn_queueInLoop_def setState_def removed_def up_def Let_def)
  have "client_inv (set_conn i ?s' C)"
    using conn_step_inv [OF conn_step.shutdown i(2)] i u r st by (intro client_inv_set [OF assms]) auto
  then have "client_inv ((set_conn i ?s' C)\<lparr>cliConnect := False\<rparr>)" by simp
  moreover have "client_disconnect b C = (set_conn i ?s' C)\<lparr>cliConnect := False\<rparr>"
    using Some by (simp add: client_disconnect_def set_conn_def conn_of_def)
  ultimately show ?thesis by simp
qed (use assms in \<open>simp add: client_disconnect_def\<close>)

lemma client_newConnection_ok:
  assumes "client_inv C" "cliAlive C" "cliConnection C = None" "0 \<le> sockfd" "connState (cliConnector C) = States.kConnected"
  shows "\<exists>C'. client_newConnection peer sockfd C = Some C' \<and> client_inv C'"
proof -
  let ?n = "length (cliConns C)"
  obtain s where s: "connectEstablished (TcpConnection_new sockfd) = Some s" "conn_inv s" "state s = StateE.kConnected"
    using connectEstablished_ok [OF TcpConnection_new_inv [OF assms(4)]] by (auto simp: TcpConnection_new_def)
  have up: "up s" "\<not> removed s" using s(3) conn_removed [of s] s(2) by (auto simp: up_def)
  let ?C = "C\<lparr>cliNextConnId := cliNextConnId C + 1,
      cliConns := cliConns C @ [(conn_name (cliName C) peer (cliNextConnId C), s)], cliConnection := Some ?n\<rparr>"
  have conn: "conn_of ?C j = (if j = ?n then s else conn_of C j)" if "j \<le> ?n" for j
    using that by (simp add: conn_of_def nth_append)
  have none: "cliDetached C = None" "\<not> held C j" for j using assms(1-3) by (auto simp: client_inv_def held_def)
  have "count_list (cliDestroys C) ?n = 0"
    using assms(1) by (auto simp: client_inv_def count_list_0_iff)
  then have new: "client_conn_ok ?C ?n" using s(2,3) up by (simp add: client_conn_ok_def conn held_def)
  have old: "client_conn_ok C j" if "j < ?n" for j using assms(1) that by (simp add: client_inv_def)
  have "client_conn_ok ?C j" if "j \<le> ?n" for j
  proof (cases "j = ?n")
    case False
    then show ?thesis using old [of j] none(2) [of j] that by (auto simp: client_conn_ok_def conn held_def)
  qed (simp only: new)
  then have "client_inv ?C" using assms none by (auto simp: client_inv_def held_def less_Suc_eq_le)
  then show ?thesis using s(1) assms(2) by (simp add: client_newConnection_def assertion_def Let_def)
qed

lemma client_connector_ok:
  assumes "client_inv C" "client_enabled (ClConnector op peer) C"
  shows "\<exists>C'. client_connector op peer C = Some C' \<and> client_inv C'"
proof -
  let ?K = "cliConnector C"
  have K: "connector_inv ?K" "fd_ok ?K" "op_enabled op ?K" "from_loop op" using assms by (auto simp: client_inv_def)
  obtain K where K': "op_run op ?K = Some K" "connector_inv K" using op_ok [OF K(1,3)] by auto
  have h: "hands_over ?K K" by (rule op_hands [OF K'(1) K(3,4,1,2)])
  have inv: "client_inv (C\<lparr>cliConnector := K\<rparr>)"
    using h K'(2) by (intro client_inv_connector [OF assms(1)]) (auto simp: hands_over_def)
  show ?thesis
  proof (cases "delivered K = delivered ?K")
    case True
    then show ?thesis using K'(1) inv by (simp add: client_connector_def Let_def)
  next
    case False
    then obtain sockfd where d: "connState ?K = States.kConnecting" "connectFlag ?K" "connState K = States.kConnected"
      "0 \<le> sockfd" "delivered K = delivered ?K @ [sockfd]" using h by (auto simp: hands_over_def)
    then have "cliAlive C" "cliConnection C = None" using assms(1) by (auto simp: client_inv_def)
    then show ?thesis
      using client_newConnection_ok [OF inv, of sockfd peer] d K'(1) by (simp add: client_connector_def Let_def)
  qed
qed

lemma client_destroyed_ok:
  assumes "client_inv C" "cliDestroys C = i # is"
  shows "\<exists>C'. client_destroyed i (C\<lparr>cliDestroys := is\<rparr>) = Some C' \<and> client_inv C'"
proof -
  let ?C = "C\<lparr>cliDestroys := is\<rparr>"
  have i: "i < length (cliConns C)" using assms by (auto simp: client_inv_def)
  then have ok: "client_conn_ok C i" using assms(1) by (simp add: client_inv_def)
  then have c: "\<not> up (conn_of C i)" "\<not> removed (conn_of C i)" "count_list is i = 0" "conn_inv (conn_of C i)"
    using assms(2) by (auto simp: client_conn_ok_def split: if_splits)
  then have "state (conn_of C i) = StateE.kDisconnected"
    using ok by (cases "state (conn_of C i)") (auto simp: client_conn_ok_def up_def)
  with connectDestroyed_ok [OF c(4) _ c(2)] obtain s where
    s: "connectDestroyed (conn_of C i) = Some s" "conn_inv s" "state s = StateE.kDisconnected" by auto
  have r: "removed s" using s(1) by (auto simp: connectDestroyed_def channel_remove_def removed_def split: if_splits)
  have conn: "conn_of (set_conn i s ?C) j = (if j = i then s else conn_of C j)" for j
    using conn_of_set(1) [of i ?C s j] i by (simp add: conn_of_def)
  have "client_conn_ok (set_conn i s ?C) j" if "j < length (cliConns C)" for j
  proof (cases "j = i")
    case True
    then show ?thesis using ok c s(2,3) r by (simp add: client_conn_ok_def conn held_def up_def)
  next
    case False
    have "client_conn_ok C j" using assms(1) that by (simp add: client_inv_def)
    then show ?thesis using False assms(2) by (simp add: client_conn_ok_def conn held_def)
  qed
  then have "client_inv (set_conn i s ?C)" using assms i by (auto simp: client_inv_def held_def)
  then show ?thesis using s(1) by (simp add: client_destroyed_def conn_of_def)
qed

lemma client_delete_ok:
  assumes "client_inv C" "client_enabled ClDelete C"
  shows "\<exists>C'. TcpClient_destroy C = Some C' \<and> client_inv C'"
proof (cases "cliConnection C")
  case None
  obtain K where K: "connector_stop True (cliConnector C) = Some K" "client_inv (C\<lparr>cliConnector := K\<rparr>)" "\<not> connectFlag K"
    using client_stop_ok [OF assms(1)] by blast
  then have "client_inv (C\<lparr>cliConnector := K, cliAlive := False\<rparr>)"
    using None by (simp add: client_inv_def)
  then show ?thesis using None K(1) by (simp add: TcpClient_destroy_def)
next
  case (Some i)
  have a: "cliAlive C" "cliDetached C = None" "connFunctors (cliConnector C) = []"
    "connState (cliConnector C) = States.kConnected" using assms Some by (auto simp: client_inv_def)
  have "ctorChannel (cliConnector C) = None"
    using assms(1) a by (auto simp: client_inv_def connector_defs split: if_splits)
  moreover have "client_inv (C\<lparr>cliDetached := Some i, cliConnection := None, cliAlive := False\<rparr>)"
  proof -
    let ?C = "C\<lparr>cliDetached := Some i, cliConnection := None, cliAlive := False\<rparr>"
    have held: "held (C\<lparr>cliDetached := Some i, cliConnection := None\<rparr>) j = held C j" for j
      using Some a(2) by (auto simp: held_def)
    have conn: "conn_of ?C = conn_of C" by (simp add: conn_of_def fun_eq_iff)
    have "client_conn_ok ?C j" if "client_conn_ok C j" for j using that by (simp add: client_conn_ok_def held conn)
    then show ?thesis using assms(1) a by (simp add: client_inv_def held)
  qed
  ultimately show ?thesis using Some by (simp add: TcpClient_destroy_def assertion_def)
qed

lemma client_op_ok:
  assumes "client_inv C" "client_enabled op C"
  shows "\<exists>C'. client_run op C = Some C' \<and> client_inv C'"
proof (cases op)
  case (ClConnect b sockfd e)
  then show ?thesis using client_connect_ok [OF assms(1)] assms(2) by simp
next
  case (ClDisconnect b)
  then show ?thesis using client_disconnect_inv [OF assms(1)] by simp
next
  case (ClStop b)
  then show ?thesis using client_stop_ok [OF assms(1), of b] by (auto simp: client_stop_def)
next
  case ClEnableRetry
  then show ?thesis using assms(1) by (simp add: enableRetry_def)
next
  case (ClConnector k peer)
  then show ?thesis using client_connector_ok [OF assms(1)] assms(2) by simp
next
  case (ClIo i s sockfd e)
  let ?s = "conn_of C i"
  have en: "i < length (cliConns C)" "conn_step ?s s" "removed s = removed ?s" "0 \<le> sockfd"
    "ResetChannel \<notin> set (connFunctors (cliConnector C))" using assms(2) ClIo by (simp_all add: conn_of_def)
  then have "conn_inv ?s" "state ?s \<noteq> StateE.kConnecting" using assms(1) by (auto simp: client_inv_def client_conn_ok_def)
  from conn_io [OF this en(2,3)] have io: "conn_inv s" "state s \<noteq> StateE.kConnecting" "keeps_life ?s s \<or> closes ?s s" by auto
  show ?thesis
  proof (cases "closes ?s s")
    case True
    then have "up ?s" "state s = StateE.kDisconnected" "\<not> up s" by (auto simp: closes_def up_def)
    moreover have "\<not> removed s" using True en(3) conn_removed [of ?s] \<open>conn_inv ?s\<close> by (auto simp: closes_def up_def)
    ultimately show ?thesis
      using closed_inv [OF assms(1) en(1) io(1) _ _ _ _ en(5,4)] True ClIo by (simp add: closes_def conn_of_def)
  next
    case False
    then have "keeps_life ?s s" using io(3) by simp
    then show ?thesis
      using client_inv_set [OF assms(1) en(1) io(1) _ io(2) en(3)] ClIo by (simp add: keeps_life_def conn_of_def)
  qed
next
  case ClLoop
  then show ?thesis using client_destroyed_ok [OF assms(1)] assms(2) by (cases "cliDestroys C") auto
next
  case ClDelete
  then show ?thesis using client_delete_ok [OF assms(1)] assms(2) by simp
qed

lemma client_reachable: "client_step\<^sup>*\<^sup>* (TcpClient_new name) C \<Longrightarrow> client_inv C"
proof (induction rule: rtranclp_induct)
  case (step y z)
  from step(2) obtain op where "client_enabled op y" "client_run op y = Some z" unfolding client_step_iff by blast
  with client_op_ok [OF step(3)] show ?case by fastforce
qed (rule client_inv_new)

section \<open>Properties\<close>


definition client_connecting :: tcp_client where
  "client_connecting = the (client_connect True 3 115 (TcpClient_new ''c''))"

lemma client_connecting_step: "client_step (TcpClient_new ''c'') client_connecting"
proof -
  have "client_enabled (ClConnect True 3 115) (TcpClient_new ''c'')"
    by (simp add: TcpClient_new_def Connector_new_def idle_def)
  moreover have "client_connect True 3 115 (TcpClient_new ''c'') = Some client_connecting"
    by (simp add: client_connecting_def client_connect_def connector_start_def startInLoop_def connector_connect_def
        connect_outcome_def connecting_def assertion_def TcpClient_new_def Connector_new_def Let_def)
  ultimately show ?thesis using client_step.step [of "ClConnect True 3 115"] by simp
qed

lemma client_connecting_fields:
  "cliConnector client_connecting = Connector_new\<lparr>connectFlag := True, connState := States.kConnecting, created := [3],
     ctorChannel := Some ((Channel_new 3)\<lparr>hasWriteCallback := True, hasErrorCallback := True,
       events := new_events (EnableWriting 0) 0\<rparr>)\<rparr>"
  "cliConnection client_connecting = None" "cliConns client_connecting = []" "cliAlive client_connecting"
  "\<not> cliRetry client_connecting"
  by (simp_all add: client_connecting_def client_connect_def connector_start_def startInLoop_def connector_connect_def
      connect_outcome_def connecting_def assertion_def TcpClient_new_def Connector_new_def Let_def)


text \<open>C30: A client that has lost its connection, and does not retry, cannot be connected again: its connector still counts
  as connected, and \<open>connect\<close> fails the assertion in \<open>startInLoop\<close>.\<close>

theorem client_connect_again_aborts:
  assumes "client_step\<^sup>*\<^sup>* (TcpClient_new name) C" "cliConnection C = Some i" "\<not> (cliRetry C \<and> cliConnect C)"
    and "client_removeConnection i sockfd e C = Some C'"
  shows "client_connect True sockfd' e' C' = None"
proof -
  have "connState (cliConnector C) = States.kConnected"
    using client_reachable [OF assms(1)] assms(2) by (auto simp: client_inv_def)
  moreover have "cliConnector C' = cliConnector C"
    using assms(3,4) by (auto simp: client_removeConnection_def Let_def split: if_splits Option.bind_splits)
  ultimately show ?thesis
    by (simp add: client_connect_def connector_start_def startInLoop_def assertion_def Let_def)
qed

theorem client_connect_again_aborts_witness:
  "\<exists>C C'. cliConnection C = Some 0 \<and> client_removeConnection 0 5 115 C = Some C' \<and> client_connect True 6 115 C' = None"
proof -
  let ?op = "OpEvent POLLOUT (Timestamp 0) (0, False)"
  have c1: "client_step (TcpClient_new ''c'') client_connecting" using client_connecting_step .
  note K = client_connecting_fields(1) and f = client_connecting_fields(2-5)
  have "handleEvent (Channel_new 3\<lparr>hasWriteCallback := True, hasErrorCallback := True,
      events := new_events (EnableWriting 0) 0, revents := POLLOUT\<rparr>) (Timestamp 0) = [WriteCallback]"
    by code_simp
  then obtain K2 where K2: "op_run ?op (cliConnector client_connecting) = Some K2" "delivered K2 = [3]"
    unfolding K
    by (simp add: connector_event_def Channel_new_def Connector_new_def
       connector_handleWrite_def removeAndResetChannel_def Let_def  assertion_def)
  obtain s where s: "connectEstablished (TcpConnection_new 3) = Some s"
    using connectEstablished_ok [OF TcpConnection_new_inv [of 3]] by (auto simp: TcpConnection_new_def)
  define C where "C = the (client_run (ClConnector ?op ''p'') client_connecting)"
  have C: "client_run (ClConnector ?op ''p'') client_connecting = Some C" "cliConnection C = Some 0" "\<not> cliRetry C" "cliAlive C"
    using K2 s f by (simp_all add: C_def client_connector_def client_newConnection_def assertion_def K Connector_new_def Let_def)
  have "client_enabled (ClConnector ?op ''p'') client_connecting" by (simp add: K Connector_new_def)
  then have "client_step\<^sup>*\<^sup>* (TcpClient_new ''c'') C"
    using c1 C(1) by (meson client_step.step r_into_rtranclp rtranclp.rtrancl_into_rtrancl)
  moreover obtain C' where C': "client_removeConnection 0 5 115 C = Some C'"
    using C by (simp add: client_removeConnection_def assertion_def Let_def)
  ultimately show ?thesis using client_connect_again_aborts [of "''c''" C 0 5 115 C' 6 115] C by blast
qed

end
