(* ===== verification/Muduo_Monitor.thy ===== *)
theory Muduo_Monitor
  imports Muduo_Prelude
begin

text \<open>
  The monitors of \<open>base\<close>: \<open>BlockingQueue.h\<close>, \<open>BoundedBlockingQueue.h\<close> and \<open>CountDownLatch\<close>, over \<open>Mutex.h\<close> and
  \<open>Condition.h\<close>. What a thread does between taking the mutex and releasing it, by leaving or by waiting, is one step. A
  thread that is woken has to take the mutex again and look again; threads may wake without being notified.
\<close>

section \<open>Threads at a monitor\<close>

text \<open>A thread is elsewhere, wants the mutex for its operation, or waits at the condition variable of its operation.\<close>

datatype 'o status = Elsewhere | Ready 'o | Blocked 'o

definition waits_for :: "('o \<Rightarrow> bool) \<Rightarrow> 'o status \<Rightarrow> bool" where
  "waits_for c s = (case s of Blocked a \<Rightarrow> c a | _ \<Rightarrow> False)"

definition runs :: "('o \<Rightarrow> bool) \<Rightarrow> 'o status \<Rightarrow> bool" where
  "runs c s = (case s of Ready a \<Rightarrow> c a | _ \<Rightarrow> False)"

definition awake :: "'o status \<Rightarrow> 'o status" where
  "awake s = (case s of Blocked a \<Rightarrow> Ready a | _ \<Rightarrow> s)"

text \<open>\<open>notify\<close> wakes one thread that waits, when there is one; which one, \<open>u\<close>, is not ours to choose.\<close>

definition cond_notify :: "('o \<Rightarrow> bool) \<Rightarrow> nat \<Rightarrow> 'o status list \<Rightarrow> 'o status list option" where
  "cond_notify c u ts =
     (if list_ex (waits_for c) ts
      then if u < length ts \<and> waits_for c (ts ! u) then Some (ts[u := awake (ts ! u)]) else None
      else Some ts)"

definition cond_notifyAll :: "('o \<Rightarrow> bool) \<Rightarrow> 'o status list \<Rightarrow> 'o status list" where
  "cond_notifyAll c ts = map (\<lambda>s. if waits_for c s then awake s else s) ts"

definition num :: "('b \<Rightarrow> bool) \<Rightarrow> 'b list \<Rightarrow> nat" where
  "num P xs = length (filter P xs)"

text \<open>While a thread waits at \<open>c\<close>, at least \<open>n\<close> threads are on their way to what it waits for.\<close>

definition woken :: "('o \<Rightarrow> bool) \<Rightarrow> nat \<Rightarrow> 'o status list \<Rightarrow> bool" where
  "woken c n ts \<longleftrightarrow> (list_ex (waits_for c) ts \<longrightarrow> n \<le> num (runs c) ts)"

lemma status_simps [simp]:
  "waits_for c Elsewhere = False" "waits_for c (Ready a) = False" "waits_for c (Blocked a) = c a"
  "runs c Elsewhere = False" "runs c (Ready a) = c a" "runs c (Blocked a) = False"
  "awake Elsewhere = Elsewhere" "awake (Ready a) = Ready a" "awake (Blocked a) = Ready a"
  by (simp_all add: waits_for_def runs_def awake_def)

lemma num_update:
  "t < length xs \<Longrightarrow> num P (xs[t := x]) + (if P (xs ! t) then 1 else 0) = num P xs + (if P x then 1 else 0)"
proof (induction xs arbitrary: t)
  case (Cons y ys)
  then show ?case using Cons.IH [of "t - 1"] by (cases t) (auto simp: num_def)
qed simp

lemma list_ex_update:
  "list_ex P (xs[t := x]) \<Longrightarrow> \<not> P x \<Longrightarrow> list_ex P xs"
  by (auto simp: list_ex_iff dest: in_set_conv_nth [THEN iffD1] set_update_subset_insert [THEN subsetD])

lemma woken_mono: "woken c n ts \<Longrightarrow> m \<le> n \<Longrightarrow> woken c m ts"
  by (auto simp: woken_def)

text \<open>A change of one thread that does not concern the condition, one that leaves, and one that comes or wakes.\<close>

lemma woken_other:
  assumes "woken c n ts" "t < length ts" "\<not> waits_for c s" "runs c (ts ! t) \<longrightarrow> runs c s"
  shows "woken c n (ts[t := s])"
  using assms list_ex_update [of "waits_for c" ts t s] num_update [of t ts "runs c" s]
  by (auto simp: woken_def split: if_splits)

lemma woken_leaves:
  assumes "woken c n ts" "t < length ts" "\<not> waits_for c s"
  shows "woken c (n - 1) (ts[t := s])"
  using assms list_ex_update [of "waits_for c" ts t s] num_update [of t ts "runs c" s]
  by (auto simp: woken_def split: if_splits)

lemma woken_none: "woken c 0 ts"
  by (simp add: woken_def)

lemma woken_idle: "\<forall>s\<in>set ts. \<not> waits_for c s \<Longrightarrow> woken c n ts"
  by (auto simp: woken_def list_ex_iff)

lemma woken_notify:
  assumes "woken c n ts" "cond_notify c u ts = Some ts'"
  shows "woken c (n + 1) ts'"
proof (cases "list_ex (waits_for c) ts")
  case True
  then obtain a where u: "u < length ts" "ts ! u = Blocked a" "c a" "ts' = ts[u := Ready a]"
    using assms(2) by (auto simp: cond_notify_def waits_for_def split: if_splits status.splits)
  then show ?thesis using assms(1) True num_update [of u ts "runs c" "Ready a"] by (simp add: woken_def)
next
  case False
  then show ?thesis using assms(2) by (simp add: cond_notify_def woken_def)
qed

lemma woken_notify_other:
  assumes "woken c n ts" "cond_notify d u ts = Some ts'" "\<And>a. d a \<Longrightarrow> \<not> c a"
  shows "woken c n ts'"
proof (cases "list_ex (waits_for d) ts")
  case True
  then obtain a where u: "u < length ts" "ts ! u = Blocked a" "d a" "ts' = ts[u := Ready a]"
    using assms(2) by (auto simp: cond_notify_def waits_for_def split: if_splits status.splits)
  then show ?thesis using woken_other [OF assms(1), of u "Ready a"] by simp
next
  case False
  then show ?thesis using assms(1,2) by (simp add: cond_notify_def)
qed

lemma cond_notify_length: "cond_notify c u ts = Some ts' \<Longrightarrow> length ts' = length ts"
  by (auto simp: cond_notify_def split: if_splits)

text \<open>When nobody is on the way, nobody waits in vain.\<close>

lemma woken_quiet:
  assumes "woken c n ts" "\<forall>s\<in>set ts. \<forall>a. s \<noteq> Ready a" "Blocked a \<in> set ts" "c a"
  shows "n = 0"
proof -
  have "num (runs c) ts = 0" using assms(2) by (auto simp: num_def runs_def filter_empty_conv split: status.splits)
  moreover have "list_ex (waits_for c) ts" using assms(3,4) by (auto simp: list_ex_iff intro: bexI [of _ "Blocked a"])
  ultimately show ?thesis using assms(1) by (simp add: woken_def)
qed

section \<open>\<open>BoundedBlockingQueue\<close>\<close>

record 'a bbq =
  bbq_queue :: "'a list"
  bbq_maxSize :: nat

datatype 'a queue_op = PutOp 'a | TakeOp

definition is_put :: "'a queue_op \<Rightarrow> bool" where
  "is_put a = (case a of PutOp x \<Rightarrow> True | TakeOp \<Rightarrow> False)"

definition is_take :: "'a queue_op \<Rightarrow> bool" where
  "is_take a = (case a of PutOp x \<Rightarrow> False | TakeOp \<Rightarrow> True)"

definition bbq_full :: "'a bbq \<Rightarrow> bool" where
  "bbq_full q \<longleftrightarrow> length (bbq_queue q) = bbq_maxSize q"

definition bbq_empty :: "'a bbq \<Rightarrow> bool" where
  "bbq_empty q \<longleftrightarrow> bbq_queue q = []"

definition bbq_size :: "'a bbq \<Rightarrow> nat" where
  "bbq_size q = length (bbq_queue q)"

definition bbq_capacity :: "'a bbq \<Rightarrow> nat" where
  "bbq_capacity q = bbq_maxSize q"

text \<open>One pass of a thread under the mutex, up to its wait (\<open>None\<close>) or to the end.\<close>

definition bbq_put :: "'a \<Rightarrow> 'a bbq \<Rightarrow> 'a bbq option" where
  "bbq_put x q = (if bbq_full q then None else Some (q\<lparr>bbq_queue := bbq_queue q @ [x]\<rparr>))"

definition bbq_take :: "'a bbq \<Rightarrow> ('a \<times> 'a bbq) option" where
  "bbq_take q = (if bbq_empty q then None else Some (hd (bbq_queue q), q\<lparr>bbq_queue := tl (bbq_queue q)\<rparr>))"

text \<open>The threads that use a queue, with all that was put and all that was taken, in order.\<close>

record 'a bbq_system =
  bbq_of :: "'a bbq"
  bbq_threads :: "'a queue_op status list"
  bbq_in :: "'a list"
  bbq_out :: "'a list"

inductive bbq_step :: "'a bbq_system \<Rightarrow> 'a bbq_system \<Rightarrow> bool" where
  call: "t < length (bbq_threads s) \<Longrightarrow> bbq_threads s ! t = Elsewhere \<Longrightarrow>
    bbq_step s (s\<lparr>bbq_threads := (bbq_threads s)[t := Ready a]\<rparr>)"
| put_waits: "t < length (bbq_threads s) \<Longrightarrow> bbq_threads s ! t = Ready (PutOp x) \<Longrightarrow> bbq_put x (bbq_of s) = None \<Longrightarrow>
    bbq_step s (s\<lparr>bbq_threads := (bbq_threads s)[t := Blocked (PutOp x)]\<rparr>)"
| put: "t < length (bbq_threads s) \<Longrightarrow> bbq_threads s ! t = Ready (PutOp x) \<Longrightarrow> bbq_put x (bbq_of s) = Some q \<Longrightarrow>
    cond_notify is_take u ((bbq_threads s)[t := Elsewhere]) = Some ts \<Longrightarrow>
    bbq_step s (s\<lparr>bbq_of := q, bbq_threads := ts, bbq_in := bbq_in s @ [x]\<rparr>)"
| take_waits: "t < length (bbq_threads s) \<Longrightarrow> bbq_threads s ! t = Ready TakeOp \<Longrightarrow> bbq_take (bbq_of s) = None \<Longrightarrow>
    bbq_step s (s\<lparr>bbq_threads := (bbq_threads s)[t := Blocked TakeOp]\<rparr>)"
| take: "t < length (bbq_threads s) \<Longrightarrow> bbq_threads s ! t = Ready TakeOp \<Longrightarrow> bbq_take (bbq_of s) = Some (x, q) \<Longrightarrow>
    cond_notify is_put u ((bbq_threads s)[t := Elsewhere]) = Some ts \<Longrightarrow>
    bbq_step s (s\<lparr>bbq_of := q, bbq_threads := ts, bbq_out := bbq_out s @ [x]\<rparr>)"
| spurious: "t < length (bbq_threads s) \<Longrightarrow> bbq_threads s ! t = Blocked a \<Longrightarrow>
    bbq_step s (s\<lparr>bbq_threads := (bbq_threads s)[t := Ready a]\<rparr>)"

definition bbq_new :: "nat \<Rightarrow> nat \<Rightarrow> 'a bbq_system" where
  "bbq_new maxSize n =
     \<lparr>bbq_of = \<lparr>bbq_queue = [], bbq_maxSize = maxSize\<rparr>, bbq_threads = replicate n Elsewhere, bbq_in = [], bbq_out = []\<rparr>"

definition bbq_inv :: "nat \<Rightarrow> 'a bbq_system \<Rightarrow> bool" where
  "bbq_inv maxSize s \<longleftrightarrow>
     (let q = bbq_queue (bbq_of s)
      in bbq_maxSize (bbq_of s) = maxSize \<and> length q \<le> maxSize \<and> bbq_in s = bbq_out s @ q \<and>
         woken is_take (length q) (bbq_threads s) \<and> woken is_put (maxSize - length q) (bbq_threads s))"

lemma bbq_inv_new: "bbq_inv maxSize (bbq_new maxSize n)"
  by (simp add: bbq_inv_def bbq_new_def woken_none woken_idle)

lemma op_simps [simp]:
  "is_put (PutOp x)" "\<not> is_put TakeOp" "is_take TakeOp" "\<not> is_take (PutOp x)"
  by (simp_all add: is_put_def is_take_def)

lemma put_or_take: "is_take a \<Longrightarrow> \<not> is_put a" "is_put a \<Longrightarrow> \<not> is_take a"
  by (simp_all add: is_put_def is_take_def split: queue_op.splits)

lemma bbq_step_inv:
  assumes "bbq_step s s'" "bbq_inv maxSize s"
  shows "bbq_inv maxSize s'"
  using assms
proof (cases rule: bbq_step.cases)
  case (put t x q u ts)
  then have q: "length (bbq_queue (bbq_of s)) < maxSize" "bbq_queue q = bbq_queue (bbq_of s) @ [x]" "bbq_maxSize q = maxSize"
    using assms(2) by (auto simp: bbq_put_def bbq_full_def bbq_inv_def Let_def split: if_splits)
  have "woken is_take (length (bbq_queue (bbq_of s)) + 1) ts"
    using assms(2) put by (intro woken_notify [OF woken_other]) (simp_all add: bbq_inv_def Let_def)
  moreover have "woken is_put (maxSize - length (bbq_queue (bbq_of s)) - 1) ts"
    using assms(2) put by (intro woken_notify_other [OF woken_leaves _ put_or_take(1)]) (simp_all add: bbq_inv_def Let_def)
  ultimately show ?thesis using assms(2) put(1) q by (simp add: bbq_inv_def Let_def)
next
  case (take t x q u ts)
  then have q: "bbq_queue (bbq_of s) = x # bbq_queue q" "bbq_maxSize q = maxSize"
    using assms(2) by (auto simp: bbq_take_def bbq_empty_def bbq_inv_def Let_def split: if_splits)
  have "woken is_put (maxSize - length (bbq_queue (bbq_of s)) + 1) ts"
    using assms(2) take by (intro woken_notify [OF woken_other]) (simp_all add: bbq_inv_def Let_def)
  moreover have "woken is_take (length (bbq_queue (bbq_of s)) - 1) ts"
    using assms(2) take by (intro woken_notify_other [OF woken_leaves _ put_or_take(2)]) (simp_all add: bbq_inv_def Let_def)
  ultimately show ?thesis using assms(2) take(1) q by (auto simp: bbq_inv_def Let_def Suc_diff_le elim: woken_mono)
qed (auto simp: bbq_inv_def Let_def bbq_put_def bbq_take_def bbq_full_def bbq_empty_def woken_none
    intro!: woken_other split: if_splits)

text \<open>C31: A \<open>BoundedBlockingQueue\<close> is a bounded FIFO for any number of threads and any interleaving: what was taken,
  in order, followed by what is in it, is what was put, in order, and it never holds more than its capacity. No
  wakeup is lost: when every thread at the queue waits, those in \<open>take\<close> wait for an empty queue and those in \<open>put\<close> for a
  full one, so that with room for one element they never wait for each other.\<close>

theorem bounded_queue_exact:
  assumes "bbq_step\<^sup>*\<^sup>* (bbq_new maxSize n) s"
  shows "bbq_in s = bbq_out s @ bbq_queue (bbq_of s) \<and> length (bbq_queue (bbq_of s)) \<le> maxSize \<and>
    ((\<forall>x\<in>set (bbq_threads s). \<forall>a. x \<noteq> Ready a) \<longrightarrow>
       (Blocked TakeOp \<in> set (bbq_threads s) \<longrightarrow> bbq_empty (bbq_of s)) \<and>
       (\<forall>x. Blocked (PutOp x) \<in> set (bbq_threads s) \<longrightarrow> bbq_full (bbq_of s)))"
proof -
  have inv: "bbq_inv maxSize s"
    using assms by (induction rule: rtranclp_induct) (auto intro: bbq_inv_new bbq_step_inv)
  then show ?thesis
    by (auto simp: bbq_inv_def Let_def bbq_empty_def bbq_full_def dest: woken_quiet [where c = is_take] woken_quiet [where c = is_put])
qed

theorem bounded_queue_exact_witness:
  "\<exists>s :: nat bbq_system. bbq_step\<^sup>*\<^sup>* (bbq_new 1 2) s \<and> Blocked TakeOp \<in> set (bbq_threads s) \<and> bbq_in s = bbq_out s @ bbq_queue (bbq_of s)"
proof -
  let ?s = "\<lambda>x. (bbq_new 1 2 :: nat bbq_system)\<lparr>bbq_threads := [Elsewhere, x]\<rparr>"
  have new: "bbq_threads (bbq_new m 2) = [Elsewhere, Elsewhere]" for m by (simp add: bbq_new_def numeral_2_eq_2)
  have "bbq_step (bbq_new 1 2) (?s (Ready TakeOp))"
    using bbq_step.call [of 1 "bbq_new 1 2 :: nat bbq_system" TakeOp] by (simp add: new)
  moreover have "bbq_step (?s (Ready TakeOp)) (?s (Blocked TakeOp))"
    using bbq_step.take_waits [of 1 "?s (Ready TakeOp)"] by (simp add: bbq_take_def bbq_empty_def bbq_new_def)
  ultimately have "bbq_step\<^sup>*\<^sup>* (bbq_new 1 2) (?s (Blocked TakeOp))" by (meson r_into_rtranclp rtranclp.rtrancl_into_rtrancl)
  then show ?thesis using bounded_queue_exact [of 1 2 "?s (Blocked TakeOp)"] by auto
qed

section \<open>\<open>BlockingQueue\<close>\<close>

text \<open>The queue without a bound: \<open>put\<close> never waits.\<close>

definition bq_put :: "'a \<Rightarrow> 'a list \<Rightarrow> 'a list" where
  "bq_put x q = q @ [x]"

fun bq_take :: "'a list \<Rightarrow> ('a \<times> 'a list) option" where
  "bq_take [] = None"
| "bq_take (x # q) = Some (x, q)"

definition bq_size :: "'a list \<Rightarrow> nat" where
  "bq_size q = length q"

record 'a bq_system =
  bq_queue :: "'a list"
  bq_threads :: "'a queue_op status list"
  bq_in :: "'a list"
  bq_out :: "'a list"

inductive bq_step :: "'a bq_system \<Rightarrow> 'a bq_system \<Rightarrow> bool" where
  call: "t < length (bq_threads s) \<Longrightarrow> bq_threads s ! t = Elsewhere \<Longrightarrow>
    bq_step s (s\<lparr>bq_threads := (bq_threads s)[t := Ready a]\<rparr>)"
| put: "t < length (bq_threads s) \<Longrightarrow> bq_threads s ! t = Ready (PutOp x) \<Longrightarrow>
    cond_notify is_take u ((bq_threads s)[t := Elsewhere]) = Some ts \<Longrightarrow>
    bq_step s (s\<lparr>bq_queue := bq_put x (bq_queue s), bq_threads := ts, bq_in := bq_in s @ [x]\<rparr>)"
| take_waits: "t < length (bq_threads s) \<Longrightarrow> bq_threads s ! t = Ready TakeOp \<Longrightarrow> bq_take (bq_queue s) = None \<Longrightarrow>
    bq_step s (s\<lparr>bq_threads := (bq_threads s)[t := Blocked TakeOp]\<rparr>)"
| take: "t < length (bq_threads s) \<Longrightarrow> bq_threads s ! t = Ready TakeOp \<Longrightarrow> bq_take (bq_queue s) = Some (x, q) \<Longrightarrow>
    bq_step s (s\<lparr>bq_queue := q, bq_threads := (bq_threads s)[t := Elsewhere], bq_out := bq_out s @ [x]\<rparr>)"
| spurious: "t < length (bq_threads s) \<Longrightarrow> bq_threads s ! t = Blocked a \<Longrightarrow>
    bq_step s (s\<lparr>bq_threads := (bq_threads s)[t := Ready a]\<rparr>)"

definition bq_new :: "nat \<Rightarrow> 'a bq_system" where
  "bq_new n = \<lparr>bq_queue = [], bq_threads = replicate n Elsewhere, bq_in = [], bq_out = []\<rparr>"

definition bq_inv :: "'a bq_system \<Rightarrow> bool" where
  "bq_inv s \<longleftrightarrow> bq_in s = bq_out s @ bq_queue s \<and> woken is_take (length (bq_queue s)) (bq_threads s) \<and>
     (\<forall>x. Blocked (PutOp x) \<notin> set (bq_threads s))"

lemma blocked_update: "Blocked a \<in> set (ts[t := x]) \<Longrightarrow> x \<noteq> Blocked a \<Longrightarrow> Blocked a \<in> set ts"
  using set_update_subset_insert [of ts t x] by auto

lemma blocked_notify: "cond_notify c u ts = Some ts' \<Longrightarrow> Blocked a \<in> set ts' \<Longrightarrow> Blocked a \<in> set ts"
  by (auto simp: cond_notify_def waits_for_def split: if_splits status.splits dest: blocked_update)

lemma bq_step_inv:
  assumes "bq_step s s'" "bq_inv s"
  shows "bq_inv s'"
  using assms
proof (cases rule: bq_step.cases)
  case (put t x u ts)
  have "woken is_take (length (bq_queue s) + 1) ts"
    using assms(2) put by (intro woken_notify [OF woken_other]) (simp_all add: bq_inv_def)
  then show ?thesis
    using assms(2) put by (auto simp: bq_inv_def bq_put_def dest!: blocked_notify blocked_update)
next
  case (take t x q)
  then have "bq_queue s = x # q" by (cases "bq_queue s") auto
  moreover have "woken is_take (length (bq_queue s) - 1) ((bq_threads s)[t := Elsewhere])"
    using assms(2) take by (intro woken_leaves) (simp_all add: bq_inv_def)
  ultimately show ?thesis using assms(2) take by (auto simp: bq_inv_def dest!: blocked_update)
next
  case (take_waits t)
  then have "bq_queue s = []" by (cases "bq_queue s") auto
  then show ?thesis using assms(2) take_waits by (auto simp: bq_inv_def woken_none dest!: blocked_update)
qed (auto simp: bq_inv_def intro!: woken_other dest!: blocked_update)

theorem blocking_queue_exact:
  assumes "bq_step\<^sup>*\<^sup>* (bq_new n) s"
  shows "bq_in s = bq_out s @ bq_queue s \<and> (\<forall>x. Blocked (PutOp x) \<notin> set (bq_threads s)) \<and>
    ((\<forall>x\<in>set (bq_threads s). \<forall>a. x \<noteq> Ready a) \<longrightarrow> Blocked TakeOp \<in> set (bq_threads s) \<longrightarrow> bq_queue s = [])"
proof -
  have "bq_inv (bq_new n)" by (auto simp: bq_inv_def bq_new_def woken_none)
  with assms have "bq_inv s" by (induction rule: rtranclp_induct) (auto intro: bq_step_inv)
  then show ?thesis by (auto simp: bq_inv_def dest: woken_quiet)
qed

section \<open>\<open>CountDownLatch\<close>\<close>

datatype latch_op = WaitOp | CountDownOp

record latch =
  latch_count :: int
  latch_threads :: "latch_op status list"
  latch_downs :: nat
  latch_passed :: bool

text \<open>\<open>latch_downs\<close> counts the calls of \<open>countDown\<close>, \<open>latch_passed\<close> tells whether a \<open>wait\<close> has returned.\<close>

definition latch_countDown :: "latch \<Rightarrow> latch" where
  "latch_countDown l =
     (let count = latch_count l - 1
      in l\<lparr>latch_count := count,
           latch_threads := (if count = 0 then cond_notifyAll (\<lambda>a. a = WaitOp) (latch_threads l) else latch_threads l),
           latch_downs := latch_downs l + 1\<rparr>)"

definition latch_wait_returns :: "latch \<Rightarrow> bool" where
  "latch_wait_returns l \<longleftrightarrow> \<not> latch_count l > 0"

inductive latch_step :: "latch \<Rightarrow> latch \<Rightarrow> bool" where
  call: "t < length (latch_threads l) \<Longrightarrow> latch_threads l ! t = Elsewhere \<Longrightarrow>
    latch_step l (l\<lparr>latch_threads := (latch_threads l)[t := Ready a]\<rparr>)"
| waits: "t < length (latch_threads l) \<Longrightarrow> latch_threads l ! t = Ready WaitOp \<Longrightarrow> \<not> latch_wait_returns l \<Longrightarrow>
    latch_step l (l\<lparr>latch_threads := (latch_threads l)[t := Blocked WaitOp]\<rparr>)"
| returns: "t < length (latch_threads l) \<Longrightarrow> latch_threads l ! t = Ready WaitOp \<Longrightarrow> latch_wait_returns l \<Longrightarrow>
    latch_step l (l\<lparr>latch_threads := (latch_threads l)[t := Elsewhere], latch_passed := True\<rparr>)"
| down: "t < length (latch_threads l) \<Longrightarrow> latch_threads l ! t = Ready CountDownOp \<Longrightarrow>
    latch_step l (latch_countDown (l\<lparr>latch_threads := (latch_threads l)[t := Elsewhere]\<rparr>))"
| spurious: "t < length (latch_threads l) \<Longrightarrow> latch_threads l ! t = Blocked a \<Longrightarrow>
    latch_step l (l\<lparr>latch_threads := (latch_threads l)[t := Ready a]\<rparr>)"

definition latch_new :: "int \<Rightarrow> nat \<Rightarrow> latch" where
  "latch_new count n =
     \<lparr>latch_count = count, latch_threads = replicate n Elsewhere, latch_downs = 0, latch_passed = False\<rparr>"

definition latch_inv :: "int \<Rightarrow> latch \<Rightarrow> bool" where
  "latch_inv count l \<longleftrightarrow> latch_count l = count - int (latch_downs l) \<and> (latch_passed l \<longrightarrow> \<not> latch_count l > 0) \<and>
     (\<forall>a. Blocked a \<in> set (latch_threads l) \<longrightarrow> a = WaitOp \<and> latch_count l > 0)"

lemma blocked_notifyAll: "Blocked a \<in> set (cond_notifyAll c ts) \<Longrightarrow> Blocked a \<in> set ts \<and> \<not> c a"
  by (auto simp: cond_notifyAll_def waits_for_def awake_def split: if_splits status.splits)

lemma latch_step_inv:
  assumes "latch_step l l'" "latch_inv count l"
  shows "latch_inv count l'"
  using assms
proof (cases rule: latch_step.cases)
  case (down t)
  then show ?thesis
    using assms(2) by (fastforce simp: latch_inv_def latch_countDown_def Let_def dest: blocked_notifyAll blocked_update)
qed (fastforce simp: latch_inv_def latch_wait_returns_def dest: blocked_update)+

theorem latch_exact:
  assumes "latch_step\<^sup>*\<^sup>* (latch_new count n) l"
  shows "(latch_passed l \<longrightarrow> int (latch_downs l) \<ge> count) \<and>
    (int (latch_downs l) \<ge> count \<longrightarrow> (\<forall>a. Blocked a \<notin> set (latch_threads l)) \<and> latch_wait_returns l)"
proof -
  have "latch_inv count (latch_new count n)" by (auto simp: latch_inv_def latch_new_def)
  with assms have "latch_inv count l" by (induction rule: rtranclp_induct) (auto intro: latch_step_inv)
  then show ?thesis by (auto simp: latch_inv_def latch_wait_returns_def)
qed

end
