(* ===== verification/Muduo_ThreadPool.thy ===== *)
theory Muduo_ThreadPool
  imports Muduo_Monitor
begin

text \<open>
  The thread pool (\<open>base/ThreadPool.h\<close>, \<open>base/ThreadPool.cc\<close>): a queue of tasks under one mutex and one condition
  variable, its worker threads, and the threads that hand it tasks and stop it. A task returns; one that throws ends the
  process.
\<close>

section \<open>State and operations\<close>

text \<open>A worker is at the test of its loop, on its way into \<open>take\<close>, waiting in it, in a task, or has returned.\<close>

datatype 'a worker = Checking | Taking | Waiting | Calling 'a | Exited

text \<open>A \<open>Task\<close> is a \<open>boost::function\<close> and may be empty. \<open>tp_given\<close> and \<open>tp_taken\<close> record what went into the queue and
  out of it, \<open>tp_called\<close> the tasks that \<open>run\<close> called itself.\<close>

record 'a thread_pool =
  tp_workers :: "'a worker list"
  tp_queue :: "'a option list"
  tp_running :: bool
  tp_given :: "'a option list"
  tp_taken :: "'a option list"
  tp_called :: "'a list"

definition ThreadPool_new :: "'a thread_pool" where
  "ThreadPool_new = \<lparr>tp_workers = [], tp_queue = [], tp_running = False, tp_given = [], tp_taken = [], tp_called = []\<rparr>"

definition tp_start :: "nat \<Rightarrow> 'a thread_pool \<Rightarrow> 'a thread_pool option" where
  "tp_start numThreads s =
     (if tp_workers s \<noteq> [] then None
      else Some (s\<lparr>tp_running := True, tp_workers := replicate numThreads Checking\<rparr>))"

definition tp_notify :: "nat \<Rightarrow> 'a worker list \<Rightarrow> 'a worker list option" where
  "tp_notify u ws =
     (if Waiting \<in> set ws then if u < length ws \<and> ws ! u = Waiting then Some (ws[u := Taking]) else None else Some ws)"

text \<open>Calling an empty \<open>boost::function\<close> throws, which here nobody catches.\<close>

definition tp_run :: "'a option \<Rightarrow> nat \<Rightarrow> 'a thread_pool \<Rightarrow> 'a thread_pool option" where
  "tp_run task u s =
     (if tp_workers s = [] then map_option (\<lambda>x. s\<lparr>tp_called := tp_called s @ [x]\<rparr>) task
      else map_option (\<lambda>ws. s\<lparr>tp_queue := tp_queue s @ [task], tp_workers := ws, tp_given := tp_given s @ [task]\<rparr>)
        (tp_notify u (tp_workers s)))"

definition tp_stop :: "'a thread_pool \<Rightarrow> 'a thread_pool" where
  "tp_stop s = s\<lparr>tp_running := False, tp_workers := map (\<lambda>w. case w of Waiting \<Rightarrow> Taking | _ \<Rightarrow> w) (tp_workers s)\<rparr>"

text \<open>One pass of \<open>take\<close> under the mutex, with the test of the task that follows.\<close>

definition tp_take :: "nat \<Rightarrow> 'a thread_pool \<Rightarrow> 'a thread_pool" where
  "tp_take w s =
     (if tp_queue s = [] \<and> tp_running s then s\<lparr>tp_workers := (tp_workers s)[w := Waiting]\<rparr>
      else case tp_queue s of
          [] \<Rightarrow> s\<lparr>tp_workers := (tp_workers s)[w := Checking]\<rparr>
        | task # q \<Rightarrow>
            s\<lparr>tp_queue := q, tp_taken := tp_taken s @ [task],
              tp_workers := (tp_workers s)[w := (case task of None \<Rightarrow> Checking | Some x \<Rightarrow> Calling x)]\<rparr>)"

definition tp_check :: "nat \<Rightarrow> 'a thread_pool \<Rightarrow> 'a thread_pool" where
  "tp_check w s = s\<lparr>tp_workers := (tp_workers s)[w := (if tp_running s then Taking else Exited)]\<rparr>"

section \<open>Steps\<close>

inductive tp_work :: "'a thread_pool \<Rightarrow> 'a thread_pool \<Rightarrow> bool" where
  check: "w < length (tp_workers s) \<Longrightarrow> tp_workers s ! w = Checking \<Longrightarrow> tp_work s (tp_check w s)"
| take: "w < length (tp_workers s) \<Longrightarrow> tp_workers s ! w = Taking \<Longrightarrow> tp_work s (tp_take w s)"
| returns: "w < length (tp_workers s) \<Longrightarrow> tp_workers s ! w = Calling x \<Longrightarrow>
    tp_work s (s\<lparr>tp_workers := (tp_workers s)[w := Checking]\<rparr>)"
| spurious: "w < length (tp_workers s) \<Longrightarrow> tp_workers s ! w = Waiting \<Longrightarrow>
    tp_work s (s\<lparr>tp_workers := (tp_workers s)[w := Taking]\<rparr>)"

inductive tp_step :: "'a thread_pool \<Rightarrow> 'a thread_pool \<Rightarrow> bool" where
  start: "tp_start n s = Some s' \<Longrightarrow> tp_step s s'"
| run: "tp_run task u s = Some s' \<Longrightarrow> tp_step s s'"
| stop: "tp_step s (tp_stop s)"
| work: "tp_work s s' \<Longrightarrow> tp_step s s'"

section \<open>The invariant\<close>

definition tp_inv :: "'a thread_pool \<Rightarrow> bool" where
  "tp_inv s \<longleftrightarrow> tp_given s = tp_taken s @ tp_queue s \<and> (tp_workers s = [] \<longrightarrow> tp_queue s = []) \<and>
     (Waiting \<in> set (tp_workers s) \<longrightarrow> tp_running s \<and> length (tp_queue s) \<le> num (\<lambda>w. w = Taking) (tp_workers s))"

lemma waiting_update: "Waiting \<in> set (ws[w := x]) \<Longrightarrow> x \<noteq> Waiting \<Longrightarrow> Waiting \<in> set ws"
  using set_update_subset_insert [of ws w x] by auto

text \<open>A worker that does not begin to wait, and does not take without a task.\<close>

lemma tp_inv_update:
  assumes "tp_inv s" "w < length (tp_workers s)" "x \<noteq> Waiting" "tp_workers s ! w \<noteq> Taking \<or> x = Taking"
  shows "tp_inv (s\<lparr>tp_workers := (tp_workers s)[w := x]\<rparr>)"
  using assms num_update [OF assms(2), of "\<lambda>w. w = Taking" x]
  by (auto simp: tp_inv_def dest!: waiting_update split: if_splits)

lemma tp_inv_notify:
  assumes "tp_inv s" "tp_run task u s = Some s'"
  shows "tp_inv s'"
proof (cases "Waiting \<in> set (tp_workers s)")
  case True
  then have u: "u < length (tp_workers s)" "tp_workers s ! u = Waiting"
    "s' = s\<lparr>tp_queue := tp_queue s @ [task], tp_workers := (tp_workers s)[u := Taking], tp_given := tp_given s @ [task]\<rparr>"
    using assms(2) by (auto simp: tp_run_def tp_notify_def split: if_splits)
  then show ?thesis
    using assms(1) True num_update [OF u(1), of "\<lambda>w. w = Taking" Taking] by (auto simp: tp_inv_def)
next
  case False
  then show ?thesis using assms by (auto simp: tp_run_def tp_notify_def tp_inv_def split: if_splits)
qed

lemma tp_inv_take:
  assumes "tp_inv s" "w < length (tp_workers s)" "tp_workers s ! w = Taking"
  shows "tp_inv (tp_take w s)"
  using assms num_update [OF assms(2), of "\<lambda>w. w = Taking" "case hd (tp_queue s) of None \<Rightarrow> Checking | Some x \<Rightarrow> Calling x"]
  by (auto simp: tp_take_def tp_inv_def dest!: waiting_update split: list.splits option.splits)

lemma tp_work_inv: "tp_work s s' \<Longrightarrow> tp_inv s \<Longrightarrow> tp_inv s'"
  by (induction rule: tp_work.induct) (auto simp: tp_check_def intro!: tp_inv_update tp_inv_take)

lemma tp_step_inv: "tp_step s s' \<Longrightarrow> tp_inv s \<Longrightarrow> tp_inv s'"
proof (induction rule: tp_step.induct)
  case (start n s s')
  then show ?case by (auto simp: tp_start_def tp_inv_def split: if_splits)
next
  case (stop s)
  have "Waiting \<notin> set (tp_workers (tp_stop s))" by (auto simp: tp_stop_def split: worker.splits)
  then show ?case using stop by (auto simp: tp_inv_def tp_stop_def)
qed (auto intro: tp_inv_notify tp_work_inv)

lemma tp_reach_inv: "tp_step\<^sup>*\<^sup>* ThreadPool_new s \<Longrightarrow> tp_inv s"
proof (induction rule: rtranclp_induct)
  case base
  show ?case by (simp add: ThreadPool_new_def tp_inv_def)
qed (rule tp_step_inv)

text \<open>C32: The tasks given to a \<open>ThreadPool\<close> are taken once each, in the order in which they were given, whatever threads
  give them and in whatever order the workers run. No wakeup is lost: when every worker that is not in a task waits,
  no task is left in the queue, and nobody waits in a pool that has been stopped.\<close>

theorem thread_pool_exact:
  assumes "tp_step\<^sup>*\<^sup>* ThreadPool_new s"
  shows "tp_given s = tp_taken s @ tp_queue s \<and>
    (Waiting \<in> set (tp_workers s) \<longrightarrow> tp_running s \<and> (Taking \<notin> set (tp_workers s) \<longrightarrow> tp_queue s = []))"
proof -
  have inv: "tp_inv s" by (rule tp_reach_inv [OF assms])
  moreover have "num (\<lambda>w. w = Taking) (tp_workers s) = 0" if "Taking \<notin> set (tp_workers s)"
    using that by (auto simp: num_def filter_empty_conv)
  ultimately show ?thesis by (auto simp: tp_inv_def)
qed

theorem thread_pool_exact_witness:
  "tp_given (the (tp_run (Some (7::nat)) 0 (the (tp_start 1 ThreadPool_new)))) = [Some 7] \<and>
   tp_queue (the (tp_run (Some (7::nat)) 0 (the (tp_start 1 ThreadPool_new)))) = [Some 7]"
proof -
  let ?s = "the (tp_start 1 (ThreadPool_new :: nat thread_pool))" and ?t = "\<lambda>s. the (tp_run (Some (7::nat)) 0 s)"
  have "tp_start 1 (ThreadPool_new :: nat thread_pool) = Some ?s" "tp_run (Some (7::nat)) 0 ?s = Some (?t ?s)"
    by (simp_all add: tp_start_def ThreadPool_new_def tp_run_def tp_notify_def)
  then have "tp_step\<^sup>*\<^sup>* ThreadPool_new (?t ?s)"
    by (meson tp_step.start tp_step.run r_into_rtranclp rtranclp.rtrancl_into_rtrancl)
  from thread_pool_exact [OF this] show ?thesis
    by (simp add: tp_start_def ThreadPool_new_def tp_run_def tp_notify_def)
qed

section \<open>Stopping\<close>

fun tp_rank :: "'a worker \<Rightarrow> nat" where
  "tp_rank Exited = 0"
| "tp_rank Checking = 1"
| "tp_rank (Calling x) = 2"
| "tp_rank Taking = 3"
| "tp_rank Waiting = 4"

definition tp_todo :: "'a thread_pool \<Rightarrow> nat" where
  "tp_todo s = sum_list (map tp_rank (tp_workers s))"

lemma sum_list_lower:
  assumes "w < length ws" "tp_rank x < tp_rank (ws ! w)"
  shows "sum_list (map tp_rank (ws[w := x])) < sum_list (map tp_rank ws)"
  using assms by (induction ws arbitrary: w) (auto simp: nth_Cons split: nat.splits)

lemma tp_work_stopped:
  assumes "tp_work s s'" "\<not> tp_running s"
  shows "\<not> tp_running s' \<and> tp_todo s' < tp_todo s"
  using assms
proof (cases rule: tp_work.cases)
  case (take w)
  have lower: "sum_list (map tp_rank ((tp_workers s)[w := x])) < sum_list (map tp_rank (tp_workers s))" if "tp_rank x < 3" for x
    using sum_list_lower [of w "tp_workers s" x] take that by simp
  show ?thesis
    using take assms(2) by (auto simp: tp_take_def tp_todo_def split: list.split option.split intro!: lower)
qed (auto simp: tp_check_def tp_todo_def intro!: sum_list_lower)

lemma tp_work_lasts:
  "(tp_work ^^ k) s s' \<Longrightarrow> \<not> tp_running s \<Longrightarrow> \<not> tp_running s' \<and> tp_todo s' + k \<le> tp_todo s"
proof (induction k arbitrary: s')
  case (Suc k)
  then obtain t where "(tp_work ^^ k) s t" "tp_work t s'" by auto
  then show ?case using Suc tp_work_stopped [of t s'] by fastforce
qed simp

lemma tp_rank_bound: "Waiting \<notin> set ws \<Longrightarrow> sum_list (map tp_rank ws) \<le> 3 * length ws"
proof (induction ws)
  case (Cons w ws)
  then show ?case by (cases w) auto
qed simp

lemma tp_can_work: "w \<in> set (tp_workers s) \<Longrightarrow> w \<noteq> Exited \<Longrightarrow> \<exists>s'. tp_work s s'"
  by (cases w) (auto simp: in_set_conv_nth intro: tp_work.intros)

text \<open>C33: \<open>stop\<close> ends: once the pool is stopped its workers take at most three steps each (tasks return), and when none
  of them has a step left, every worker has left its loop, so that all the calls of \<open>join\<close> return.\<close>

theorem thread_pool_stops:
  assumes "tp_step\<^sup>*\<^sup>* ThreadPool_new s" "(tp_work ^^ k) (tp_stop s) s'"
  shows "k \<le> 3 * length (tp_workers s) \<and> ((\<nexists>s''. tp_work s' s'') \<longrightarrow> (\<forall>w\<in>set (tp_workers s'). w = Exited))"
proof -
  have "\<not> tp_running (tp_stop s)" by (simp add: tp_stop_def)
  then have "k \<le> tp_todo (tp_stop s)" using tp_work_lasts [OF assms(2)] by simp
  moreover have "Waiting \<notin> set (tp_workers (tp_stop s))" by (auto simp: tp_stop_def split: worker.splits)
  then have "tp_todo (tp_stop s) \<le> 3 * length (tp_workers (tp_stop s))"
    unfolding tp_todo_def by (rule tp_rank_bound)
  moreover have "length (tp_workers (tp_stop s)) = length (tp_workers s)" by (simp add: tp_stop_def)
  ultimately show ?thesis using tp_can_work by fastforce
qed

theorem thread_pool_stops_witness:
  "\<exists>s :: nat thread_pool. tp_step\<^sup>*\<^sup>* ThreadPool_new s \<and> (tp_work ^^ 1) (tp_stop s) (tp_check 0 (tp_stop s)) \<and>
     1 \<le> 3 * length (tp_workers s) \<and> tp_workers (tp_check 0 (tp_stop s)) = [Exited]"
proof -
  let ?s = "the (tp_start 1 (ThreadPool_new :: nat thread_pool))"
  have "tp_start 1 (ThreadPool_new :: nat thread_pool) = Some ?s" by (simp add: tp_start_def ThreadPool_new_def)
  then have s: "tp_step\<^sup>*\<^sup>* ThreadPool_new ?s" by (meson tp_step.start r_into_rtranclp)
  have "tp_workers (tp_stop ?s) = [Checking]" by (simp add: tp_start_def ThreadPool_new_def tp_stop_def)
  then have w: "(tp_work ^^ 1) (tp_stop ?s) (tp_check 0 (tp_stop ?s))"
    "tp_workers (tp_check 0 (tp_stop ?s)) = [Exited]"
    using tp_work.check [of 0 "tp_stop ?s"] by (auto simp: tp_check_def) (simp add: tp_stop_def)
  show ?thesis using thread_pool_stops [OF s w(1)] s w by blast
qed

end
