(* ===== verification/Bank_Prelude.thy ===== *)
theory Bank_Prelude
  imports Muduo_Prelude
begin

unbundle bit_operations_syntax

text \<open>
  What the bank example's theories share: the C types as words (the host is little-endian, \<open>int\<close> has 32 bits),
  the bytes of a 32-bit word in memory, and blocks of memory that are overwritten in part.
\<close>

type_synonym uchar = "8 word"
type_synonym ushort = "16 word"
type_synonym word32 = "32 word"

text \<open>A \<open>word32\<close> read from and stored into memory.\<close>

definition load32 :: "uchar list \<Rightarrow> nat \<Rightarrow> word32" where
  "load32 bs i =
     ucast (bs ! (4 * i)) OR push_bit 8 (ucast (bs ! (4 * i + 1))) OR push_bit 16 (ucast (bs ! (4 * i + 2)))
     OR push_bit 24 (ucast (bs ! (4 * i + 3)))"

definition store32 :: "word32 \<Rightarrow> uchar list" where
  "store32 x = [ucast x, ucast (drop_bit 8 x), ucast (drop_bit 16 x), ucast (drop_bit 24 x)]"

lemma length_store32 [simp]: "length (store32 x) = 4"
  by (simp add: store32_def)

text \<open>\<open>memmove(p + t, xs, len)\<close> and \<open>memset\<close> inside a block.\<close>

definition put_at :: "nat \<Rightarrow> 'a list \<Rightarrow> 'a list \<Rightarrow> 'a list" where
  "put_at t xs v = take t v @ xs @ drop (t + length xs) v"

lemma length_put_at [simp]: "t + length xs \<le> length v \<Longrightarrow> length (put_at t xs v) = length v"
  by (simp add: put_at_def)

lemma take_put_at: "t + length xs \<le> length v \<Longrightarrow> take (t + length xs) (put_at t xs v) = take t v @ xs"
  by (simp add: put_at_def)

lemma put_at_0: "length xs = length v \<Longrightarrow> put_at 0 xs v = xs"
  by (simp add: put_at_def)

end
