(* ===== verification/Bank_Streams.thy ===== *)
theory Bank_Streams
  imports Bank_Prelude
begin

unbundle bit_operations_syntax

text \<open>
  The byte streams of the bank example: \<open>Endian\<close> of \<open>src/49/ABCBank/Public/JUtil.h\<close>, \<open>JOutStream\<close> and
  \<open>JInStream\<close>. A write or a read outside the vector, and a failed assertion, is \<open>None\<close>. \<open>char\<close> and \<open>unsigned
  char\<close> are both \<open>uchar\<close>: the code only moves them.
\<close>

section \<open>Byte order\<close>

definition Swap16 :: "ushort \<Rightarrow> ushort" where
  "Swap16 s = push_bit 8 (s AND 0xff) OR (drop_bit 8 s AND 0xff)"

definition Swap32 :: "word32 \<Rightarrow> word32" where
  "Swap32 l = drop_bit 24 l OR drop_bit 8 (l AND 0x00ff0000) OR push_bit 8 (l AND 0x0000ff00) OR push_bit 24 l"

text \<open>\<open>IsBigEndian()\<close> looks at the first byte of \<open>0x0001\<close>, which is 1 on the hosts modelled here.\<close>

definition store16le :: "ushort \<Rightarrow> uchar list" where
  "store16le x = [ucast x, ucast (drop_bit 8 x)]"

definition load16le :: "uchar list \<Rightarrow> ushort" where
  "load16le bs = ucast (bs ! 0) OR push_bit 8 (ucast (bs ! 1))"

definition IsBigEndian :: bool where
  "IsBigEndian \<longleftrightarrow> \<not> hd (store16le 0x0001) \<noteq> 0"

definition HostToNetwork16 :: "ushort \<Rightarrow> ushort" where
  "HostToNetwork16 host16 = (if IsBigEndian then host16 else Swap16 host16)"

definition HostToNetwork32 :: "word32 \<Rightarrow> word32" where
  "HostToNetwork32 host32 = (if IsBigEndian then host32 else Swap32 host32)"

definition NetworkToHost16 :: "ushort \<Rightarrow> ushort" where
  "NetworkToHost16 net16 = (if IsBigEndian then net16 else Swap16 net16)"

definition NetworkToHost32 :: "word32 \<Rightarrow> word32" where
  "NetworkToHost32 net32 = (if IsBigEndian then net32 else Swap32 net32)"

section \<open>\<open>JOutStream\<close>\<close>

record JOutStream =
  outBuffer :: "uchar list"
  outIndex :: nat

definition kInitialSize :: nat where
  "kInitialSize = 1024"

definition JOutStream_new :: JOutStream where
  "JOutStream_new = \<lparr>outBuffer = replicate kInitialSize 0, outIndex = 0\<rparr>"

definition WriteableBytes :: "JOutStream \<Rightarrow> nat" where
  "WriteableBytes s = size_sub (length (outBuffer s)) (outIndex s)"

text \<open>\<open>vector::resize\<close>: new elements are value-initialised.\<close>

definition vec_resize :: "nat \<Rightarrow> uchar list \<Rightarrow> uchar list" where
  "vec_resize n v = take n v @ replicate (n - length v) 0"

definition EnsureWritableBytes :: "nat \<Rightarrow> JOutStream \<Rightarrow> JOutStream" where
  "EnsureWritableBytes len s =
     (if WriteableBytes s < len
      then s\<lparr>outBuffer := vec_resize (size_add (outIndex s) len) (outBuffer s)\<rparr>
      else s)"

definition out_append :: "uchar list \<Rightarrow> JOutStream \<Rightarrow> JOutStream option" where
  "out_append bs s =
     (let s1 = EnsureWritableBytes (length bs) s
      in do { v \<leftarrow> copy_to (outBuffer s1) (outIndex s1) bs;
              Some (s1\<lparr>outBuffer := v, outIndex := size_add (outIndex s1) (length bs)\<rparr>) })"

definition out_uint8 :: "uchar \<Rightarrow> JOutStream \<Rightarrow> JOutStream option" where
  "out_uint8 x s = out_append [x] s"

definition out_uint16 :: "ushort \<Rightarrow> JOutStream \<Rightarrow> JOutStream option" where
  "out_uint16 x s = (let be16 = HostToNetwork16 x in out_append (store16le be16) s)"

definition out_uint32 :: "word32 \<Rightarrow> JOutStream \<Rightarrow> JOutStream option" where
  "out_uint32 x s = (let be32 = HostToNetwork32 x in out_append (store32 be32) s)"

text \<open>The signed overloads convert to unsigned and back, which keeps the bits.\<close>

definition out_int8 :: "uchar \<Rightarrow> JOutStream \<Rightarrow> JOutStream option" where
  "out_int8 x s = out_append [x] s"

definition out_int16 :: "ushort \<Rightarrow> JOutStream \<Rightarrow> JOutStream option" where
  "out_int16 x s = (let be16 = HostToNetwork16 x in out_append (store16le be16) s)"

definition out_int32 :: "word32 \<Rightarrow> JOutStream \<Rightarrow> JOutStream option" where
  "out_int32 x s = (let be32 = HostToNetwork32 x in out_append (store32 be32) s)"

text \<open>The length is cast to 16 bits, and only so many characters follow it.\<close>

definition out_string :: "uchar list \<Rightarrow> JOutStream \<Rightarrow> JOutStream option" where
  "out_string str s =
     (let len = of_nat (length str) :: ushort
      in do { s \<leftarrow> out_uint16 len s; out_append (take (unat len) str) s })"

definition out_WriteBytes :: "uchar list \<Rightarrow> JOutStream \<Rightarrow> JOutStream option" where
  "out_WriteBytes bs s = out_append bs s"

definition out_Reposition :: "nat \<Rightarrow> JOutStream \<Rightarrow> JOutStream" where
  "out_Reposition pos s = s\<lparr>outIndex := pos\<rparr>"

definition out_Skip :: "nat \<Rightarrow> JOutStream \<Rightarrow> JOutStream" where
  "out_Skip len s = (let s1 = EnsureWritableBytes len s in s1\<lparr>outIndex := size_add (outIndex s1) len\<rparr>)"

definition out_Clear :: "JOutStream \<Rightarrow> JOutStream" where
  "out_Clear s = s\<lparr>outIndex := 0\<rparr>"

definition out_Length :: "JOutStream \<Rightarrow> nat" where
  "out_Length s = outIndex s"

text \<open>What the callers do with \<open>Data()\<close> and a length: the bytes from the start.\<close>

definition out_Data :: "nat \<Rightarrow> JOutStream \<Rightarrow> uchar list option" where
  "out_Data len s = (if len \<le> length (outBuffer s) then Some (take len (outBuffer s)) else None)"

section \<open>\<open>JInStream\<close>\<close>

record JInStream =
  inBuffer :: "uchar list"
  inIndex :: nat

definition SetData :: "uchar list \<Rightarrow> JInStream \<Rightarrow> JInStream" where
  "SetData bs s = s\<lparr>inIndex := 0, inBuffer := bs\<rparr>"

definition JInStream_new :: "uchar list \<Rightarrow> JInStream" where
  "JInStream_new bs = SetData bs \<lparr>inBuffer = [], inIndex = 0\<rparr>"

definition ReadableBytes :: "JInStream \<Rightarrow> nat" where
  "ReadableBytes s = size_sub (length (inBuffer s)) (inIndex s)"

text \<open>\<open>len\<close> bytes from \<open>Peek()\<close> on.\<close>

definition in_peek :: "nat \<Rightarrow> JInStream \<Rightarrow> uchar list option" where
  "in_peek len s =
     (if inIndex s + len \<le> length (inBuffer s) then Some (take len (drop (inIndex s) (inBuffer s))) else None)"

definition in_take :: "nat \<Rightarrow> JInStream \<Rightarrow> (uchar list \<times> JInStream) option" where
  "in_take len s =
     do { bs \<leftarrow> in_peek len s; Some (bs, s\<lparr>inIndex := size_add (inIndex s) len\<rparr>) }"

definition in_ReadBytes :: "nat \<Rightarrow> JInStream \<Rightarrow> (uchar list \<times> JInStream) option" where
  "in_ReadBytes len s = (if ReadableBytes s \<ge> len then in_take len s else None)"

definition in_uint8 :: "JInStream \<Rightarrow> (uchar \<times> JInStream) option" where
  "in_uint8 s =
     (if ReadableBytes s \<ge> 1 then do { (bs, s) \<leftarrow> in_take 1 s; Some (hd bs, s) } else None)"

definition in_uint16 :: "JInStream \<Rightarrow> (ushort \<times> JInStream) option" where
  "in_uint16 s =
     (if ReadableBytes s \<ge> 2
      then do { (bs, s) \<leftarrow> in_take 2 s; let be16 = load16le bs; Some (NetworkToHost16 be16, s) }
      else None)"

definition in_uint32 :: "JInStream \<Rightarrow> (word32 \<times> JInStream) option" where
  "in_uint32 s =
     (if ReadableBytes s \<ge> 4
      then do { (bs, s) \<leftarrow> in_take 4 s; let be32 = load32 bs 0; Some (NetworkToHost32 be32, s) }
      else None)"

definition in_int8 :: "JInStream \<Rightarrow> (uchar \<times> JInStream) option" where
  "in_int8 s =
     (if ReadableBytes s \<ge> 1 then do { (bs, s) \<leftarrow> in_take 1 s; Some (hd bs, s) } else None)"

definition in_int16 :: "JInStream \<Rightarrow> (ushort \<times> JInStream) option" where
  "in_int16 s =
     (if ReadableBytes s \<ge> 2
      then do { (bs, s) \<leftarrow> in_take 2 s; let be16 = load16le bs; Some (NetworkToHost16 be16, s) }
      else None)"

definition in_int32 :: "JInStream \<Rightarrow> (word32 \<times> JInStream) option" where
  "in_int32 s =
     (if ReadableBytes s \<ge> 4
      then do { (bs, s) \<leftarrow> in_take 4 s; let be32 = load32 bs 0; Some (NetworkToHost32 be32, s) }
      else None)"

definition in_string :: "JInStream \<Rightarrow> (uchar list \<times> JInStream) option" where
  "in_string s =
     do { (len, s) \<leftarrow> in_uint16 s;
          if ReadableBytes s \<ge> unat len then in_take (unat len) s else None }"

definition in_Reposition :: "nat \<Rightarrow> JInStream \<Rightarrow> JInStream" where
  "in_Reposition pos s = s\<lparr>inIndex := pos\<rparr>"

definition in_Skip :: "nat \<Rightarrow> JInStream \<Rightarrow> JInStream option" where
  "in_Skip len s = (if ReadableBytes s > len then Some (s\<lparr>inIndex := size_add (inIndex s) len\<rparr>) else None)"

section \<open>Bytes of integers\<close>

definition be16 :: "ushort \<Rightarrow> uchar list" where
  "be16 x = [ucast (drop_bit 8 x), ucast x]"

definition be32 :: "word32 \<Rightarrow> uchar list" where
  "be32 x = [ucast (drop_bit 24 x), ucast (drop_bit 16 x), ucast (drop_bit 8 x), ucast x]"

lemma length_be [simp]: "length (be16 x) = 2" "length (be32 y) = 4"
  by (simp_all add: be16_def be32_def)

lemma little_endian [simp]: "IsBigEndian = False"
  by (simp add: IsBigEndian_def store16le_def)

lemmas bits = bit_or_iff bit_and_iff bit_push_bit_iff bit_drop_bit_eq bit_unsigned_iff

lemma Swap16_shifts: "Swap16 s = push_bit 8 s OR drop_bit 8 s"
proof -
  have m: "0xff = (mask 8 :: ushort)" by (simp add: mask_eq_exp_minus_1)
  show ?thesis
    unfolding Swap16_def m by (rule bit_word_eqI) (auto simp: bits bit_mask_iff dest: bit_imp_le_length)
qed

lemma Swap32_shifts:
  "Swap32 l = drop_bit 24 l OR push_bit 8 (take_bit 8 (drop_bit 16 l)) OR push_bit 16 (take_bit 8 (drop_bit 8 l))
    OR push_bit 24 l"
proof -
  have m: "0x00ff0000 = (push_bit 16 (mask 8) :: word32)" "0x0000ff00 = (push_bit 8 (mask 8) :: word32)"
    by (simp_all add: mask_eq_exp_minus_1)
  show ?thesis
    unfolding Swap32_def m
    by (rule bit_word_eqI) (auto simp: bits bit_mask_iff bit_take_bit_iff dest: bit_imp_le_length)
qed

lemma store_host16: "store16le (HostToNetwork16 x) = be16 x"
proof -
  have "ucast (Swap16 x) = (ucast (drop_bit 8 x) :: uchar)"
    by (rule bit_word_eqI) (auto simp: Swap16_shifts bits)
  moreover have "ucast (drop_bit 8 (Swap16 x)) = (ucast x :: uchar)"
    by (rule bit_word_eqI) (auto simp: Swap16_shifts bits dest: bit_imp_le_length)
  ultimately show ?thesis by (simp add: HostToNetwork16_def store16le_def be16_def)
qed

lemma store_host32: "store32 (HostToNetwork32 x) = be32 x"
proof -
  have "ucast (Swap32 x) = (ucast (drop_bit 24 x) :: uchar)"
    by (rule bit_word_eqI) (auto simp: Swap32_shifts bits bit_take_bit_iff)
  moreover have "ucast (drop_bit 8 (Swap32 x)) = (ucast (drop_bit 16 x) :: uchar)"
    by (rule bit_word_eqI) (auto simp: Swap32_shifts bits bit_take_bit_iff dest: bit_imp_le_length)
  moreover have "ucast (drop_bit 16 (Swap32 x)) = (ucast (drop_bit 8 x) :: uchar)"
    by (rule bit_word_eqI) (auto simp: Swap32_shifts bits bit_take_bit_iff dest: bit_imp_le_length)
  moreover have "ucast (drop_bit 24 (Swap32 x)) = (ucast x :: uchar)"
    by (rule bit_word_eqI) (auto simp: Swap32_shifts bits bit_take_bit_iff dest: bit_imp_le_length)
  ultimately show ?thesis by (simp add: HostToNetwork32_def store32_def be32_def)
qed

lemma Swap16_Swap16 [simp]: "Swap16 (Swap16 x) = x"
  by (rule bit_word_eqI) (auto simp: Swap16_shifts bits dest: bit_imp_le_length)

lemma Swap32_Swap32 [simp]: "Swap32 (Swap32 x) = x"
proof (rule bit_word_eqI)
  fix n
  assume n: "n < LENGTH(32)"
  consider "n < 8" | "8 \<le> n" "n < 16" | "16 \<le> n" "n < 24" | "24 \<le> n" by linarith
  then show "bit (Swap32 (Swap32 x)) n = bit x n"
    using n by cases (auto simp: Swap32_shifts bits bit_take_bit_iff dest: bit_imp_le_length)
qed

lemma load_store16 [simp]: "load16le (store16le x) = x"
  by (rule bit_word_eqI) (auto simp: load16le_def store16le_def bits dest: bit_imp_le_length)

lemma load_store32 [simp]: "load32 (store32 x) 0 = x"
proof (rule bit_word_eqI)
  fix n
  assume n: "n < LENGTH(32)"
  consider "n < 8" | "8 \<le> n" "n < 16" | "16 \<le> n" "n < 24" | "24 \<le> n" by linarith
  then show "bit (load32 (store32 x) 0) n = bit x n"
    using n by cases (auto simp: load32_def store32_def bits dest: bit_imp_le_length)
qed

lemma read_host16: "NetworkToHost16 (load16le (be16 x)) = x"
  by (simp add: NetworkToHost16_def flip: store_host16) (simp add: HostToNetwork16_def)

lemma read_host32: "NetworkToHost32 (load32 (be32 x) 0) = x"
  by (simp add: NetworkToHost32_def flip: store_host32) (simp add: HostToNetwork32_def)

section \<open>Streams by what they hold\<close>

text \<open>An output stream whose bytes up to the index are \<open>c\<close>, with \<open>z\<close> behind it; an input stream that has consumed
  \<open>p\<close> and has \<open>r\<close> left.\<close>

definition out_of :: "uchar list \<Rightarrow> uchar list \<Rightarrow> JOutStream" where
  "out_of c z = \<lparr>outBuffer = c @ z, outIndex = length c\<rparr>"

definition in_of :: "uchar list \<Rightarrow> uchar list \<Rightarrow> JInStream" where
  "in_of p r = \<lparr>inBuffer = p @ r, inIndex = length p\<rparr>"

named_theorems stream_simps \<open>running the stream operations\<close>

lemma out_new: "JOutStream_new = out_of [] (replicate kInitialSize 0)"
  by (simp add: JOutStream_new_def out_of_def)

lemma out_ensure:
  "length c + length z + n < 2 ^ 63 \<Longrightarrow>
   EnsureWritableBytes n (out_of c z) = out_of c (if length z < n then z @ replicate (n - length z) 0 else z)"
  by (simp add: EnsureWritableBytes_def WriteableBytes_def out_of_def size_arith vec_resize_def)

lemma out_append_of [stream_simps]:
  "length c + length z + length bs < 2 ^ 63 \<Longrightarrow> out_append bs (out_of c z) = Some (out_of (c @ bs) (drop (length bs) z))"
  unfolding out_append_def Let_def
  by (subst (1 2 3) out_ensure) (auto simp: out_of_def copy_to_def size_arith)

lemma out_Skip_of [stream_simps]:
  "length c + length z + n < 2 ^ 63 \<Longrightarrow>
   out_Skip n (out_of c z) = out_of (c @ take n z @ replicate (n - length z) 0) (drop n z)"
  unfolding out_Skip_def Let_def by (subst (1 2) out_ensure) (auto simp: out_of_def size_arith)

lemma out_Length_of [stream_simps]: "out_Length (out_of c z) = length c"
  by (simp add: out_Length_def out_of_def)

lemma out_Data_of [stream_simps]: "n = length c \<Longrightarrow> out_Data n (out_of c z) = Some c"
  by (simp add: out_Data_def out_of_def)

text \<open>Writing over bytes already written: the length field is filled in last.\<close>

lemma out_Reposition_of: "k \<le> length c \<Longrightarrow> out_Reposition k (out_of c z) = out_of (take k c) (drop k c @ z)"
  by (simp add: out_Reposition_def out_of_def)

lemma out_Reposition_end:
  "length c + n \<le> length (c @ z) \<Longrightarrow> m = length c + n \<Longrightarrow> out_Reposition m (out_of c z) = out_of (c @ take n z) (drop n z)"
  by (simp add: out_Reposition_def out_of_def)

lemma out_ops [stream_simps]:
  "out_uint8 a s = out_append [a] s" "out_uint16 x s = out_append (be16 x) s" "out_uint32 y s = out_append (be32 y) s"
  "out_int8 a s = out_append [a] s" "out_int16 x s = out_append (be16 x) s" "out_int32 y s = out_append (be32 y) s"
  "out_WriteBytes bs s = out_append bs s"
  by (simp_all add: out_uint8_def out_uint16_def out_uint32_def out_int8_def out_int16_def out_int32_def
      out_WriteBytes_def store_host16 store_host32)

text \<open>A string and what its length field announces.\<close>

definition str_bytes :: "uchar list \<Rightarrow> uchar list" where
  "str_bytes str = be16 (of_nat (length str)) @ take (length str mod 2 ^ 16) str"

lemma unat_len16: "unat (of_nat n :: ushort) = n mod 2 ^ 16"
  unfolding unat_of_nat by simp

lemma out_string_of [stream_simps]:
  "length c + length z + length str + 2 < 2 ^ 63 \<Longrightarrow>
   out_string str (out_of c z) = Some (out_of (c @ str_bytes str) (drop (length (str_bytes str)) z))"
  by (simp add: out_string_def Let_def stream_simps str_bytes_def unat_len16 min_def)

lemma length_str_bytes: "length (str_bytes str) = 2 + length str mod 65536"
  by (simp add: str_bytes_def min_def)

lemma in_new [stream_simps]: "JInStream_new bs = in_of [] bs"
  by (simp add: JInStream_new_def SetData_def in_of_def)

lemma in_SetData [stream_simps]: "SetData bs s = in_of [] bs"
  by (simp add: SetData_def in_of_def)

lemma readable_of: "length p + length r < 2 ^ 63 \<Longrightarrow> ReadableBytes (in_of p r) = length r"
  by (simp add: ReadableBytes_def in_of_def size_arith)

lemma in_take_of:
  "length p + length r < 2 ^ 63 \<Longrightarrow> n \<le> length r \<Longrightarrow>
   in_take n (in_of p r) = Some (take n r, in_of (p @ take n r) (drop n r))"
  by (simp add: in_take_def in_peek_def in_of_def size_arith)

lemma in_ReadBytes_of:
  "length p + length r < 2 ^ 63 \<Longrightarrow>
   in_ReadBytes n (in_of p r) = (if n \<le> length r then Some (take n r, in_of (p @ take n r) (drop n r)) else None)"
  by (simp add: in_ReadBytes_def readable_of in_take_of)

lemma in_bytes [stream_simps]:
  "length p + length bs + length r < 2 ^ 63 \<Longrightarrow> n = length bs \<Longrightarrow>
   in_ReadBytes n (in_of p (bs @ r)) = Some (bs, in_of (p @ bs) r)"
  by (simp add: in_ReadBytes_of)

lemma in_Skip_of:
  "length p + length r < 2 ^ 63 \<Longrightarrow>
   in_Skip n (in_of p r) = (if n < length r then Some (in_of (p @ take n r) (drop n r)) else None)"
  by (simp add: in_Skip_def readable_of) (simp add: in_of_def size_arith)

lemma in_uint16_of [stream_simps]:
  assumes "length p + length r + 2 < 2 ^ 63"
  shows "in_uint16 (in_of p (be16 x @ r)) = Some (x, in_of (p @ be16 x) r)"
    and "in_int16 (in_of p (be16 x @ r)) = Some (x, in_of (p @ be16 x) r)"
  using assms by (simp_all add: in_uint16_def in_int16_def readable_of in_take_of read_host16)

lemma in_uint32_of [stream_simps]:
  assumes "length p + length r + 4 < 2 ^ 63"
  shows "in_uint32 (in_of p (be32 y @ r)) = Some (y, in_of (p @ be32 y) r)"
    and "in_int32 (in_of p (be32 y @ r)) = Some (y, in_of (p @ be32 y) r)"
  using assms by (simp_all add: in_uint32_def in_int32_def readable_of in_take_of read_host32)

lemma in_uint8_of [stream_simps]:
  assumes "length p + length r + 1 < 2 ^ 63"
  shows "in_uint8 (in_of p (a # r)) = Some (a, in_of (p @ [a]) r)"
    and "in_int8 (in_of p (a # r)) = Some (a, in_of (p @ [a]) r)"
  using assms by (simp_all add: in_uint8_def in_int8_def readable_of in_take_of)

lemma in_string_of [stream_simps]:
  assumes "length p + length (str_bytes str) + length r < 2 ^ 63"
  shows "in_string (in_of p (str_bytes str @ r)) = Some (take (length str mod 2 ^ 16) str, in_of (p @ str_bytes str) r)"
  using assms by (simp add: in_string_def str_bytes_def stream_simps readable_of in_take_of unat_len16 min_def)

section \<open>Sequences of values\<close>

datatype jvalue = U8 uchar | U16 ushort | U32 word32 | I8 uchar | I16 ushort | I32 word32 | Str "uchar list" | Raw "uchar list"

datatype jtype = TU8 | TU16 | TU32 | TI8 | TI16 | TI32 | TStr | TRaw nat

fun jtype_of :: "jvalue \<Rightarrow> jtype" where
  "jtype_of (U8 _) = TU8"
| "jtype_of (U16 _) = TU16"
| "jtype_of (U32 _) = TU32"
| "jtype_of (I8 _) = TI8"
| "jtype_of (I16 _) = TI16"
| "jtype_of (I32 _) = TI32"
| "jtype_of (Str _) = TStr"
| "jtype_of (Raw bs) = TRaw (length bs)"

fun out_value :: "jvalue \<Rightarrow> JOutStream \<Rightarrow> JOutStream option" where
  "out_value (U8 x) s = out_uint8 x s"
| "out_value (U16 x) s = out_uint16 x s"
| "out_value (U32 x) s = out_uint32 x s"
| "out_value (I8 x) s = out_int8 x s"
| "out_value (I16 x) s = out_int16 x s"
| "out_value (I32 x) s = out_int32 x s"
| "out_value (Str str) s = out_string str s"
| "out_value (Raw bs) s = out_WriteBytes bs s"

fun in_value :: "jtype \<Rightarrow> JInStream \<Rightarrow> (jvalue \<times> JInStream) option" where
  "in_value TU8 s = do { (x, s) \<leftarrow> in_uint8 s; Some (U8 x, s) }"
| "in_value TU16 s = do { (x, s) \<leftarrow> in_uint16 s; Some (U16 x, s) }"
| "in_value TU32 s = do { (x, s) \<leftarrow> in_uint32 s; Some (U32 x, s) }"
| "in_value TI8 s = do { (x, s) \<leftarrow> in_int8 s; Some (I8 x, s) }"
| "in_value TI16 s = do { (x, s) \<leftarrow> in_int16 s; Some (I16 x, s) }"
| "in_value TI32 s = do { (x, s) \<leftarrow> in_int32 s; Some (I32 x, s) }"
| "in_value TStr s = do { (x, s) \<leftarrow> in_string s; Some (Str x, s) }"
| "in_value (TRaw n) s = do { (x, s) \<leftarrow> in_ReadBytes n s; Some (Raw x, s) }"

fun out_values :: "jvalue list \<Rightarrow> JOutStream \<Rightarrow> JOutStream option" where
  "out_values [] s = Some s"
| "out_values (v # vs) s = do { s \<leftarrow> out_value v s; out_values vs s }"

fun in_values :: "jtype list \<Rightarrow> JInStream \<Rightarrow> (jvalue list \<times> JInStream) option" where
  "in_values [] s = Some ([], s)"
| "in_values (t # ts) s = do { (v, s) \<leftarrow> in_value t s; (vs, s) \<leftarrow> in_values ts s; Some (v # vs, s) }"

fun value_bytes :: "jvalue \<Rightarrow> uchar list" where
  "value_bytes (U8 x) = [x]"
| "value_bytes (U16 x) = be16 x"
| "value_bytes (U32 x) = be32 x"
| "value_bytes (I8 x) = [x]"
| "value_bytes (I16 x) = be16 x"
| "value_bytes (I32 x) = be32 x"
| "value_bytes (Str str) = str_bytes str"
| "value_bytes (Raw bs) = bs"

text \<open>What comes back: a string loses what its 16-bit length does not announce.\<close>

fun received :: "jvalue \<Rightarrow> jvalue" where
  "received (Str str) = Str (take (length str mod 2 ^ 16) str)"
| "received v = v"

fun value_room :: "jvalue \<Rightarrow> nat" where
  "value_room (Str str) = length str + 2"
| "value_room v = length (value_bytes v)"

lemma value_room_bytes: "length (value_bytes v) \<le> value_room v"
  by (cases v) (simp_all add: length_str_bytes)

lemma out_value_of:
  "length c + length z + value_room v < 2 ^ 63 \<Longrightarrow>
   out_value v (out_of c z) = Some (out_of (c @ value_bytes v) (drop (length (value_bytes v)) z))"
  by (cases v) (simp_all add: stream_simps)

lemma out_values_of:
  "length c + length z + sum_list (map value_room vs) < 2 ^ 63 \<Longrightarrow>
   out_values vs (out_of c z) =
     Some (out_of (c @ concat (map value_bytes vs)) (drop (length (concat (map value_bytes vs))) z))"
proof (induction vs arbitrary: c z)
  case (Cons v vs)
  then show ?case
    using value_room_bytes [of v] by (simp add: out_value_of add.commute)
qed simp

lemma in_value_of:
  "length p + length (value_bytes v) + length r < 2 ^ 63 \<Longrightarrow>
   in_value (jtype_of v) (in_of p (value_bytes v @ r)) = Some (received v, in_of (p @ value_bytes v) r)"
  by (cases v) (simp_all add: stream_simps)

lemma in_values_of:
  "length p + length (concat (map value_bytes vs)) + length r < 2 ^ 63 \<Longrightarrow>
   in_values (map jtype_of vs) (in_of p (concat (map value_bytes vs) @ r)) =
     Some (map received vs, in_of (p @ concat (map value_bytes vs)) r)"
proof (induction vs arbitrary: p)
  case (Cons v vs)
  then show ?case by (simp add: in_value_of)
qed simp

lemma length_values: "length (concat (map value_bytes vs)) \<le> sum_list (map value_room vs)"
  by (induction vs) (auto intro: add_mono value_room_bytes)

text \<open>C16: values of all types written to a \<open>JOutStream\<close> one after the other are read back in that order from a
  \<open>JInStream\<close> over its data, with the types they were written with: integers unchanged, strings cut to their
  length modulo 65536, which is all the 16-bit length field announces, and the stream in step in any case.\<close>

theorem jstream_roundtrip:
  assumes "sum_list (map value_room vs) < 2 ^ 62"
  shows "\<exists>s bs js. out_values vs JOutStream_new = Some s \<and> out_Data (out_Length s) s = Some bs \<and>
    in_values (map jtype_of vs) (JInStream_new bs) = Some (map received vs, js) \<and> ReadableBytes js = 0"
proof -
  let ?bs = "concat (map value_bytes vs)" and ?z = "replicate kInitialSize 0 :: uchar list"
  have len: "length ?bs < 2 ^ 62" using length_values [of vs] assms by linarith
  have "out_values vs JOutStream_new = Some (out_of ?bs (drop (length ?bs) ?z))"
    using out_values_of [of "[]" ?z vs] assms by (simp add: out_new kInitialSize_def)
  moreover have "in_values (map jtype_of vs) (JInStream_new ?bs) = Some (map received vs, in_of ?bs [])"
    using in_values_of [of "[]" vs "[]"] len by (simp add: in_new)
  ultimately show ?thesis
    using len by (simp add: out_Data_of out_Length_of readable_of)
qed

theorem jstream_roundtrip_witness:
  "let vs = [U16 0x1234, Str [65, 66, 67], I32 (- 5), Raw [1, 2], Str []]
   in \<exists>s bs js. out_values vs JOutStream_new = Some s \<and> out_Data (out_Length s) s = Some bs \<and>
    in_values (map jtype_of vs) (JInStream_new bs) = Some (map received vs, js) \<and> ReadableBytes js = 0"
  unfolding Let_def by (rule jstream_roundtrip) simp



end
