(* ===== verification/Bank_Idea.thy ===== *)
theory Bank_Idea
  imports Bank_Prelude
begin

unbundle bit_operations_syntax

text \<open>
  The IDEA cipher of the bank example (\<open>src/49/ABCBank/Public/Idea.h\<close>, \<open>Idea.cpp\<close>): the multiplicative inverse,
  the key schedules, the block cipher and the cipher feedback mode that encrypts passwords.

  \<open>unsigned char\<close>, \<open>unsigned short\<close> and \<open>word32\<close> are words of 8, 16 and 32 bits. A division by zero, which the
  code could only meet outside the argument range it is used with, is \<open>None\<close>. The host is little-endian.
\<close>

section \<open>Arithmetic modulo 65537\<close>

text \<open>The macro \<open>MUL\<close>: the product modulo \<open>2^16 + 1\<close>, where \<open>0\<close> stands for \<open>2^16\<close>.\<close>

definition MUL :: "ushort \<Rightarrow> ushort \<Rightarrow> ushort" where
  "MUL x y =
     (if y \<noteq> 0
      then if x \<noteq> 0
           then let t32 = (ucast x * ucast y :: word32);
                    lo = ucast t32 :: ushort;
                    hi = ucast (drop_bit 16 t32) :: ushort
                in (lo - hi) + (if lo < hi then 1 else 0)
           else 1 - y
      else 1 - x)"

text \<open>The loop of \<open>MulInv\<close>; the state is \<open>x\<close>, \<open>y\<close>, \<open>t0\<close>, \<open>t1\<close>.\<close>

lemma umod_less: "y \<noteq> 0 \<Longrightarrow> unat (x mod y) < unat (y :: 'a::len word)"
  by (simp add: unat_mod unat_gt_0)

function MulInv_loop :: "ushort \<Rightarrow> ushort \<Rightarrow> ushort \<Rightarrow> ushort \<Rightarrow> ushort option" where
  "MulInv_loop x y t0 t1 =
     (if y = 0 then None
      else let q = x div y;
               x' = x mod y;
               t0' = t0 + q * t1
           in if x' = 1 then Some t0'
              else if x' = 0 then None
              else let q' = y div x';
                       y' = y mod x';
                       t1' = t1 + q' * t0'
                   in if y' \<noteq> 1 then MulInv_loop x' y' t0' t1' else Some (1 - t1'))"
  by auto
termination
proof (relation "measure (\<lambda>(x, y, t0, t1). unat y)", goal_cases)
  case (2 x y t0 t1 q x' t0' q' y' t1')
  then have "unat (x mod y) < unat y" "unat (y mod (x mod y)) < unat (x mod y)"
    by (auto intro: umod_less)
  with 2 show ?case by simp
qed simp

declare MulInv_loop.simps [simp del]

text \<open>\<open>0x10001L\<close> is a \<open>long\<close>: quotient and remainder are taken at 32 bits.\<close>

definition MulInv :: "ushort \<Rightarrow> ushort option" where
  "MulInv x =
     (if x \<le> 1 then Some x
      else let t1 = ucast ((0x10001 :: word32) div ucast x) :: ushort;
               y = ucast ((0x10001 :: word32) mod ucast x) :: ushort
           in if y = 1 then Some (1 - t1)
              else MulInv_loop x y 1 t1)"

section \<open>Key schedules\<close>

definition IDEAROUNDS :: nat where
  "IDEAROUNDS = 8"

definition IDEAKEYLEN :: nat where
  "IDEAKEYLEN = 6 * IDEAROUNDS + 4"

text \<open>One turn of the second loop of \<open>IdeaExpandKey\<close>; the state is \<open>i\<close>, the offset of the moving pointer \<open>EK\<close>,
  and the array.\<close>

definition expand_step :: "nat \<times> nat \<times> ushort list \<Rightarrow> nat \<times> nat \<times> ushort list" where
  "expand_step s =
     (case s of (i, base, EK) \<Rightarrow>
        let i1 = i + 1;
            v = push_bit 9 (EK ! (base + (i1 AND 7))) OR drop_bit 7 (EK ! (base + (i1 + 1 AND 7)));
            EK1 = EK[base + i1 + 7 := v]
        in (i1 AND 7, base + (i1 AND 8), EK1))"

definition IdeaExpandKey :: "uchar list \<Rightarrow> ushort list" where
  "IdeaExpandKey userkey =
     (let EK0 = map (\<lambda>j. push_bit 8 (ucast (userkey ! (2 * j))) + ucast (userkey ! (2 * j + 1))) [0..<8]
            @ replicate (IDEAKEYLEN - 8) 0
      in snd (snd (fold (\<lambda>j. expand_step) [8..<IDEAKEYLEN] (0, 0, EK0))))"

text \<open>\<open>IdeaInvertKey\<close> fills \<open>temp\<close> from its end: each \<open>*--p\<close> puts a word in front.\<close>

fun invert_loop :: "nat \<Rightarrow> ushort list \<Rightarrow> ushort list \<Rightarrow> (ushort list \<times> ushort list) option" where
  "invert_loop 0 EK p = Some (EK, p)"
| "invert_loop (Suc n) EK p =
     do { let p1 = EK ! 0 # EK ! 1 # p;
          t1 \<leftarrow> MulInv (EK ! 2);
          let t2 = - (EK ! 3);
          let t3 = - (EK ! 4);
          t4 \<leftarrow> MulInv (EK ! 5);
          invert_loop n (drop 6 EK) (t1 # t3 # t2 # t4 # p1) }"

definition IdeaInvertKey :: "ushort list \<Rightarrow> ushort list option" where
  "IdeaInvertKey EK =
     do { t1 \<leftarrow> MulInv (EK ! 0);
          t4 \<leftarrow> MulInv (EK ! 3);
          (EK1, p) \<leftarrow> invert_loop (IDEAROUNDS - 1) (drop 4 EK) [t1, - (EK ! 1), - (EK ! 2), t4];
          let p1 = EK1 ! 0 # EK1 ! 1 # p;
          t1' \<leftarrow> MulInv (EK1 ! 2);
          t4' \<leftarrow> MulInv (EK1 ! 5);
          Some (t1' # - (EK1 ! 3) # - (EK1 ! 4) # t4' # p1) }"

section \<open>The block cipher\<close>

type_synonym block = "ushort \<times> ushort \<times> ushort \<times> ushort"

text \<open>One turn of the \<open>do\<close> loop of \<open>IdeaCipher\<close>.\<close>

definition idea_round :: "ushort list \<Rightarrow> block \<Rightarrow> block" where
  "idea_round key b =
     (case b of (x1, x2, x3, x4) \<Rightarrow>
        let x1 = MUL x1 (key ! 0);
            x2 = x2 + key ! 1;
            x3 = x3 + key ! 2;
            x4 = MUL x4 (key ! 3);
            s3 = x3;
            x3 = x3 XOR x1;
            x3 = MUL x3 (key ! 4);
            s2 = x2;
            x2 = x2 XOR x4;
            x2 = x2 + x3;
            x2 = MUL x2 (key ! 5);
            x3 = x3 + x2;
            x1 = x1 XOR x2;
            x4 = x4 XOR x3;
            x2 = x2 XOR s3;
            x3 = x3 XOR s2
        in (x1, x2, x3, x4))"

fun idea_rounds :: "nat \<Rightarrow> ushort list \<Rightarrow> block \<Rightarrow> ushort list \<times> block" where
  "idea_rounds 0 key b = (key, b)"
| "idea_rounds (Suc r) key b = idea_rounds r (drop 6 key) (idea_round key b)"

text \<open>The words of the block before and after the byte swaps; the result is in the order it is stored.\<close>

definition idea_words :: "ushort list \<Rightarrow> block \<Rightarrow> block" where
  "idea_words key b =
     (case idea_rounds IDEAROUNDS key b of (key', x1, x2, x3, x4) \<Rightarrow>
        (MUL x1 (key' ! 0), x3 + key' ! 1, x2 + key' ! 2, MUL x4 (key' ! 3)))"

definition load16 :: "uchar list \<Rightarrow> nat \<Rightarrow> ushort" where
  "load16 buf i = ucast (buf ! (2 * i)) OR push_bit 8 (ucast (buf ! (2 * i + 1)))"

definition swap16 :: "ushort \<Rightarrow> ushort" where
  "swap16 x = drop_bit 8 x OR push_bit 8 x"

definition store16 :: "ushort \<Rightarrow> uchar list" where
  "store16 x = [ucast x, ucast (drop_bit 8 x)]"

definition IdeaCipher :: "uchar list \<Rightarrow> ushort list \<Rightarrow> uchar list" where
  "IdeaCipher inbuf key =
     (case idea_words key (swap16 (load16 inbuf 0), swap16 (load16 inbuf 1), swap16 (load16 inbuf 2),
         swap16 (load16 inbuf 3)) of
        (y1, y2, y3, y4) \<Rightarrow>
          store16 (swap16 y1) @ store16 (swap16 y2) @ store16 (swap16 y3) @ store16 (swap16 y4))"

section \<open>Cipher feedback\<close>

record IdeaCfbContext =
  oldcipher :: "uchar list"
  iv :: "uchar list"
  cfbKey :: "ushort list"
  bufleft :: nat

definition IdeaCfbReinit :: "uchar list option \<Rightarrow> IdeaCfbContext \<Rightarrow> IdeaCfbContext" where
  "IdeaCfbReinit ivec ctx =
     ctx\<lparr>iv := (case ivec of Some v \<Rightarrow> take 8 v | None \<Rightarrow> replicate 8 0), bufleft := 0\<rparr>"

definition IdeaCfbInit :: "uchar list \<Rightarrow> IdeaCfbContext \<Rightarrow> IdeaCfbContext" where
  "IdeaCfbInit key ctx = IdeaCfbReinit None (ctx\<lparr>cfbKey := IdeaExpandKey key\<rparr>)"

definition IdeaCfbSync :: "IdeaCfbContext \<Rightarrow> IdeaCfbContext" where
  "IdeaCfbSync ctx =
     (let left = bufleft ctx
      in if left \<noteq> 0
         then ctx\<lparr>iv := drop (8 - left) (oldcipher ctx) @ take (8 - left) (iv ctx), bufleft := 0\<rparr>
         else ctx)"

text \<open>The inner loops: \<open>*dest++ = (*bufptr++ ^= *src++)\<close> and \<open>t = *bufptr; *dest++ = t ^ (*bufptr++ = *src++)\<close>,
  with \<open>bufptr\<close> as an index into \<open>iv\<close>.\<close>

fun xor_out :: "nat \<Rightarrow> uchar list \<Rightarrow> uchar list \<Rightarrow> uchar list \<times> uchar list" where
  "xor_out p [] v = ([], v)"
| "xor_out p (x # src) v =
     (let c = v ! p XOR x; (dest, v') = xor_out (p + 1) src (v[p := c]) in (c # dest, v'))"

fun xor_in :: "nat \<Rightarrow> uchar list \<Rightarrow> uchar list \<Rightarrow> uchar list \<times> uchar list" where
  "xor_in p [] v = ([], v)"
| "xor_in p (x # src) v =
     (let t = v ! p; (dest, v') = xor_in (p + 1) src (v[p := x]) in ((t XOR x) # dest, v'))"

text \<open>\<open>IdeaCfbEncrypt\<close> and \<open>IdeaCfbDecrypt\<close> differ in the inner loop only, \<open>step\<close>.\<close>

definition crank :: "IdeaCfbContext \<Rightarrow> IdeaCfbContext" where
  "crank ctx = ctx\<lparr>oldcipher := iv ctx, iv := IdeaCipher (iv ctx) (cfbKey ctx)\<rparr>"

function cfb_blocks :: "(nat \<Rightarrow> uchar list \<Rightarrow> uchar list \<Rightarrow> uchar list \<times> uchar list) \<Rightarrow> IdeaCfbContext \<Rightarrow>
    uchar list \<Rightarrow> uchar list \<times> IdeaCfbContext" where
  "cfb_blocks step ctx src =
     (if length src > 8
      then let ctx1 = crank ctx;
               (d, v) = step 0 (take 8 src) (iv ctx1);
               (dest, ctx2) = cfb_blocks step (ctx1\<lparr>iv := v\<rparr>) (drop 8 src)
           in (d @ dest, ctx2)
      else let ctx1 = crank ctx;
               (d, v) = step 0 src (iv ctx1)
           in (d, ctx1\<lparr>iv := v, bufleft := 8 - length src\<rparr>))"
  by auto
termination by (relation "measure (\<lambda>(step, ctx, src). length src)") auto

declare cfb_blocks.simps [simp del]

definition cfb_crypt :: "(nat \<Rightarrow> uchar list \<Rightarrow> uchar list \<Rightarrow> uchar list \<times> uchar list) \<Rightarrow> IdeaCfbContext \<Rightarrow>
    uchar list \<Rightarrow> uchar list \<times> IdeaCfbContext" where
  "cfb_crypt step ctx src =
     (let left = bufleft ctx; p = 8 - left
      in if length src \<le> left
         then let (d, v) = step p src (iv ctx) in (d, ctx\<lparr>iv := v, bufleft := left - length src\<rparr>)
         else let (d, v) = step p (take left src) (iv ctx);
                  (dest, ctx1) = cfb_blocks step (ctx\<lparr>iv := v\<rparr>) (drop left src)
              in (d @ dest, ctx1))"

definition IdeaCfbEncrypt :: "IdeaCfbContext \<Rightarrow> uchar list \<Rightarrow> uchar list \<times> IdeaCfbContext" where
  "IdeaCfbEncrypt = cfb_crypt xor_out"

definition IdeaCfbDecrypt :: "IdeaCfbContext \<Rightarrow> uchar list \<Rightarrow> uchar list \<times> IdeaCfbContext" where
  "IdeaCfbDecrypt = cfb_crypt xor_in"

definition Crypt :: "uchar list \<Rightarrow> uchar list \<Rightarrow> bool \<Rightarrow> IdeaCfbContext \<Rightarrow> uchar list \<times> IdeaCfbContext" where
  "Crypt key src encrypt cfb =
     (let cfb1 = IdeaCfbSync (IdeaCfbInit key cfb)
      in if encrypt then IdeaCfbEncrypt cfb1 src else IdeaCfbDecrypt cfb1 src)"

section \<open>The multiplicative group\<close>

text \<open>The number a word stands for.\<close>

definition val :: "ushort \<Rightarrow> int" where
  "val x = (if x = 0 then 65536 else uint x)"

lemma uint_less16: "uint (x :: ushort) < 65536" "0 \<le> uint x"
  using uint_lt2p [of x] by simp_all

lemma uint_pos: "x \<noteq> 0 \<Longrightarrow> 0 < uint (x :: ushort)"
  using uint_less16(2) [of x] uint_0_iff [of x] by linarith

lemma val_range: "0 < val x" "val x \<le> 65536"
  using uint_less16 [of x] uint_pos [of x] by (auto simp: val_def)

lemma val_inj: "val x = val y \<Longrightarrow> x = y"
  using uint_less16 [of x] uint_less16 [of y]
  by (auto simp: val_def split: if_splits dest: unsigned_word_eqI)

lemma val_mod_inj: "val x mod 65537 = val y mod 65537 \<Longrightarrow> x = y"
  using val_range [of x] val_range [of y] by (intro val_inj) simp

lemma no_small_divisor: "2 \<le> d \<Longrightarrow> d < 257 \<Longrightarrow> \<not> d dvd (65537 :: nat)"
proof -
  assume "2 \<le> d" "d < 257"
  then have "d \<in> set [2..<257]" by (simp only: set_upt atLeastLessThan_iff)
  moreover have "\<forall>d \<in> set [2..<257]. (65537 :: nat) mod d \<noteq> 0" by (simp add: upt_rec)
  ultimately show ?thesis by (metis dvd_eq_mod_eq_0)
qed

lemma prime_65537:
  fixes d :: nat
  assumes "d dvd 65537" "1 < d" "d < 65537"
  shows False
proof -
  obtain k where k: "65537 = d * k" using assms(1) by (rule dvdE)
  have k1: "1 < k" using k assms(3) by (cases "k = 0 \<or> k = 1") auto
  have "d < 257 \<or> k < 257"
  proof (rule ccontr)
    assume "\<not> ?thesis"
    then have "257 * 257 \<le> d * k" by (intro mult_le_mono) auto
    with k show False by simp
  qed
  then show False
  proof
    assume "d < 257"
    then show False using no_small_divisor [of d] assms(1,2) by simp
  next
    assume "k < 257"
    moreover have "k dvd 65537" using k by (metis dvd_triv_right)
    ultimately show False using no_small_divisor [of k] k1 by simp
  qed
qed

lemma coprime_65537:
  assumes "0 < a" "a < (65537 :: int)"
  shows "coprime a 65537"
proof (rule ccontr)
  let ?g = "gcd (nat a) 65537"
  assume "\<not> coprime a 65537"
  then have "\<not> coprime (nat a) 65537" using assms by (metis coprime_int_iff int_nat_eq less_imp_le of_nat_numeral)
  then have "?g \<noteq> 1" by (simp add: coprime_iff_gcd_eq_1)
  moreover have "?g \<noteq> 0" by simp
  moreover have "?g \<le> nat a" using assms by (intro dvd_imp_le) auto
  ultimately have "1 < ?g" "?g < 65537" using assms by linarith+
  then show False using prime_65537 [of ?g] by simp
qed

lemma mult_mod_nonzero: "a * b mod 65537 \<noteq> 0" if "0 < a" "a < 65537" "0 < b" "b < (65537 :: int)"
proof
  assume "a * b mod 65537 = 0"
  then have "65537 dvd a * b" by presburger
  then have "65537 dvd b" using coprime_65537 [OF that(1,2)] by (simp add: coprime_commute coprime_dvd_mult_right_iff)
  with that(3,4) show False using zdvd_imp_le by fastforce
qed

lemma mod_65536_shift: "(z + 1) mod 65536 = (z + 65537) mod (65536 :: int)"
  using mod_add_self2 [of "z + 1" 65536] by (simp add: add.assoc)

lemma MUL_words:
  assumes "x \<noteq> 0" "y \<noteq> 0"
  defines "t \<equiv> uint x * uint y"
  shows "val (MUL x y) = t mod 65537"
proof -
  have x: "0 < uint x" "uint x < 65536" and y: "0 < uint y" "uint y < 65536"
    using uint_less16 uint_pos assms(1,2) by simp_all
  have "t \<le> 65535 * 65535" unfolding t_def using x y by (intro mult_mono) auto
  then have t: "0 < t" "t < 2 ^ 32" using x y by (simp_all add: t_def)
  let ?t32 = "ucast x * ucast y :: word32"
  have t32: "uint ?t32 = t"
    using t by (simp add: uint_word_ariths unsigned_ucast_eq t_def take_bit_eq_mod mod_simps)
  let ?lo = "ucast ?t32 :: ushort" and ?hi = "ucast (drop_bit 16 ?t32) :: ushort"
  have lo: "uint ?lo = t mod 65536" using t32 by (simp add: unsigned_ucast_eq take_bit_eq_mod)
  have "uint (drop_bit 16 ?t32) = t div 65536"
    using t t32 by (simp add: drop_bit_eq_div uint_div_distrib)
  then have hi: "uint ?hi = t div 65536"
    using t by (simp add: unsigned_ucast_eq take_bit_eq_mod)
  have split: "t = 65536 * uint ?hi + uint ?lo" using lo hi by simp
  have ne: "t mod 65537 \<noteq> 0" unfolding t_def using x y by (intro mult_mod_nonzero) auto
  have b: "0 \<le> uint ?lo" "uint ?lo < 65536" "0 \<le> uint ?hi" "uint ?hi < 65536" using uint_less16 by auto
  show ?thesis
  proof (cases "?lo < ?hi")
    case True
    then have l: "uint ?lo < uint ?hi" by (simp add: word_less_def)
    have "t = (uint ?lo - uint ?hi + 65537) + 65537 * (uint ?hi - 1)" using split by (simp add: algebra_simps)
    then have "t mod 65537 = (uint ?lo - uint ?hi + 65537) mod 65537" by (metis mod_mult_self2)
    moreover have "(uint ?lo - uint ?hi + 65537) mod 65537 = uint ?lo - uint ?hi + 65537"
      by (rule mod_pos_pos_trivial) (use b l in linarith)+
    ultimately have m: "t mod 65537 = uint ?lo - uint ?hi + 65537" by simp
    have "uint (MUL x y) = (uint ?lo - uint ?hi + 1) mod 65536"
      using True assms(1,2) by (simp add: MUL_def Let_def uint_word_ariths mod_simps)
    also have "\<dots> = (uint ?lo - uint ?hi + 65537) mod 65536" by (rule mod_65536_shift)
    finally have u: "uint (MUL x y) = (t mod 65537) mod 65536" using m by simp
    show ?thesis
    proof (cases "t mod 65537 = 65536")
      case True
      with u have "MUL x y = 0" by (simp add: uint_0_iff)
      with True show ?thesis by (simp add: val_def)
    next
      case False
      then have "t mod 65537 < 65536" "0 < t mod 65537" using m b l by linarith+
      with u show ?thesis by (auto simp: val_def)
    qed
  next
    case False
    then have l: "uint ?hi \<le> uint ?lo" by (simp add: word_less_def)
    have "t = (uint ?lo - uint ?hi) + 65537 * uint ?hi" using split by (simp add: algebra_simps)
    then have "t mod 65537 = (uint ?lo - uint ?hi) mod 65537" by (metis mod_mult_self2)
    then have m: "t mod 65537 = uint ?lo - uint ?hi" using b l by simp
    have "uint (MUL x y) = (uint ?lo - uint ?hi) mod 65536"
      using False assms(1,2) by (simp add: MUL_def Let_def uint_word_ariths mod_simps)
    then have "uint (MUL x y) = t mod 65537" using m b l by simp
    with ne show ?thesis by (auto simp: val_def)
  qed
qed

lemma val_one_minus: "val (1 - y) = (- val y) mod 65537"
proof -
  have r: "0 \<le> uint y" "uint y < 65536" using uint_less16 by auto
  consider "y = 0" | "y = 1" | "2 \<le> uint y"
  proof -
    have "uint y = 0 \<or> uint y = 1 \<or> 2 \<le> uint y" using r by linarith
    then show thesis using that by (metis uint_0_eq uint_1_eq unsigned_word_eqI)
  qed
  then show ?thesis
  proof cases
    case 3
    have "uint (1 - y) = (1 - uint y) mod 65536" by (simp add: uint_word_ariths)
    also have "\<dots> = (- uint y + 65537) mod 65536" using mod_65536_shift [of "- uint y"] by simp
    also have "\<dots> = - uint y + 65537" by (rule mod_pos_pos_trivial) (use 3 r in linarith)+
    finally have u: "uint (1 - y) = 65537 - uint y" by simp
    then have "1 - y \<noteq> 0" using 3 r by auto
    then have "val (1 - y) = 65537 - uint y" using u by (simp add: val_def)
    moreover have "(- uint y) mod 65537 = (- uint y + 65537) mod 65537" by simp
    moreover have "(- uint y + 65537) mod 65537 = - uint y + 65537"
      by (rule mod_pos_pos_trivial) (use 3 r in linarith)+
    moreover have "val y = uint y" using 3 by (auto simp: val_def)
    ultimately show ?thesis by simp
  qed (simp_all add: val_def)
qed

lemma val_MUL: "val (MUL x y) = val x * val y mod 65537"
proof -
  have n: "(65536 * a) mod 65537 = (- a) mod (65537 :: int)" for a
  proof -
    have "65536 * a = - a + 65537 * a" by simp
    then show ?thesis by (metis mod_mult_self2)
  qed
  consider "x \<noteq> 0" "y \<noteq> 0" | "x = 0" "y \<noteq> 0" | "y = 0" by blast
  then show ?thesis
  proof cases
    case 1
    then show ?thesis using MUL_words [OF 1] by (simp add: val_def)
  next
    case 2
    then have "MUL x y = 1 - y" "val x = 65536" by (simp_all add: MUL_def val_def)
    then show ?thesis using val_one_minus [of y] n [of "val y"] by simp
  next
    case 3
    then have "MUL x y = 1 - x" "val y = 65536" by (simp_all add: MUL_def val_def)
    then show ?thesis using val_one_minus [of x] n [of "val x"] by (simp add: mult.commute)
  qed
qed

lemma MUL_assoc: "MUL (MUL x y) z = MUL x (MUL y z)"
proof (rule val_mod_inj)
  show "val (MUL (MUL x y) z) mod 65537 = val (MUL x (MUL y z)) mod 65537"
    unfolding val_MUL by (simp add: mod_simps mult.assoc)
qed

lemma MUL_commute: "MUL x y = MUL y x"
  by (rule val_mod_inj) (simp add: val_MUL mult.commute)

lemma val_1 [simp]: "val 1 = 1"
  by (simp add: val_def)

lemma MUL_1 [simp]: "MUL x 1 = x"
  by (rule val_mod_inj) (simp add: val_MUL)

text \<open>The loop of \<open>MulInv\<close> is Euclid's algorithm on \<open>x\<close> and \<open>65537\<close>: the coefficients \<open>t0\<close> and \<open>t1\<close> satisfy
  \<open>t0 * y + t1 * x = 65537\<close>, so they never overflow.\<close>

definition euclid_inv :: "int \<Rightarrow> nat \<Rightarrow> nat \<Rightarrow> nat \<Rightarrow> nat \<Rightarrow> bool" where
  "euclid_inv X x y t0 t1 \<longleftrightarrow>
     t0 * y + t1 * x = 65537 \<and> 65537 dvd int x - int t0 * X \<and> 65537 dvd int y + int t1 * X \<and>
     0 < x \<and> 0 < y \<and> 0 < t0 \<and> 0 < t1"

lemma euclid_step:
  fixes x y t0 t1 q x' :: nat
  assumes "t0 * y + t1 * x = 65537" "x = q * y + x'"
  shows "(t0 + q * t1) * y + t1 * x' = 65537"
  using assms by (simp add: algebra_simps)

lemma congr_step:
  fixes x y t0 t1 q X :: int
  assumes "65537 dvd x - t0 * X" "65537 dvd y + t1 * X"
  shows "65537 dvd (x - q * y) - (t0 + q * t1) * X"
proof -
  have "(x - q * y) - (t0 + q * t1) * X = (x - t0 * X) - q * (y + t1 * X)" by (simp add: algebra_simps)
  then show ?thesis using assms by (metis dvd_diff dvd_mult)
qed

lemma euclid_coprime:
  assumes "t0 * y + t1 * x = 65537" "1 < y" "y < 65537"
  shows "coprime x (y :: nat)"
proof (rule ccontr)
  assume "\<not> coprime x y"
  then have "gcd x y \<noteq> 1" by (simp add: coprime_iff_gcd_eq_1)
  moreover have "gcd x y \<noteq> 0" using assms(2) by simp
  ultimately have g1: "1 < gcd x y" by linarith
  have "gcd x y dvd t0 * y + t1 * x" by (intro dvd_add dvd_mult) auto
  then have g: "gcd x y dvd 65537" unfolding assms(1) .
  have "gcd x y \<le> y" using assms(2) by (intro dvd_imp_le) auto
  then show False using prime_65537 [OF g g1] assms(3) by linarith
qed

lemma half_bound: "(a + b) * 2 \<le> 65537 \<Longrightarrow> a + b < 65536 \<and> b < (65536 :: nat)"
  by simp

text \<open>Half a turn: \<open>x\<close> is reduced by \<open>y\<close> and \<open>t0\<close> grows by the quotient times \<open>t1\<close>.\<close>

lemma euclid_half:
  fixes x y t0 t1 :: ushort and X :: int
  assumes inv: "euclid_inv X (unat x) (unat y) (unat t0) (unat t1)" and y: "1 < unat y"
  shows "euclid_inv X (unat (x mod y)) (unat y) (unat (t0 + (x div y) * t1)) (unat t1)"
proof -
  let ?q = "unat x div unat y"
  have l: "unat y < 65536" "unat x < 65536" using unsigned_less [of y, where 'a = nat] unsigned_less [of x, where 'a = nat] by simp_all
  have I: "unat t0 * unat y + unat t1 * unat x = 65537" "65537 dvd int (unat x) - int (unat t0) * X"
    "65537 dvd int (unat y) + int (unat t1) * X" "0 < unat t0" "0 < unat t1"
    using inv by (auto simp: euclid_inv_def)
  have c: "coprime (unat x) (unat y)" using euclid_coprime [OF I(1) y] l by simp
  have nz: "unat x mod unat y \<noteq> 0"
  proof
    assume "unat x mod unat y = 0"
    then have "unat y dvd unat x" by presburger
    then have "gcd (unat x) (unat y) = unat y" by (simp add: gcd_proj2_iff)
    with c y show False by (simp add: coprime_iff_gcd_eq_1)
  qed
  have e: "(unat t0 + ?q * unat t1) * unat y + unat t1 * (unat x mod unat y) = 65537"
    by (rule euclid_step [OF I(1)]) simp
  have "(unat t0 + ?q * unat t1) * 2 \<le> (unat t0 + ?q * unat t1) * unat y"
    using y by (intro mult_le_mono2) simp
  then have "(unat t0 + ?q * unat t1) * 2 \<le> 65537" using e by linarith
  then have "unat t0 + ?q * unat t1 < 65536" "?q * unat t1 < 65536" using half_bound by blast+
  moreover have "?q < 65536" using l by (meson div_le_dividend le_less_trans)
  ultimately have "unat (t0 + (x div y) * t1) = unat t0 + ?q * unat t1"
    by (simp add: unat_word_ariths unat_div_distrib)
  moreover have "unat (x mod y) = unat x mod unat y" by (simp add: unat_mod_distrib)
  moreover have "65537 dvd int (unat x mod unat y) - int (unat t0 + ?q * unat t1) * X"
    using congr_step [OF I(2,3), of "int ?q"] by (simp add: minus_mult_div_eq_mod zmod_int zdiv_int minus_div_mult_eq_mod)
  ultimately show ?thesis using e I nz y by (simp add: euclid_inv_def)
qed

lemma euclid_swap:
  "euclid_inv X x y t0 t1 \<Longrightarrow> euclid_inv (- X) y x t1 t0"
  by (simp add: euclid_inv_def add.commute)

lemma val_pos: "0 < unat x \<Longrightarrow> val x = int (unat x)"
  by (auto simp: val_def)

lemma neg_inverse:
  assumes "65537 dvd 1 + val t * X"
  shows "65537 dvd val (1 - t) * X - 1"
proof -
  have "65537 dvd val (1 - t) + val t"
    unfolding val_one_minus by (simp add: mod_simps dvd_eq_mod_eq_0)
  then have "65537 dvd (val (1 - t) + val t) * X - (1 + val t * X)" using assms by (intro dvd_diff dvd_mult2)
  then show ?thesis by (simp add: algebra_simps)
qed

lemma MulInv_loop_ok:
  "euclid_inv X (unat x) (unat y) (unat t0) (unat t1) \<Longrightarrow> 1 < unat y \<Longrightarrow>
   \<exists>r. MulInv_loop x y t0 t1 = Some r \<and> 65537 dvd val r * X - 1"
proof (induction x y t0 t1 rule: MulInv_loop.induct)
  case (1 x y t0 t1)
  define x' where "x' = x mod y"
  define t0' where "t0' = t0 + (x div y) * t1"
  define y' where "y' = y mod x'"
  define t1' where "t1' = t1 + (y div x') * t0'"
  have y0: "y \<noteq> 0" using 1(3) by auto
  have h: "euclid_inv X (unat x') (unat y) (unat t0') (unat t1)"
    unfolding x'_def t0'_def by (rule euclid_half [OF 1(2,3)])
  then have p: "0 < unat x'" "0 < unat t0'" by (auto simp: euclid_inv_def)
  have nz: "x mod y \<noteq> 0" using p(1) unfolding x'_def by (metis less_irrefl unsigned_0)
  have step: "MulInv_loop x y t0 t1 =
     (if x' = 1 then Some t0' else if y' \<noteq> 1 then MulInv_loop x' y' t0' t1' else Some (1 - t1'))"
    using y0 nz by (subst MulInv_loop.simps) (simp add: x'_def t0'_def y'_def t1'_def Let_def)
  show ?case
  proof (cases "x' = 1")
    case True
    then have "65537 dvd 1 - int (unat t0') * X" using h by (simp add: euclid_inv_def)
    then have "65537 dvd val t0' * X - 1" using val_pos [OF p(2)] by (simp add: dvd_diff_commute)
    then show ?thesis using True step by simp
  next
    case False
    then have x1: "1 < unat x'" using p(1) by (metis One_nat_def Suc_lessI unat_1 unsigned_word_eqI)
    have g: "euclid_inv (- X) (unat y') (unat x') (unat t1') (unat t0')"
      unfolding y'_def t1'_def by (rule euclid_half [OF euclid_swap [OF h] x1])
    then have q: "0 < unat y'" "0 < unat t1'" by (auto simp: euclid_inv_def)
    show ?thesis
    proof (cases "y' = 1")
      case True
      then have "65537 dvd 1 + int (unat t1') * X" using g by (simp add: euclid_inv_def)
      then have d: "65537 dvd 1 + val t1' * X" using val_pos [OF q(2)] by simp
      from neg_inverse [OF d] show ?thesis using True False step by simp
    next
      case y1: False
      then have "1 < unat y'" using q(1) by (metis One_nat_def Suc_lessI unat_1 unsigned_word_eqI)
      moreover have "euclid_inv X (unat x') (unat y') (unat t0') (unat t1')" using euclid_swap [OF g] by simp
      ultimately have "\<exists>r. MulInv_loop x' y' t0' t1' = Some r \<and> 65537 dvd val r * X - 1"
        using 1(1) [OF y0 refl refl refl, folded x'_def t0'_def, OF False _ refl refl refl, folded y'_def t1'_def]
          nz y1 by (simp add: x'_def)
      then show ?thesis using y1 False step by simp
    qed
  qed
qed

lemma MulInv_ok: "\<exists>r. MulInv x = Some r \<and> MUL x r = 1"
proof (cases "x \<le> 1")
  case True
  then have "x = 0 \<or> x = 1" by (metis order_antisym word_coorder.extremum word_le_less_eq word_less_1)
  then show ?thesis by (auto simp: MulInv_def MUL_def)
next
  case False
  define t1 :: ushort where "t1 = ucast ((0x10001 :: word32) div ucast x)"
  define y :: ushort where "y = ucast ((0x10001 :: word32) mod ucast x)"
  have x1: "1 < unat x" using False by (simp add: word_less_nat_alt not_le)
  have x2: "unat x < 65536" using unsigned_less [of x, where 'a = nat] by simp
  have ux: "unat (ucast x :: word32) = unat x" using x2 by (simp add: unsigned_ucast_eq take_bit_eq_mod)
  have dm: "65537 div unat x < 65536" "65537 mod unat x < 65536"
    using x1 x2 by (simp add: less_mult_imp_div_less) (metis mod_less_divisor less_trans zero_less_one x1 x2)
  have t1: "unat t1 = 65537 div unat x" and y: "unat y = 65537 mod unat x"
    using dm x2 by (simp_all add: t1_def y_def unsigned_ucast_eq take_bit_eq_mod unat_div_distrib unat_mod_distrib ux)
  have "\<not> unat x dvd 65537" using prime_65537 [of "unat x"] x1 x2 by auto
  then have y0: "0 < unat y" using y by (simp add: dvd_eq_mod_eq_0)
  have t0: "0 < unat t1" using t1 x1 x2 by (simp add: div_greater_zero_iff)
  have sum: "unat y + unat t1 * unat x = 65537" using t1 y by simp
  then have s: "int (unat y) + int (unat t1) * int (unat x) = 65537" by (metis of_nat_add of_nat_mult of_nat_numeral)
  have eq: "MulInv x = (if y = 1 then Some (1 - t1) else MulInv_loop x y 1 t1)"
    using False by (simp add: MulInv_def t1_def y_def Let_def)
  have "\<exists>r. MulInv x = Some r \<and> 65537 dvd val r * int (unat x) - 1"
  proof (cases "y = 1")
    case True
    then have "65537 dvd 1 + val t1 * int (unat x)" using s val_pos [OF t0] by simp
    from neg_inverse [OF this] show ?thesis using eq True by simp
  next
    case False
    then have "1 < unat y" using y0 by (metis One_nat_def Suc_lessI unat_1 unsigned_word_eqI)
    moreover have "euclid_inv (int (unat x)) (unat x) (unat y) (unat 1) (unat t1)"
      using sum s x1 y0 t0 by (simp add: euclid_inv_def)
    ultimately show ?thesis using MulInv_loop_ok eq False by simp
  qed
  then obtain r where r: "MulInv x = Some r" "65537 dvd val r * int (unat x) - 1" by blast
  have "val x = int (unat x)" using val_pos x1 by simp
  then have "(val x * val r) mod 65537 = 1 mod 65537"
    unfolding mod_eq_dvd_iff using r(2) by (simp add: mult.commute)
  then have "val (MUL x r) mod 65537 = val 1 mod 65537" by (simp add: val_MUL)
  then show ?thesis using r(1) val_mod_inj by blast
qed

definition mul_inverse :: "ushort \<Rightarrow> ushort" where
  "mul_inverse x = the (MulInv x)"

lemma MulInv_inverse: "MulInv x = Some (mul_inverse x)" "MUL x (mul_inverse x) = 1"
  using MulInv_ok [of x] by (auto simp: mul_inverse_def)

lemma MUL_cancel [simp]: "MUL (MUL x k) (mul_inverse k) = x"
  by (simp add: MUL_assoc MulInv_inverse)

section \<open>Decryption undoes encryption\<close>

text \<open>A round is a transformation by four subkeys, the mixing of the halves by two, and an exchange of the
  middle words.\<close>

fun transf :: "ushort \<times> ushort \<times> ushort \<times> ushort \<Rightarrow> block \<Rightarrow> block" where
  "transf (k1, k2, k3, k4) (x1, x2, x3, x4) = (MUL x1 k1, x2 + k2, x3 + k3, MUL x4 k4)"

fun mix :: "ushort \<times> ushort \<Rightarrow> block \<Rightarrow> block" where
  "mix (k5, k6) (x1, x2, x3, x4) =
     (let u = MUL (x3 XOR x1) k5; t = MUL ((x2 XOR x4) + u) k6; w = u + t
      in (x1 XOR t, x2 XOR w, x3 XOR t, x4 XOR w))"

fun exch :: "block \<Rightarrow> block" where
  "exch (x1, x2, x3, x4) = (x1, x3, x2, x4)"

fun inv4 :: "ushort \<times> ushort \<times> ushort \<times> ushort \<Rightarrow> ushort \<times> ushort \<times> ushort \<times> ushort" where
  "inv4 (k1, k2, k3, k4) = (mul_inverse k1, - k2, - k3, mul_inverse k4)"

lemma exch_exch [simp]: "exch (exch b) = b"
  by (cases b) simp

lemma xor_twice [simp]: "(x XOR y) XOR y = (x :: 'a::len word)"
  by (simp add: xor.assoc)

lemma xor_both [simp]: "(x XOR t) XOR (y XOR t) = x XOR (y :: 'a::len word)"
  by (rule bit_word_eqI) (auto simp: bit_xor_iff)

lemma mix_mix [simp]: "mix k (mix k b) = b"
  by (cases k; cases b) (simp add: Let_def)

lemma transf_inv [simp]: "transf (inv4 k) (transf k b) = b"
  by (cases k; cases b) simp

lemma transf_exch: "transf (exch k) (exch b) = exch (transf k b)"
  by (cases k; cases b) simp

definition key4 :: "nat \<Rightarrow> ushort list \<Rightarrow> ushort \<times> ushort \<times> ushort \<times> ushort" where
  "key4 i key = (key ! i, key ! (i + 1), key ! (i + 2), key ! (i + 3))"

definition key2 :: "nat \<Rightarrow> ushort list \<Rightarrow> ushort \<times> ushort" where
  "key2 i key = (key ! i, key ! (i + 1))"

lemma idea_round_eq: "idea_round key b = exch (mix (key2 4 key) (transf (key4 0 key) b))"
  by (cases b) (simp add: idea_round_def key2_def key4_def Let_def xor.commute numeral_eq_Suc)

text \<open>The cipher for any number of rounds, and the rest of the decryption key after some turns.\<close>

definition run_words :: "nat \<Rightarrow> ushort list \<Rightarrow> block \<Rightarrow> block" where
  "run_words n key b =
     (case idea_rounds n key b of (key', b') \<Rightarrow> transf (key4 0 key') (exch b'))"

lemma run_words_0: "run_words 0 key b = transf (key4 0 key) (exch b)"
  by (simp add: run_words_def)

lemma run_words_Suc: "run_words (Suc n) key b = run_words n (drop 6 key) (idea_round key b)"
  by (simp add: run_words_def)

lemma idea_words_eq: "idea_words key b = run_words IDEAROUNDS key b"
  by (auto simp: idea_words_def run_words_def key4_def numeral_eq_Suc split: prod.splits)

lemma idea_rounds_key: "fst (idea_rounds n key b) = drop (6 * n) key"
  by (induction n key b rule: idea_rounds.induct) (auto simp: add.commute)

definition cons4 :: "ushort \<times> ushort \<times> ushort \<times> ushort \<Rightarrow> ushort list \<Rightarrow> ushort list" where
  "cons4 k p = (case k of (k1, k2, k3, k4) \<Rightarrow> k1 # k2 # k3 # k4 # p)"

lemma key_cons4 [simp]: "key4 0 (cons4 k p) = k" "drop 4 (cons4 k p) = p"
    "key2 4 (cons4 k (a # c # p)) = (a, c)" "drop 6 (cons4 k (a # c # p)) = p"
  by (cases k; simp add: cons4_def key4_def key2_def numeral_eq_Suc)+

lemma invert_loop_Suc:
  "invert_loop (Suc n) EK p =
     invert_loop n (drop 6 EK) (cons4 (exch (inv4 (key4 2 EK))) (EK ! 0 # EK ! 1 # p))"
  by (simp add: MulInv_inverse cons4_def key4_def numeral_eq_Suc)

text \<open>One turn of decryption against one round of encryption: with the inverse of \<open>t'\<close> in front and the
  mixing keys behind it, the key takes the state after \<open>t'\<close> back to the state after \<open>t\<close>.\<close>

lemma unwind:
  "run_words (Suc k) (cons4 (exch (inv4 t')) (m1 # m2 # p)) (exch (transf t' (exch (mix (m1, m2) v)))) =
   run_words k p (exch v)"
proof -
  have "transf (exch (inv4 t')) (exch (transf t' (exch (mix (m1, m2) v)))) = mix (m1, m2) v"
    by (simp add: transf_exch)
  then show ?thesis by (simp add: run_words_Suc idea_round_eq)
qed

lemma invert_loop_ok:
  "6 * n \<le> length EK \<Longrightarrow> \<exists>p'. invert_loop n EK p = Some (drop (6 * n) EK, p') \<and>
     (\<forall>z t. run_words (k + n) p' (exch (transf (if n = 0 then t else key4 (6 * n - 4) EK)
         (snd (idea_rounds n (cons4 t EK) z)))) = run_words k p (exch (transf t z)))"
proof (induction n arbitrary: EK p k)
  case 0
  then show ?case by simp
next
  case (Suc n)
  let ?t' = "key4 2 EK" and ?p1 = "cons4 (exch (inv4 (key4 2 EK))) (EK ! 0 # EK ! 1 # p)"
  have len: "6 \<le> length EK" and "6 * n \<le> length (drop 6 EK)" using Suc.prems by simp_all
  from Suc.IH [OF this(2), of ?p1 "Suc k"] obtain p' where p':
    "invert_loop n (drop 6 EK) ?p1 = Some (drop (6 * n) (drop 6 EK), p')"
    "\<And>z t. run_words (Suc k + n) p' (exch (transf (if n = 0 then t else key4 (6 * n - 4) (drop 6 EK))
       (snd (idea_rounds n (cons4 t (drop 6 EK)) z)))) = run_words (Suc k) ?p1 (exch (transf t z))" by blast
  have rest: "drop 6 (cons4 t EK) = cons4 ?t' (drop 6 EK)" for t
  proof -
    from len have "drop 2 EK = EK ! 2 # EK ! 3 # EK ! 4 # EK ! 5 # drop 6 EK"
      by (simp add: Cons_nth_drop_Suc numeral_eq_Suc)
    then show ?thesis by (cases t) (simp add: cons4_def key4_def numeral_eq_Suc)
  qed
  have last: "key4 (6 * Suc n - 4) EK = (if n = 0 then ?t' else key4 (6 * n - 4) (drop 6 EK))"
    using len by (cases n) (simp_all add: key4_def numeral_eq_Suc)
  have "run_words (k + Suc n) p' (exch (transf (key4 (6 * Suc n - 4) EK)
      (snd (idea_rounds (Suc n) (cons4 t EK) z)))) = run_words k p (exch (transf t z))" for z t
  proof -
    have "key2 4 (cons4 t EK) = (EK ! 0, EK ! 1)" by (cases t) (simp add: cons4_def key2_def numeral_eq_Suc)
    then have "snd (idea_rounds (Suc n) (cons4 t EK) z) =
        snd (idea_rounds n (cons4 ?t' (drop 6 EK)) (exch (mix (EK ! 0, EK ! 1) (transf t z))))"
      by (simp add: rest idea_round_eq)
    with p'(2) [of ?t' "exch (mix (EK ! 0, EK ! 1) (transf t z))", unfolded unwind add_Suc]
    show ?thesis unfolding last add_Suc_right by simp
  qed
  with p'(1) show ?case by (intro exI [of _ p']) (simp add: invert_loop_Suc add.commute del: invert_loop.simps(2))
qed

lemma words_decipher_encipher:
  assumes "length EK = IDEAKEYLEN"
  shows "\<exists>DK. IdeaInvertKey EK = Some DK \<and> idea_words DK (idea_words EK b) = b"
proof -
  let ?p0 = "cons4 (inv4 (key4 0 EK)) []" and ?EK = "drop 4 EK"
  have len: "length EK = 52" using assms by (simp add: IDEAKEYLEN_def IDEAROUNDS_def)
  from invert_loop_ok [of 7 ?EK ?p0 0] len obtain p where p:
    "invert_loop 7 ?EK ?p0 = Some (drop 42 ?EK, p)"
    "\<And>z t. run_words 7 p (exch (transf (key4 38 ?EK) (snd (idea_rounds 7 (cons4 t ?EK) z)))) =
      run_words 0 ?p0 (exch (transf t z))" by (auto split: if_splits)
  define DK where "DK = cons4 (inv4 (key4 2 (drop 46 EK))) (EK ! 46 # EK ! 47 # p)"
  have "IdeaInvertKey EK = Some DK"
    using p(1) len by (simp add: IdeaInvertKey_def MulInv_inverse IDEAROUNDS_def DK_def cons4_def key4_def
        numeral_eq_Suc del: invert_loop.simps)
  moreover have "idea_words DK (idea_words EK b) = b"
  proof -
    have key: "cons4 (key4 0 EK) ?EK = EK"
      using len by (simp add: cons4_def key4_def Cons_nth_drop_Suc numeral_eq_Suc)
    let ?r7 = "idea_rounds 7 EK b"
    have r7: "fst ?r7 = drop 42 EK" using idea_rounds_key [of 7 EK b] by simp
    have eight: "idea_rounds n EK b = (drop 6 (fst (idea_rounds m EK b)),
        idea_round (fst (idea_rounds m EK b)) (snd (idea_rounds m EK b)))" if "n = Suc m" for n m EK b
      unfolding that by (induction m EK b rule: idea_rounds.induct) auto
    have dec: "idea_words DK y = run_words 8 DK y" for y by (simp add: idea_words_eq IDEAROUNDS_def)
    have e8: "run_words 8 = run_words (Suc 7)" by simp
    let ?v = "transf (key4 42 EK) (snd ?r7)"
    have k0: "key4 0 (drop 42 EK) = key4 42 EK" "key2 4 (drop 42 EK) = (EK ! 46, EK ! 47)"
      using len by (simp_all add: key4_def key2_def)
    have enc: "idea_words EK b = transf (key4 2 (drop 46 EK)) (mix (EK ! 46, EK ! 47) ?v)"
      using eight [of 8 7 EK b] r7 k0 len
      by (simp add: idea_words_eq run_words_def IDEAROUNDS_def idea_round_eq key4_def)
    have "idea_words DK (idea_words EK b) = run_words 7 p (exch ?v)"
      unfolding enc dec e8 run_words_Suc idea_round_eq unfolding DK_def by simp
    also have "\<dots> = run_words 0 ?p0 (exch (transf (key4 0 EK) b))"
      using p(2) [of "key4 0 EK" b] key len by (simp add: key4_def)
    also have "\<dots> = b" by (simp add: run_words_0)
    finally show ?thesis .
  qed
  ultimately show ?thesis by blast
qed

text \<open>The byte level: loading, swapping and storing.\<close>

lemma load_store [simp]: "load16 (store16 x @ ys) 0 = x"
proof (rule bit_word_eqI)
  fix n
  assume "n < LENGTH(16)"
  then show "bit (load16 (store16 x @ ys) 0) n = bit x n"
    by (cases "n < 8")
      (auto simp: load16_def store16_def bit_or_iff bit_push_bit_iff bit_unsigned_iff bit_drop_bit_eq)
qed

lemma swap_swap [simp]: "swap16 (swap16 x) = x"
proof (rule bit_word_eqI)
  fix n
  assume "n < LENGTH(16)"
  then show "bit (swap16 (swap16 x)) n = bit x n"
    by (cases "n < 8")
      (auto simp: swap16_def bit_or_iff bit_push_bit_iff bit_drop_bit_eq dest: bit_imp_le_length)
qed

lemma length_store16 [simp]: "length (store16 x) = 2"
  by (simp add: store16_def)

lemma load16_append [simp]: "length xs = 2 \<Longrightarrow> load16 (xs @ ys) (Suc i) = load16 ys i"
  by (simp add: load16_def nth_append)

lemma store_load: "length xs = 2 \<Longrightarrow> store16 (load16 xs 0) = xs"
proof -
  assume "length xs = 2"
  then obtain a b where xs: "xs = [a, b]" by (auto simp: length_Suc_conv numeral_eq_Suc)
  have "ucast (load16 [a, b] 0) = a"
    by (rule bit_word_eqI) (auto simp: load16_def bit_or_iff bit_push_bit_iff bit_unsigned_iff dest: bit_imp_le_length)
  moreover have "ucast (drop_bit 8 (load16 [a, b] 0)) = b"
    by (rule bit_word_eqI) (auto simp: load16_def bit_or_iff bit_push_bit_iff bit_unsigned_iff bit_drop_bit_eq
        dest: bit_imp_le_length)
  ultimately show ?thesis unfolding xs store16_def by simp
qed

definition words_of :: "uchar list \<Rightarrow> block" where
  "words_of buf = (swap16 (load16 buf 0), swap16 (load16 buf 1), swap16 (load16 buf 2), swap16 (load16 buf 3))"

definition bytes_of :: "block \<Rightarrow> uchar list" where
  "bytes_of b = (case b of (y1, y2, y3, y4) \<Rightarrow>
     store16 (swap16 y1) @ store16 (swap16 y2) @ store16 (swap16 y3) @ store16 (swap16 y4))"

lemma IdeaCipher_eq: "IdeaCipher buf key = bytes_of (idea_words key (words_of buf))"
  by (simp add: IdeaCipher_def words_of_def bytes_of_def)

lemma words_of_bytes [simp]: "words_of (bytes_of b) = b"
  by (cases b) (simp add: words_of_def bytes_of_def numeral_eq_Suc load_store [where ys = "[]", simplified])

lemma bytes_of_words: "length buf = 8 \<Longrightarrow> bytes_of (words_of buf) = buf"
proof -
  assume len: "length buf = 8"
  have p: "load16 buf i = load16 (take 2 (drop (2 * i) buf)) 0" if "i < 4" for i
    using that len by (simp add: load16_def)
  have "store16 (load16 buf i) = take 2 (drop (2 * i) buf)" if "i < 4" for i
    unfolding p [OF that] using that len by (intro store_load) simp
  then have "bytes_of (words_of buf) = take 2 buf @ take 2 (drop 2 buf) @ take 2 (drop 4 buf) @ take 2 (drop 6 buf)"
    by (simp add: bytes_of_def words_of_def)
  also have "\<dots> = buf"
  proof -
    from len obtain a0 a1 a2 a3 a4 a5 a6 a7 where "buf = [a0, a1, a2, a3, a4, a5, a6, a7]"
      by (auto simp: length_Suc_conv numeral_eq_Suc)
    then show ?thesis by simp
  qed
  finally show ?thesis .
qed

lemma length_IdeaCipher [simp]: "length (IdeaCipher buf key) = 8"
  by (simp add: IdeaCipher_def split: prod.splits)

section \<open>The encryption key schedule\<close>

text \<open>The bits of the user key, the most significant first, and of the subkeys.\<close>

definition key_bit :: "uchar list \<Rightarrow> nat \<Rightarrow> bool" where
  "key_bit userkey i = bit (userkey ! (i div 8)) (7 - i mod 8)"

definition word_bit :: "ushort \<Rightarrow> nat \<Rightarrow> bool" where
  "word_bit w q = bit w (15 - q)"

lemma rotate_bit:
  assumes "q < 16"
  shows "word_bit (push_bit 9 a OR drop_bit 7 b) q = (if q < 7 then word_bit a (q + 9) else word_bit b (q - 7))"
  using assms
  by (auto simp: word_bit_def bit_or_iff bit_push_bit_iff bit_drop_bit_eq dest: bit_imp_le_length
      intro!: arg_cong [where f = "bit b"] arg_cong [where f = "bit a"])

text \<open>The loop writes the subkeys in order; each comes from two that are seven and six places before it.\<close>

definition sched_inv :: "uchar list \<Rightarrow> nat \<Rightarrow> nat \<times> nat \<times> ushort list \<Rightarrow> bool" where
  "sched_inv userkey j s \<longleftrightarrow>
     (case s of (i, base, EK) \<Rightarrow>
        i = (j - 8) mod 8 \<and> base = 8 * ((j - 8) div 8) \<and> length EK = IDEAKEYLEN \<and>
        (\<forall>n < j. \<forall>q < 16. word_bit (EK ! n) q = key_bit userkey ((25 * (n div 8) + 16 * (n mod 8) + q) mod 128)))"

lemma nat_and_7: "(n :: nat) AND 7 = n mod 8"
proof -
  have "n AND mask 3 = n mod 2 ^ 3" by (simp add: take_bit_eq_mask [symmetric] take_bit_eq_mod)
  then show ?thesis by (simp add: mask_eq_exp_minus_1)
qed

lemma nat_and_8: "m \<le> 8 \<Longrightarrow> m AND 8 = (if m = 8 then 8 else (0 :: nat))"
proof -
  assume "m \<le> 8"
  then have "m = 0 \<or> m = 1 \<or> m = 2 \<or> m = 3 \<or> m = 4 \<or> m = 5 \<or> m = 6 \<or> m = 7 \<or> m = 8" by presburger
  then show ?thesis by (elim disjE) simp_all
qed

lemma sched_first:
  assumes "n < 8" "q < 16"
  shows "word_bit (push_bit 8 (ucast (userkey ! (2 * n))) + ucast (userkey ! (2 * n + 1))) q =
    key_bit userkey (16 * n + q)"
proof -
  let ?a = "push_bit 8 (ucast (userkey ! (2 * n))) :: ushort" and ?b = "ucast (userkey ! (2 * n + 1)) :: ushort"
  have "?a + ?b = ?a OR ?b"
    by (rule disjunctive_add_eq_or, rule bit_word_eqI)
      (auto simp: bit_and_iff bit_push_bit_iff bit_unsigned_iff dest: bit_imp_le_length)
  moreover have "(16 * n + q) div 8 = 2 * n + q div 8" "(16 * n + q) mod 8 = q mod 8" by presburger+
  moreover have "q div 8 = (if q < 8 then 0 else 1)" "q mod 8 = (if q < 8 then q else q - 8)"
    using assms(2) by (auto simp: le_mod_geq)
  ultimately show ?thesis
    using assms by (auto simp: word_bit_def key_bit_def bit_or_iff bit_push_bit_iff bit_unsigned_iff
        dest: bit_imp_le_length intro!: arg_cong [where f = "bit w" for w])
qed

lemma sched_index:
  assumes "c < 8"
  shows "(25 * k + 16 * ((c + 1) mod 8) + (q + 9)) mod 128 = (25 * Suc k + 16 * c + q) mod (128 :: nat)"
    and "7 \<le> q \<Longrightarrow> (25 * k + 16 * ((c + 2) mod 8) + (q - 7)) mod 128 = (25 * Suc k + 16 * c + q) mod (128 :: nat)"
proof -
  have m: "16 * (d mod 8) mod 128 = 16 * d mod (128 :: nat)" for d by (simp add: mult_mod_right)
  have "(25 * k + 16 * ((c + 1) mod 8) + (q + 9)) mod 128 = (25 * k + 16 * (c + 1) + (q + 9)) mod 128"
    by (intro mod_add_cong m) simp_all
  then show "(25 * k + 16 * ((c + 1) mod 8) + (q + 9)) mod 128 = (25 * Suc k + 16 * c + q) mod (128 :: nat)"
    by (simp add: algebra_simps)
  assume "7 \<le> q"
  have "(25 * k + 16 * ((c + 2) mod 8) + (q - 7)) mod 128 = (25 * k + 16 * (c + 2) + (q - 7)) mod 128"
    by (intro mod_add_cong m) simp_all
  then show "(25 * k + 16 * ((c + 2) mod 8) + (q - 7)) mod 128 = (25 * Suc k + 16 * c + q) mod (128 :: nat)"
    using \<open>7 \<le> q\<close> by (simp add: algebra_simps)
qed

lemma sched_step:
  assumes "sched_inv userkey j s" "8 \<le> j" "j < IDEAKEYLEN"
  shows "sched_inv userkey (Suc j) (expand_step s)"
proof (cases s)
  case (fields i base EK)
  define k c where "k = (j - 8) div 8" and "c = (j - 8) mod 8"
  have c: "c < 8" and j: "j = 8 * Suc k + c" "j div 8 = Suc k" "j mod 8 = c"
    using assms(2) by (auto simp: k_def c_def le_div_geq le_mod_geq)
  have inv: "i = c" "base = 8 * k" "length EK = IDEAKEYLEN"
    and bits: "\<And>n q. n < j \<Longrightarrow> q < 16 \<Longrightarrow>
      word_bit (EK ! n) q = key_bit userkey ((25 * (n div 8) + 16 * (n mod 8) + q) mod 128)"
    using assms(1) by (auto simp: sched_inv_def fields k_def c_def)
  let ?A = "EK ! (8 * k + (c + 1) mod 8)" and ?B = "EK ! (8 * k + (c + 2) mod 8)"
  let ?v = "push_bit 9 ?A OR drop_bit 7 ?B"
  have le: "8 * k + m mod 8 < j" for m
  proof -
    have "m mod 8 < 8" by simp
    then have "8 * k + m mod 8 < 8 * k + 8" by (simp only: add_less_cancel_left)
    with j(1) show ?thesis by simp
  qed
  have prev: "word_bit (EK ! (8 * k + m mod 8)) q = key_bit userkey ((25 * k + 16 * (m mod 8) + q) mod 128)"
    if "q < 16" for m q
    using bits [OF le that] by simp
  have new: "word_bit ?v q = key_bit userkey ((25 * Suc k + 16 * c + q) mod 128)" if "q < 16" for q
  proof (cases "q < 7")
    case True
    then have "word_bit ?v q = word_bit ?A (q + 9)" using that by (simp only: rotate_bit if_True)
    also have "\<dots> = key_bit userkey ((25 * k + 16 * ((c + 1) mod 8) + (q + 9)) mod 128)"
      using True by (intro prev) simp
    finally show ?thesis unfolding sched_index(1) [OF c] .
  next
    case False
    then have "word_bit ?v q = word_bit ?B (q - 7)" using that by (simp only: rotate_bit if_False)
    also have "\<dots> = key_bit userkey ((25 * k + 16 * ((c + 2) mod 8) + (q - 7)) mod 128)"
      using that by (intro prev) simp
    finally show ?thesis using sched_index(2) [OF c] False by simp
  qed
  have all: "word_bit (EK[j := ?v] ! n) q = key_bit userkey ((25 * (n div 8) + 16 * (n mod 8) + q) mod 128)"
    if "n < Suc j" "q < 16" for n q
  proof (cases "n = j")
    case True
    then show ?thesis using new [OF that(2)] inv(3) assms(3) by (simp only: nth_list_update_eq j(2,3))
  next
    case False
    then show ?thesis using bits [of n q] that by simp
  qed
  have "(i + 1) AND 7 = (Suc j - 8) mod 8" "base + ((i + 1) AND 8) = 8 * ((Suc j - 8) div 8)"
    using inv c j(1) by (auto simp: nat_and_7 nat_and_8 mod_Suc)
  moreover have "expand_step s = ((i + 1) AND 7, base + ((i + 1) AND 8), EK[j := ?v])"
    unfolding expand_step_def fields using inv j(1) by (simp add: Let_def nat_and_7 add_ac)
  ultimately show ?thesis
    unfolding sched_inv_def using all inv(3) by simp
qed

lemma sched_fold:
  "8 + d \<le> IDEAKEYLEN \<Longrightarrow> sched_inv userkey 8 s \<Longrightarrow>
   sched_inv userkey (8 + d) (fold (\<lambda>j. expand_step) [8..<8 + d] s)"
proof (induction d)
  case (Suc d)
  then have "sched_inv userkey (Suc (8 + d)) (expand_step (fold (\<lambda>j. expand_step) [8..<8 + d] s))"
    by (intro sched_step) simp_all
  moreover have "[8..<8 + Suc d] = [8..<8 + d] @ [8 + d]"
    using upt_Suc_append [of 8 "8 + d"] by (simp del: upt_Suc)
  ultimately show ?case by (simp only: fold_append comp_apply fold_simps add_Suc_right)
qed simp

lemma IdeaExpandKey_bits:
  "length (IdeaExpandKey userkey) = IDEAKEYLEN \<and>
   (\<forall>n < IDEAKEYLEN. \<forall>q < 16.
      bit (IdeaExpandKey userkey ! n) (15 - q) =
      key_bit userkey ((25 * (n div 8) + 16 * (n mod 8) + q) mod 128))"
proof -
  let ?EK0 = "map (\<lambda>j. push_bit 8 (ucast (userkey ! (2 * j))) + ucast (userkey ! (2 * j + 1))) [0..<8]
            @ replicate (IDEAKEYLEN - 8) 0 :: ushort list"
  have "sched_inv userkey 8 (0, 0, ?EK0)"
    unfolding sched_inv_def using sched_first [of _ _ userkey]
    by (simp add: nth_append IDEAKEYLEN_def IDEAROUNDS_def)
  from sched_fold [OF _ this, of "IDEAKEYLEN - 8"]
  have "sched_inv userkey IDEAKEYLEN (fold (\<lambda>j. expand_step) [8..<IDEAKEYLEN] (0, 0, ?EK0))"
    by (simp add: IDEAKEYLEN_def IDEAROUNDS_def)
  then show ?thesis
    unfolding IdeaExpandKey_def Let_def by (auto simp: sched_inv_def word_bit_def split: prod.splits)
qed

lemma length_IdeaExpandKey [simp]: "length (IdeaExpandKey userkey) = IDEAKEYLEN"
  using IdeaExpandKey_bits by blast

section \<open>Feedback, byte by byte\<close>

text \<open>The stream view of the mode: when no keystream byte is left the cipher is cranked, and every byte uses
  the next byte of \<open>iv\<close>, which the ciphertext byte then replaces.\<close>

definition cfb_byte :: "bool \<Rightarrow> IdeaCfbContext \<Rightarrow> uchar \<Rightarrow> uchar \<times> IdeaCfbContext" where
  "cfb_byte enc ctx x =
     (let c = (if bufleft ctx = 0 then crank ctx\<lparr>bufleft := 8\<rparr> else ctx);
          p = 8 - bufleft c
      in (iv c ! p XOR x,
          c\<lparr>iv := (iv c)[p := if enc then iv c ! p XOR x else x], bufleft := bufleft c - 1\<rparr>))"

fun cfb_stream :: "bool \<Rightarrow> IdeaCfbContext \<Rightarrow> uchar list \<Rightarrow> uchar list \<times> IdeaCfbContext" where
  "cfb_stream enc ctx [] = ([], ctx)"
| "cfb_stream enc ctx (x # xs) =
     (let (y, ctx1) = cfb_byte enc ctx x; (ys, ctx2) = cfb_stream enc ctx1 xs in (y # ys, ctx2))"

definition inner_loop :: "bool \<Rightarrow> nat \<Rightarrow> uchar list \<Rightarrow> uchar list \<Rightarrow> uchar list \<times> uchar list" where
  "inner_loop enc = (if enc then xor_out else xor_in)"

lemma inner_loop_simps [simp]:
  "inner_loop enc p [] v = ([], v)"
  "inner_loop enc p (x # src) v =
     (let c = v ! p XOR x; (dest, v') = inner_loop enc (p + 1) src (v[p := if enc then c else x])
      in (c # dest, v'))"
  by (auto simp: inner_loop_def Let_def)

lemma cfb_stream_append:
  "cfb_stream enc ctx (xs @ ys) =
     (let (a, c1) = cfb_stream enc ctx xs; (b, c2) = cfb_stream enc c1 ys in (a @ b, c2))"
  by (induction xs arbitrary: ctx) (simp_all add: Let_def split_beta)

lemma cfb_stream_in_block:
  "length xs \<le> bufleft ctx \<Longrightarrow> bufleft ctx \<le> 8 \<Longrightarrow> inner_loop enc (8 - bufleft ctx) xs (iv ctx) = (d, v) \<Longrightarrow>
   cfb_stream enc ctx xs = (d, ctx\<lparr>iv := v, bufleft := bufleft ctx - length xs\<rparr>)"
proof (induction xs arbitrary: ctx d)
  case (Cons x xs)
  let ?p = "8 - bufleft ctx" and ?c = "iv ctx ! (8 - bufleft ctx) XOR x"
  let ?ctx1 = "ctx\<lparr>iv := (iv ctx)[?p := if enc then ?c else x], bufleft := bufleft ctx - 1\<rparr>"
  from Cons.prems have p: "8 - bufleft ?ctx1 = ?p + 1" and left: "bufleft ctx \<noteq> 0" by auto
  obtain d' where d': "inner_loop enc (?p + 1) xs (iv ?ctx1) = (d', v)" "d = ?c # d'"
    using Cons.prems(3) by (auto simp: Let_def split: prod.splits)
  have "cfb_stream enc ?ctx1 xs = (d', ?ctx1\<lparr>iv := v, bufleft := bufleft ?ctx1 - length xs\<rparr>)"
    using Cons.prems d'(1) by (intro Cons.IH) (auto simp: p [simplified])
  with left d'(2) show ?case by (simp add: cfb_byte_def Let_def)
qed simp

lemma cfb_stream_crank:
  "bufleft ctx = 0 \<Longrightarrow> xs \<noteq> [] \<Longrightarrow> cfb_stream enc ctx xs = cfb_stream enc (crank ctx\<lparr>bufleft := 8\<rparr>) xs"
  by (cases xs) (simp_all add: cfb_byte_def)

lemma crank_simps [simp]:
  "bufleft (crank ctx) = bufleft ctx"
  "crank (ctx\<lparr>bufleft := n\<rparr>) = crank ctx\<lparr>bufleft := n\<rparr>"
  "crank (ctx\<lparr>oldcipher := v\<rparr>) = crank ctx"
  by (simp_all add: crank_def)

lemma cfb_blocks_stream:
  "src \<noteq> [] \<Longrightarrow> cfb_blocks (inner_loop enc) ctx src = cfb_stream enc (ctx\<lparr>bufleft := 0\<rparr>) src"
proof (induction "inner_loop enc" ctx src rule: cfb_blocks.induct)
  case (1 ctx src)
  let ?c = "crank ctx\<lparr>bufleft := 8\<rparr>"
  have start: "cfb_stream enc (ctx\<lparr>bufleft := 0\<rparr>) xs = cfb_stream enc ?c xs" if "xs \<noteq> []" for xs
    using that cfb_stream_crank [of "ctx\<lparr>bufleft := 0\<rparr>" xs enc] by simp
  obtain d v where dv: "inner_loop enc 0 (take 8 src) (iv (crank ctx)) = (d, v)" by fastforce
  have head: "cfb_stream enc ?c (take 8 src) =
      (d, ?c\<lparr>iv := v, bufleft := 8 - length (take 8 src)\<rparr>)"
    using cfb_stream_in_block [of "take 8 src" ?c enc d v] dv by simp
  show ?case
  proof (cases "length src > 8")
    case True
    then have ne: "drop 8 src \<noteq> []" "take 8 src \<noteq> []" by auto
    have next_block: "cfb_blocks (inner_loop enc) (crank ctx\<lparr>iv := v\<rparr>) (drop 8 src) =
        cfb_stream enc (crank ctx\<lparr>iv := v, bufleft := 0\<rparr>) (drop 8 src)"
      using 1 True dv ne by (simp split: prod.splits)
    have "cfb_stream enc ?c (take 8 src @ drop 8 src) =
        (let (b, c2) = cfb_stream enc (crank ctx\<lparr>iv := v, bufleft := 0\<rparr>) (drop 8 src) in (d @ b, c2))"
      unfolding cfb_stream_append using head True by (simp add: min_def)
    then show ?thesis
      using start [of src] 1(2) True dv next_block
      by (subst cfb_blocks.simps) (simp add: Let_def split_beta)
  next
    case False
    then show ?thesis
      using start [of src] 1(2) dv head by (subst cfb_blocks.simps) (simp add: Let_def)
  qed
qed

lemma cfb_crypt_stream:
  assumes "bufleft ctx \<le> 8"
  shows "cfb_crypt (inner_loop enc) ctx src = cfb_stream enc ctx src"
proof -
  let ?left = "bufleft ctx"
  obtain d v where dv: "inner_loop enc (8 - ?left) (take ?left src) (iv ctx) = (d, v)" by fastforce
  have head: "cfb_stream enc ctx (take ?left src) =
      (d, ctx\<lparr>iv := v, bufleft := ?left - length (take ?left src)\<rparr>)"
    using assms dv by (intro cfb_stream_in_block) simp_all
  show ?thesis
  proof (cases "length src \<le> ?left")
    case True
    then show ?thesis using dv head by (simp add: cfb_crypt_def Let_def)
  next
    case False
    then have "drop ?left src \<noteq> []" by simp
    then have tail: "cfb_blocks (inner_loop enc) (ctx\<lparr>iv := v\<rparr>) (drop ?left src) =
        cfb_stream enc (ctx\<lparr>iv := v, bufleft := 0\<rparr>) (drop ?left src)"
      by (simp add: cfb_blocks_stream)
    have "cfb_stream enc ctx (take ?left src @ drop ?left src) =
        (let (b, c2) = cfb_stream enc (ctx\<lparr>iv := v, bufleft := 0\<rparr>) (drop ?left src) in (d @ b, c2))"
      unfolding cfb_stream_append using head False by (simp add: min_def)
    with False dv tail show ?thesis by (simp add: cfb_crypt_def Let_def)
  qed
qed

lemma Encrypt_stream: "bufleft ctx \<le> 8 \<Longrightarrow> IdeaCfbEncrypt ctx src = cfb_stream True ctx src"
  using cfb_crypt_stream [of ctx True src] by (simp add: IdeaCfbEncrypt_def inner_loop_def)

lemma Decrypt_stream: "bufleft ctx \<le> 8 \<Longrightarrow> IdeaCfbDecrypt ctx src = cfb_stream False ctx src"
  using cfb_crypt_stream [of ctx False src] by (simp add: IdeaCfbDecrypt_def inner_loop_def)

lemma cfb_byte_roundtrip: "cfb_byte True ctx x = (y, c) \<Longrightarrow> cfb_byte False ctx y = (x, c)"
  by (auto simp: cfb_byte_def Let_def xor.assoc [symmetric])

lemma cfb_stream_roundtrip: "cfb_stream True ctx xs = (ys, c) \<Longrightarrow> cfb_stream False ctx ys = (xs, c)"
proof (induction xs arbitrary: ctx ys)
  case (Cons x xs)
  then show ?case
    by (auto simp: Let_def split: prod.splits dest!: cfb_byte_roundtrip)
qed simp

lemma cfb_stream_oldcipher:
  "bufleft ctx = 0 \<Longrightarrow> fst (cfb_stream enc (ctx\<lparr>oldcipher := v\<rparr>) xs) = fst (cfb_stream enc ctx xs)"
  by (cases xs) (simp_all add: cfb_byte_def)

lemma cfb_byte_bufleft: "bufleft ctx \<le> 8 \<Longrightarrow> bufleft (snd (cfb_byte enc ctx x)) \<le> 8"
  by (auto simp: cfb_byte_def Let_def)

lemma cfb_stream_bufleft: "bufleft ctx \<le> 8 \<Longrightarrow> bufleft (snd (cfb_stream enc ctx xs)) \<le> 8"
  by (induction xs arbitrary: ctx) (auto simp: Let_def split_beta cfb_byte_bufleft)

lemma Crypt_inverse:
  "fst (Crypt key (fst (Crypt key src True cfb)) False cfb') = src"
proof -
  let ?c = "IdeaCfbSync (IdeaCfbInit key cfb)"
  have init: "IdeaCfbSync (IdeaCfbInit key cfb) = IdeaCfbInit key cfb" "bufleft (IdeaCfbInit key cfb) = 0"
    for cfb by (simp_all add: IdeaCfbSync_def IdeaCfbInit_def IdeaCfbReinit_def)
  have same: "IdeaCfbInit key cfb' = (IdeaCfbInit key cfb)\<lparr>oldcipher := oldcipher cfb'\<rparr>"
    by (simp add: IdeaCfbInit_def IdeaCfbReinit_def)
  obtain ys c1 where ys: "cfb_stream True (IdeaCfbInit key cfb) src = (ys, c1)" by fastforce
  then have "fst (cfb_stream False (IdeaCfbInit key cfb') ys) = src"
    using cfb_stream_roundtrip [OF ys] by (simp add: same cfb_stream_oldcipher init)
  with ys show ?thesis by (simp add: Crypt_def init Encrypt_stream Decrypt_stream)
qed

lemma length_cfb_stream: "length (fst (cfb_stream enc ctx xs)) = length xs"
  by (induction xs arbitrary: ctx) (simp_all add: Let_def split_beta)

lemma length_Crypt: "length (fst (Crypt key src enc cfb)) = length src"
  by (simp add: Crypt_def Let_def IdeaCfbSync_def IdeaCfbInit_def IdeaCfbReinit_def Encrypt_stream Decrypt_stream
      length_cfb_stream)

section \<open>What the module promises\<close>

text \<open>The standard schedule: subkey \<open>n\<close> is 16 consecutive bits of the user key, read cyclically.\<close>

definition subkey :: "uchar list \<Rightarrow> nat \<Rightarrow> ushort" where
  "subkey userkey n =
     horner_sum of_bool 2
       (map (\<lambda>b. key_bit userkey ((25 * (n div 8) + 16 * (n mod 8) + (15 - b)) mod 128)) [0..<16])"

text \<open>the key schedule of \<open>IdeaExpandKey\<close>, which the code computes in place with a moving pointer and masks, is
  the standard one: subkey \<open>n\<close> holds the 16 bits of the user key from position \<open>25 (n div 8) + 16 (n mod 8)\<close> on,
  modulo 128, so that each group of eight subkeys reads the key rotated 25 bits further.\<close>

theorem idea_key_schedule:
  "IdeaExpandKey userkey = map (subkey userkey) [0..<IDEAKEYLEN]"
proof (rule nth_equalityI)
  fix n
  assume "n < length (IdeaExpandKey userkey)"
  then have n: "n < IDEAKEYLEN" by simp
  have "IdeaExpandKey userkey ! n = subkey userkey n"
  proof (rule bit_word_eqI)
    fix b
    assume "b < LENGTH(16)"
    have "15 - b < 16" by simp
    with n have "bit (IdeaExpandKey userkey ! n) (15 - (15 - b)) =
        key_bit userkey ((25 * (n div 8) + 16 * (n mod 8) + (15 - b)) mod 128)"
      using IdeaExpandKey_bits [of userkey] by blast
    with \<open>b < LENGTH(16)\<close> show "bit (IdeaExpandKey userkey ! n) b = bit (subkey userkey n) b"
      by (simp add: subkey_def bit_horner_sum_bit_word_iff del: upt_Suc)
  qed
  with n show "IdeaExpandKey userkey ! n = map (subkey userkey) [0..<IDEAKEYLEN] ! n" by simp
qed simp

text \<open>\<open>IdeaInvertKey\<close> succeeds on the schedule of every user key (no inverse divides by zero) and gives the
  decryption key: \<open>IdeaCipher\<close> under it takes the ciphertext of any eight-byte block back to the block.\<close>

theorem idea_decipher_encipher:
  assumes "length blk = 8"
  shows "\<exists>DK. IdeaInvertKey (IdeaExpandKey userkey) = Some DK \<and>
    IdeaCipher (IdeaCipher blk (IdeaExpandKey userkey)) DK = blk"
proof -
  let ?EK = "IdeaExpandKey userkey"
  obtain DK where "IdeaInvertKey ?EK = Some DK" "idea_words DK (idea_words ?EK (words_of blk)) = words_of blk"
    using words_decipher_encipher [of ?EK "words_of blk"] by auto
  then show ?thesis by (simp add: IdeaCipher_eq bytes_of_words [OF assms])
qed

theorem idea_decipher_encipher_witness:
  "\<exists>DK. IdeaInvertKey (IdeaExpandKey (replicate 16 7)) = Some DK \<and>
    IdeaCipher (IdeaCipher [1, 2, 3, 4, 5, 6, 7, 8] (IdeaExpandKey (replicate 16 7))) DK = [1, 2, 3, 4, 5, 6, 7, 8]"
  by (rule idea_decipher_encipher) simp

text \<open>C36: \<open>Crypt\<close> to decrypt undoes \<open>Crypt\<close> to encrypt under the same key, for messages of every length, whatever
  the context held before either call: a message of another session leaves nothing behind.\<close>

theorem idea_crypt_roundtrip:
  "fst (Crypt key (fst (Crypt key src True cfb)) False cfb') = src"
  by (rule Crypt_inverse)

text \<open>the routines written for speed, with their block loop, keep exactly what a byte-wise cipher would:
  encrypting a message in two calls gives the bytes and the context that one call gives, wherever it is cut,
  and so does decrypting.\<close>

theorem idea_cfb_chunks:
  assumes "bufleft ctx \<le> 8"
  shows "IdeaCfbEncrypt ctx (xs @ ys) =
      (let (a, c1) = IdeaCfbEncrypt ctx xs; (b, c2) = IdeaCfbEncrypt c1 ys in (a @ b, c2)) \<and>
    IdeaCfbDecrypt ctx (xs @ ys) =
      (let (a, c1) = IdeaCfbDecrypt ctx xs; (b, c2) = IdeaCfbDecrypt c1 ys in (a @ b, c2))"
  using assms cfb_stream_bufleft [of ctx]
  by (simp add: Encrypt_stream Decrypt_stream cfb_stream_append Let_def split_beta)

theorem idea_cfb_chunks_witness:
  "let ctx = \<lparr>oldcipher = replicate 8 0, iv = [1, 2, 3, 4, 5, 6, 7, 8], cfbKey = replicate 52 0, bufleft = 3\<rparr>
   in IdeaCfbEncrypt ctx ([9, 9] @ [7]) =
      (let (a, c1) = IdeaCfbEncrypt ctx [9, 9]; (b, c2) = IdeaCfbEncrypt c1 [7] in (a @ b, c2))"
  unfolding Let_def [of "\<lparr>oldcipher = _, iv = _, cfbKey = _, bufleft = _\<rparr>"]
  by (rule conjunct1 [OF idea_cfb_chunks]) simp

end
