(* ===== verification/Bank_MD5.thy ===== *)
theory Bank_MD5
  imports Bank_Prelude
begin

unbundle bit_operations_syntax

text \<open>
  The MD5 digest of the bank example (\<open>src/49/ABCBank/Public/MD5.h\<close>, \<open>MD5.cpp\<close>), on a little-endian host, where
  \<open>byteReverse\<close> does nothing, and with 64-bit pointers. The second half states RFC 1321 and proves that the code
  computes it.
\<close>

section \<open>The code\<close>

type_synonym md5_state = "word32 \<times> word32 \<times> word32 \<times> word32"

record MD5Context =
  md5Buf :: md5_state
  md5Bits :: "word32 \<times> word32"
  md5In :: "uchar list"

definition MD5Init :: "MD5Context \<Rightarrow> MD5Context" where
  "MD5Init ctx = ctx\<lparr>md5Buf := (0x67452301, 0xefcdab89, 0x98badcfe, 0x10325476), md5Bits := (0, 0)\<rparr>"

definition F1 :: "word32 \<Rightarrow> word32 \<Rightarrow> word32 \<Rightarrow> word32" where
  "F1 x y z = z XOR (x AND (y XOR z))"

definition F2 :: "word32 \<Rightarrow> word32 \<Rightarrow> word32 \<Rightarrow> word32" where
  "F2 x y z = F1 z x y"

definition F3 :: "word32 \<Rightarrow> word32 \<Rightarrow> word32 \<Rightarrow> word32" where
  "F3 x y z = x XOR y XOR z"

definition F4 :: "word32 \<Rightarrow> word32 \<Rightarrow> word32 \<Rightarrow> word32" where
  "F4 x y z = y XOR (x OR NOT z)"

text \<open>The new value of \<open>w\<close>.\<close>

definition MD5STEP :: "(word32 \<Rightarrow> word32 \<Rightarrow> word32 \<Rightarrow> word32) \<Rightarrow> word32 \<Rightarrow> word32 \<Rightarrow> word32 \<Rightarrow> word32 \<Rightarrow> word32 \<Rightarrow> nat \<Rightarrow>
    word32" where
  "MD5STEP f w x y z data s =
     (let w = w + (f x y z + data); w = push_bit s w OR drop_bit (32 - s) w in w + x)"

definition MD5Transform :: "md5_state \<Rightarrow> word32 list \<Rightarrow> md5_state" where
  "MD5Transform st words =
     (case st of (a0, b0, c0, d0) \<Rightarrow>
        let a = a0; b = b0; c = c0; d = d0;
          a = MD5STEP F1 a b c d (words ! 0 + 0xd76aa478) 7;
          d = MD5STEP F1 d a b c (words ! 1 + 0xe8c7b756) 12;
          c = MD5STEP F1 c d a b (words ! 2 + 0x242070db) 17;
          b = MD5STEP F1 b c d a (words ! 3 + 0xc1bdceee) 22;
          a = MD5STEP F1 a b c d (words ! 4 + 0xf57c0faf) 7;
          d = MD5STEP F1 d a b c (words ! 5 + 0x4787c62a) 12;
          c = MD5STEP F1 c d a b (words ! 6 + 0xa8304613) 17;
          b = MD5STEP F1 b c d a (words ! 7 + 0xfd469501) 22;
          a = MD5STEP F1 a b c d (words ! 8 + 0x698098d8) 7;
          d = MD5STEP F1 d a b c (words ! 9 + 0x8b44f7af) 12;
          c = MD5STEP F1 c d a b (words ! 10 + 0xffff5bb1) 17;
          b = MD5STEP F1 b c d a (words ! 11 + 0x895cd7be) 22;
          a = MD5STEP F1 a b c d (words ! 12 + 0x6b901122) 7;
          d = MD5STEP F1 d a b c (words ! 13 + 0xfd987193) 12;
          c = MD5STEP F1 c d a b (words ! 14 + 0xa679438e) 17;
          b = MD5STEP F1 b c d a (words ! 15 + 0x49b40821) 22;
          a = MD5STEP F2 a b c d (words ! 1 + 0xf61e2562) 5;
          d = MD5STEP F2 d a b c (words ! 6 + 0xc040b340) 9;
          c = MD5STEP F2 c d a b (words ! 11 + 0x265e5a51) 14;
          b = MD5STEP F2 b c d a (words ! 0 + 0xe9b6c7aa) 20;
          a = MD5STEP F2 a b c d (words ! 5 + 0xd62f105d) 5;
          d = MD5STEP F2 d a b c (words ! 10 + 0x02441453) 9;
          c = MD5STEP F2 c d a b (words ! 15 + 0xd8a1e681) 14;
          b = MD5STEP F2 b c d a (words ! 4 + 0xe7d3fbc8) 20;
          a = MD5STEP F2 a b c d (words ! 9 + 0x21e1cde6) 5;
          d = MD5STEP F2 d a b c (words ! 14 + 0xc33707d6) 9;
          c = MD5STEP F2 c d a b (words ! 3 + 0xf4d50d87) 14;
          b = MD5STEP F2 b c d a (words ! 8 + 0x455a14ed) 20;
          a = MD5STEP F2 a b c d (words ! 13 + 0xa9e3e905) 5;
          d = MD5STEP F2 d a b c (words ! 2 + 0xfcefa3f8) 9;
          c = MD5STEP F2 c d a b (words ! 7 + 0x676f02d9) 14;
          b = MD5STEP F2 b c d a (words ! 12 + 0x8d2a4c8a) 20;
          a = MD5STEP F3 a b c d (words ! 5 + 0xfffa3942) 4;
          d = MD5STEP F3 d a b c (words ! 8 + 0x8771f681) 11;
          c = MD5STEP F3 c d a b (words ! 11 + 0x6d9d6122) 16;
          b = MD5STEP F3 b c d a (words ! 14 + 0xfde5380c) 23;
          a = MD5STEP F3 a b c d (words ! 1 + 0xa4beea44) 4;
          d = MD5STEP F3 d a b c (words ! 4 + 0x4bdecfa9) 11;
          c = MD5STEP F3 c d a b (words ! 7 + 0xf6bb4b60) 16;
          b = MD5STEP F3 b c d a (words ! 10 + 0xbebfbc70) 23;
          a = MD5STEP F3 a b c d (words ! 13 + 0x289b7ec6) 4;
          d = MD5STEP F3 d a b c (words ! 0 + 0xeaa127fa) 11;
          c = MD5STEP F3 c d a b (words ! 3 + 0xd4ef3085) 16;
          b = MD5STEP F3 b c d a (words ! 6 + 0x04881d05) 23;
          a = MD5STEP F3 a b c d (words ! 9 + 0xd9d4d039) 4;
          d = MD5STEP F3 d a b c (words ! 12 + 0xe6db99e5) 11;
          c = MD5STEP F3 c d a b (words ! 15 + 0x1fa27cf8) 16;
          b = MD5STEP F3 b c d a (words ! 2 + 0xc4ac5665) 23;
          a = MD5STEP F4 a b c d (words ! 0 + 0xf4292244) 6;
          d = MD5STEP F4 d a b c (words ! 7 + 0x432aff97) 10;
          c = MD5STEP F4 c d a b (words ! 14 + 0xab9423a7) 15;
          b = MD5STEP F4 b c d a (words ! 5 + 0xfc93a039) 21;
          a = MD5STEP F4 a b c d (words ! 12 + 0x655b59c3) 6;
          d = MD5STEP F4 d a b c (words ! 3 + 0x8f0ccc92) 10;
          c = MD5STEP F4 c d a b (words ! 10 + 0xffeff47d) 15;
          b = MD5STEP F4 b c d a (words ! 1 + 0x85845dd1) 21;
          a = MD5STEP F4 a b c d (words ! 8 + 0x6fa87e4f) 6;
          d = MD5STEP F4 d a b c (words ! 15 + 0xfe2ce6e0) 10;
          c = MD5STEP F4 c d a b (words ! 6 + 0xa3014314) 15;
          b = MD5STEP F4 b c d a (words ! 13 + 0x4e0811a1) 21;
          a = MD5STEP F4 a b c d (words ! 4 + 0xf7537e82) 6;
          d = MD5STEP F4 d a b c (words ! 11 + 0xbd3af235) 10;
          c = MD5STEP F4 c d a b (words ! 2 + 0x2ad7d2bb) 15;
          b = MD5STEP F4 b c d a (words ! 9 + 0xeb86d391) 21
        in (a0 + a, b0 + b, c0 + c, d0 + d))"

text \<open>\<open>MD5Transform(ctx->buf, (word32 * ) ctx->in)\<close>.\<close>

definition transform_in :: "md5_state \<Rightarrow> uchar list \<Rightarrow> md5_state" where
  "transform_in st bs = MD5Transform st (map (load32 bs) [0..<16])"

text \<open>The loop over whole blocks; the result also holds the bytes left over.\<close>

function update_blocks :: "md5_state \<Rightarrow> uchar list \<Rightarrow> uchar list \<Rightarrow> md5_state \<times> uchar list \<times> uchar list" where
  "update_blocks st inb bs =
     (if length bs \<ge> 64
      then update_blocks (transform_in st (put_at 0 (take 64 bs) inb)) (put_at 0 (take 64 bs) inb) (drop 64 bs)
      else (st, inb, bs))"
  by auto
termination by (relation "measure (\<lambda>(st, inb, bs). length bs)") auto

declare update_blocks.simps [simp del]

definition MD5Update :: "MD5Context \<Rightarrow> uchar list \<Rightarrow> MD5Context" where
  "MD5Update ctx bs =
     (let len = of_nat (length bs) :: word32;
          t = fst (md5Bits ctx);
          bits0 = t + push_bit 3 len;
          bits1 = (if bits0 < t then snd (md5Bits ctx) + 1 else snd (md5Bits ctx)) + drop_bit 29 len;
          ctx1 = ctx\<lparr>md5Bits := (bits0, bits1)\<rparr>;
          n = unat (drop_bit 3 t AND 0x3f)
      in if n \<noteq> 0 \<and> length bs < 64 - n
         then ctx1\<lparr>md5In := put_at n bs (md5In ctx1)\<rparr>
         else let (st, inb, rest) =
                (if n \<noteq> 0
                 then let inb1 = put_at n (take (64 - n) bs) (md5In ctx1)
                      in (transform_in (md5Buf ctx1) inb1, inb1, drop (64 - n) bs)
                 else (md5Buf ctx1, md5In ctx1, bs));
                  (st', inb', rest') = update_blocks st inb rest
              in ctx1\<lparr>md5Buf := st', md5In := put_at 0 rest' inb'\<rparr>)"

text \<open>The digest and the context after the final \<open>memset(ctx, 0, sizeof(ctx))\<close>, which clears as many bytes as a
  pointer has.\<close>

definition MD5Final :: "MD5Context \<Rightarrow> uchar list \<times> MD5Context" where
  "MD5Final ctx =
     (let count = unat (drop_bit 3 (fst (md5Bits ctx)) AND 0x3F);
          inb = put_at count [0x80] (md5In ctx);
          left = 64 - 1 - count;
          (st, inb) =
            (if left < 8
             then (transform_in (md5Buf ctx) (put_at (count + 1) (replicate left 0) inb),
                   put_at 0 (replicate 56 0) (put_at (count + 1) (replicate left 0) inb))
             else (md5Buf ctx, put_at (count + 1) (replicate (left - 8) 0) inb));
          inb = put_at 60 (store32 (snd (md5Bits ctx))) (put_at 56 (store32 (fst (md5Bits ctx))) inb);
          (a, b, c, d) = transform_in st inb
      in (store32 a @ store32 b @ store32 c @ store32 d,
          ctx\<lparr>md5Buf := (0, 0, c, d), md5In := inb\<rparr>))"

text \<open>\<open>ctx\<close> is a local variable that holds what the stack held.\<close>

definition MD5Make :: "MD5Context \<Rightarrow> uchar list \<Rightarrow> uchar list" where
  "MD5Make ctx bs = fst (MD5Final (MD5Update (MD5Init ctx) bs))"

section \<open>RFC 1321\<close>

definition md5_K :: "word32 list" where
  "md5_K =
    [0xd76aa478, 0xe8c7b756, 0x242070db, 0xc1bdceee, 0xf57c0faf, 0x4787c62a,
     0xa8304613, 0xfd469501, 0x698098d8, 0x8b44f7af, 0xffff5bb1, 0x895cd7be,
     0x6b901122, 0xfd987193, 0xa679438e, 0x49b40821, 0xf61e2562, 0xc040b340,
     0x265e5a51, 0xe9b6c7aa, 0xd62f105d, 0x02441453, 0xd8a1e681, 0xe7d3fbc8,
     0x21e1cde6, 0xc33707d6, 0xf4d50d87, 0x455a14ed, 0xa9e3e905, 0xfcefa3f8,
     0x676f02d9, 0x8d2a4c8a, 0xfffa3942, 0x8771f681, 0x6d9d6122, 0xfde5380c,
     0xa4beea44, 0x4bdecfa9, 0xf6bb4b60, 0xbebfbc70, 0x289b7ec6, 0xeaa127fa,
     0xd4ef3085, 0x04881d05, 0xd9d4d039, 0xe6db99e5, 0x1fa27cf8, 0xc4ac5665,
     0xf4292244, 0x432aff97, 0xab9423a7, 0xfc93a039, 0x655b59c3, 0x8f0ccc92,
     0xffeff47d, 0x85845dd1, 0x6fa87e4f, 0xfe2ce6e0, 0xa3014314, 0x4e0811a1,
     0xf7537e82, 0xbd3af235, 0x2ad7d2bb, 0xeb86d391]"

definition md5_F :: "nat \<Rightarrow> word32 \<Rightarrow> word32 \<Rightarrow> word32 \<Rightarrow> word32" where
  "md5_F i x y z =
     (if i < 16 then (x AND y) OR (NOT x AND z)
      else if i < 32 then (x AND z) OR (y AND NOT z)
      else if i < 48 then x XOR y XOR z
      else y XOR (x OR NOT z))"

definition md5_g :: "nat \<Rightarrow> nat" where
  "md5_g i = (if i < 16 then i else if i < 32 then (5 * i + 1) mod 16 else if i < 48 then (3 * i + 5) mod 16 else 7 * i mod 16)"

definition md5_s :: "nat \<Rightarrow> nat" where
  "md5_s i = [[7, 12, 17, 22], [5, 9, 14, 20], [4, 11, 16, 23], [6, 10, 15, 21]] ! (i div 16) ! (i mod 4)"

definition md5_round :: "word32 list \<Rightarrow> nat \<Rightarrow> md5_state \<Rightarrow> md5_state" where
  "md5_round M i st =
     (case st of (a, b, c, d) \<Rightarrow> (d, b + word_rotl (md5_s i) (a + md5_F i b c d + M ! md5_g i + md5_K ! i), b, c))"

definition md5_compress :: "md5_state \<Rightarrow> uchar list \<Rightarrow> md5_state" where
  "md5_compress st blk =
     (case (st, fold (md5_round (map (load32 blk) [0..<16])) [0..<64] st) of
        ((a0, b0, c0, d0), (a, b, c, d)) \<Rightarrow> (a0 + a, b0 + b, c0 + c, d0 + d))"

definition md5_pad :: "uchar list \<Rightarrow> uchar list" where
  "md5_pad msg =
     msg @ [0x80] @ replicate ((119 - length msg mod 64) mod 64) 0 @
     map (\<lambda>i. of_nat (8 * length msg div 256 ^ i)) [0..<8]"

function md5_blocks :: "md5_state \<Rightarrow> uchar list \<Rightarrow> md5_state" where
  "md5_blocks st bs = (if length bs \<ge> 64 then md5_blocks (md5_compress st (take 64 bs)) (drop 64 bs) else st)"
  by auto
termination by (relation "measure (\<lambda>(st, bs). length bs)") auto

declare md5_blocks.simps [simp del]

definition md5 :: "uchar list \<Rightarrow> uchar list" where
  "md5 msg =
     (case md5_blocks (0x67452301, 0xefcdab89, 0x98badcfe, 0x10325476) (md5_pad msg) of
        (a, b, c, d) \<Rightarrow> store32 a @ store32 b @ store32 c @ store32 d)"

section \<open>The unrolled rounds\<close>

definition md5_row :: "nat \<Rightarrow> (word32 \<Rightarrow> word32 \<Rightarrow> word32 \<Rightarrow> word32) \<times> nat \<times> word32 \<times> nat" where
  "md5_row i = (md5_F i, md5_g i, md5_K ! i, md5_s i)"

definition md5_apply :: "word32 list \<Rightarrow> (word32 \<Rightarrow> word32 \<Rightarrow> word32 \<Rightarrow> word32) \<times> nat \<times> word32 \<times> nat \<Rightarrow>
    md5_state \<Rightarrow> md5_state" where
  "md5_apply M r st = (case (r, st) of ((f, g, k, s), (a, b, c, d)) \<Rightarrow> (d, MD5STEP f a b c d (M ! g + k) s, b, c))"

lemma F_eqs:
  "F1 = md5_F 0" "F2 = md5_F 16" "F3 = md5_F 32" "F4 = md5_F 48"
  by (intro ext bit_word_eqI; auto simp: F1_def F2_def F3_def F4_def md5_F_def bit_xor_iff bit_and_iff
      bit_or_iff bit_not_iff)+

lemma md5_F_eqs:
  "i < 16 \<Longrightarrow> md5_F i = F1" "16 \<le> i \<Longrightarrow> i < 32 \<Longrightarrow> md5_F i = F2" "32 \<le> i \<Longrightarrow> i < 48 \<Longrightarrow> md5_F i = F3"
  "48 \<le> i \<Longrightarrow> md5_F i = F4"
  by (simp_all add: F_eqs md5_F_def fun_eq_iff)

lemma rotl_eq:
  assumes "0 < s" "s < 32"
  shows "push_bit s w OR drop_bit (32 - s) w = word_rotl s (w :: word32)"
proof (rule bit_word_eqI)
  fix n
  assume n: "n < LENGTH(32)"
  show "bit (push_bit s w OR drop_bit (32 - s) w) n = bit (word_rotl s w) n"
  proof (cases "s \<le> n")
    case True
    have "n + 32 - s = (n - s) + 32" using assms True by simp
    then have "(n + 32 - s) mod 32 = (n - s) mod 32" by (simp only: mod_add_self2)
    with n have m: "(n + 32 - s) mod 32 = n - s" by simp
    show ?thesis using True n assms m
      by (auto simp: bit_or_iff bit_push_bit_iff bit_drop_bit_eq bit_word_rotl_iff dest: bit_imp_le_length)
  next
    case False
    then have "(n + 32 - s) mod 32 = n + 32 - s" using n assms by simp
    moreover have "n + 32 - s = 32 + n - s" by (simp only: add.commute)
    ultimately show ?thesis using False n assms
      by (simp add: bit_or_iff bit_push_bit_iff bit_drop_bit_eq bit_word_rotl_iff)
  qed
qed

lemma md5_s_range: "i < 64 \<Longrightarrow> 0 < md5_s i \<and> md5_s i < 32"
proof -
  assume "i < 64"
  then have "i div 16 \<in> {0, 1, 2, 3}" "i mod 4 \<in> {0, 1, 2, 3}" by auto
  then show ?thesis by (auto simp: md5_s_def)
qed

lemma md5_rows:
  "map md5_row [0..<64] =
     [(F1, 0, 0xd76aa478, 7), (F1, 1, 0xe8c7b756, 12), (F1, 2, 0x242070db, 17),
      (F1, 3, 0xc1bdceee, 22), (F1, 4, 0xf57c0faf, 7), (F1, 5, 0x4787c62a, 12),
      (F1, 6, 0xa8304613, 17), (F1, 7, 0xfd469501, 22), (F1, 8, 0x698098d8, 7),
      (F1, 9, 0x8b44f7af, 12), (F1, 10, 0xffff5bb1, 17), (F1, 11, 0x895cd7be, 22),
      (F1, 12, 0x6b901122, 7), (F1, 13, 0xfd987193, 12), (F1, 14, 0xa679438e, 17),
      (F1, 15, 0x49b40821, 22), (F2, 1, 0xf61e2562, 5), (F2, 6, 0xc040b340, 9),
      (F2, 11, 0x265e5a51, 14), (F2, 0, 0xe9b6c7aa, 20), (F2, 5, 0xd62f105d, 5),
      (F2, 10, 0x02441453, 9), (F2, 15, 0xd8a1e681, 14), (F2, 4, 0xe7d3fbc8, 20),
      (F2, 9, 0x21e1cde6, 5), (F2, 14, 0xc33707d6, 9), (F2, 3, 0xf4d50d87, 14),
      (F2, 8, 0x455a14ed, 20), (F2, 13, 0xa9e3e905, 5), (F2, 2, 0xfcefa3f8, 9),
      (F2, 7, 0x676f02d9, 14), (F2, 12, 0x8d2a4c8a, 20), (F3, 5, 0xfffa3942, 4),
      (F3, 8, 0x8771f681, 11), (F3, 11, 0x6d9d6122, 16), (F3, 14, 0xfde5380c, 23),
      (F3, 1, 0xa4beea44, 4), (F3, 4, 0x4bdecfa9, 11), (F3, 7, 0xf6bb4b60, 16),
      (F3, 10, 0xbebfbc70, 23), (F3, 13, 0x289b7ec6, 4), (F3, 0, 0xeaa127fa, 11),
      (F3, 3, 0xd4ef3085, 16), (F3, 6, 0x04881d05, 23), (F3, 9, 0xd9d4d039, 4),
      (F3, 12, 0xe6db99e5, 11), (F3, 15, 0x1fa27cf8, 16), (F3, 2, 0xc4ac5665, 23),
      (F4, 0, 0xf4292244, 6), (F4, 7, 0x432aff97, 10), (F4, 14, 0xab9423a7, 15),
      (F4, 5, 0xfc93a039, 21), (F4, 12, 0x655b59c3, 6), (F4, 3, 0x8f0ccc92, 10),
      (F4, 10, 0xffeff47d, 15), (F4, 1, 0x85845dd1, 21), (F4, 8, 0x6fa87e4f, 6),
      (F4, 15, 0xfe2ce6e0, 10), (F4, 6, 0xa3014314, 15), (F4, 13, 0x4e0811a1, 21),
      (F4, 4, 0xf7537e82, 6), (F4, 11, 0xbd3af235, 10), (F4, 2, 0x2ad7d2bb, 15),
      (F4, 9, 0xeb86d391, 21)]"
  by (simp add: upt_rec md5_row_def md5_F_eqs md5_g_def md5_s_def md5_K_def)

lemma md5_round_apply: "i < 64 \<Longrightarrow> md5_round M i st = md5_apply M (md5_row i) st"
  using md5_s_range [of i]
  by (cases st) (simp add: md5_round_def md5_apply_def md5_row_def MD5STEP_def Let_def rotl_eq add_ac)

lemma md5_rounds_apply: "fold (md5_round M) [0..<64] st = fold (md5_apply M) (map md5_row [0..<64]) st"
  unfolding fold_map comp_def by (intro fold_cong refl) (simp add: fun_eq_iff md5_round_apply)

lemma md5_apply_step:
  "fold (md5_apply M) ((f, g, k, s) # rows) (a, b, c, d) =
     (let a' = MD5STEP f a b c d (M ! g + k) s in fold (md5_apply M) rows (d, a', b, c))"
  by (simp add: md5_apply_def)

lemma md5_apply_end: "fold (md5_apply M) [] st = st"
  by simp

lemma md5_let_case: "(case (let x = e in h x) of (a, b, c, d) \<Rightarrow> t a b c d) = (let x = e in case h x of (a, b, c, d) \<Rightarrow> t a b c d)"
  by simp

lemma transform_compress: "transform_in st blk = md5_compress st blk"
proof (cases st)
  case (fields a0 b0 c0 d0)
  show ?thesis
    unfolding md5_compress_def transform_in_def MD5Transform_def md5_rounds_apply md5_rows fields prod.case
    by (simp only: md5_apply_step md5_let_case md5_apply_end prod.case Let_def [of a0] Let_def [of b0]
        Let_def [of c0] Let_def [of d0])
qed

section \<open>The blocks and the counter\<close>

lemma md5_blocks_append:
  "64 dvd length bs \<Longrightarrow> md5_blocks st (bs @ cs) = md5_blocks (md5_blocks st bs) cs"
proof (induction st bs rule: md5_blocks.induct)
  case (1 st bs)
  show ?case
  proof (cases "length bs \<ge> 64")
    case True
    then have "md5_blocks st (bs @ cs) = md5_blocks (md5_compress st (take 64 bs)) (drop 64 bs @ cs)"
      "md5_blocks st bs = md5_blocks (md5_compress st (take 64 bs)) (drop 64 bs)"
      by (subst md5_blocks.simps; simp)+
    with 1 True show ?thesis by (simp add: dvd_diff_nat)
  next
    case False
    with 1(2) have "bs = []" by (metis dvd_imp_le length_greater_0_conv)
    then show ?thesis by (simp add: md5_blocks.simps [of st "[]"])
  qed
qed

lemma md5_blocks_short [simp]: "length bs < 64 \<Longrightarrow> md5_blocks st bs = st"
  by (simp add: md5_blocks.simps)

lemma md5_blocks_one: "length bs = 64 \<Longrightarrow> md5_blocks st bs = md5_compress st bs"
  by (subst md5_blocks.simps) simp

text \<open>The bytes that fill whole blocks, and those after them.\<close>

definition whole :: "uchar list \<Rightarrow> uchar list" where
  "whole bs = take (64 * (length bs div 64)) bs"

definition tail :: "uchar list \<Rightarrow> uchar list" where
  "tail bs = drop (64 * (length bs div 64)) bs"

lemma whole_tail [simp]: "whole bs @ tail bs = bs"
  by (simp add: whole_def tail_def)

lemma length_tail: "length (tail bs) = length bs mod 64"
  by (simp add: tail_def minus_mult_div_eq_mod)

lemma length_whole: "64 dvd length (whole bs)"
proof -
  have "64 * (length bs div 64) \<le> length bs" by simp
  then have "length (whole bs) = 64 * (length bs div 64)" by (simp only: whole_def length_take min_absorb2)
  then show ?thesis by simp
qed

lemma whole_unique:
  assumes "64 dvd length xs" "length ys < 64"
  shows "whole (xs @ ys) = xs" "tail (xs @ ys) = ys"
proof -
  from assms(1) obtain k where "length xs = 64 * k" by (rule dvdE)
  then have "64 * (length (xs @ ys) div 64) = length xs" using assms(2) by simp
  then show "whole (xs @ ys) = xs" "tail (xs @ ys) = ys" by (simp_all add: whole_def tail_def)
qed

lemma update_blocks_spec:
  "length inb = 64 \<Longrightarrow> \<exists>inb'. update_blocks st inb bs = (md5_blocks st (whole bs), inb', tail bs) \<and> length inb' = 64"
proof (induction st inb bs rule: update_blocks.induct)
  case (1 st inb bs)
  show ?case
  proof (cases "length bs \<ge> 64")
    case True
    have len: "length (take 64 bs) = 64" using True by simp
    have w: "whole bs = take 64 bs @ whole (drop 64 bs)" "tail bs = tail (drop 64 bs)"
      using whole_unique [of "take 64 bs @ whole (drop 64 bs)" "tail (drop 64 bs)"] True
        length_whole [of "drop 64 bs"] length_tail [of "drop 64 bs"] by simp_all
    have "md5_blocks st (whole bs) = md5_blocks (transform_in st (take 64 bs)) (whole (drop 64 bs))"
      unfolding w(1) transform_compress using md5_blocks_append [of "take 64 bs" st] md5_blocks_one [OF len] len by simp
    with 1 True len w(2) show ?thesis
      by (subst update_blocks.simps) (simp add: put_at_0)
  next
    case False
    then have "whole bs = []" "tail bs = bs" using whole_unique [of "[]" bs] by simp_all
    with False 1(2) show ?thesis by (subst update_blocks.simps) simp
  qed
qed

text \<open>The two counter words are the low and the high half of the number of bits.\<close>

lemma counter_step:
  fixes n k :: nat
  assumes "k < 2 ^ 32"
  defines "t \<equiv> of_nat (8 * n) :: word32" and "h \<equiv> of_nat (8 * n div 2 ^ 32) :: word32"
    and "len \<equiv> of_nat k :: word32"
  shows "t + push_bit 3 len = of_nat (8 * (n + k))"
    and "(if of_nat (8 * (n + k)) < t then h + 1 else h) + drop_bit 29 len = of_nat (8 * (n + k) div 2 ^ 32)"
proof -
  show sum: "t + push_bit 3 len = of_nat (8 * (n + k))"
    by (simp add: t_def len_def push_bit_eq_mult distrib_left)
  let ?a = "8 * n mod 2 ^ 32" and ?b = "8 * k mod 2 ^ 32"
  have ut: "unat t = ?a" unfolding t_def unat_of_nat by simp
  have us: "unat (t + push_bit 3 len) = (?a + ?b) mod 2 ^ 32"
    unfolding sum unat_of_nat by (simp add: distrib_left mod_add_eq)
  have ab: "?a < 2 ^ 32" "?b < 2 ^ 32" by simp_all
  have less: "t + push_bit 3 len < t \<longleftrightarrow> 2 ^ 32 \<le> ?a + ?b"
  proof (cases "?a + ?b < 2 ^ 32")
    case True
    then show ?thesis unfolding word_less_nat_alt ut us by simp
  next
    case False
    then have "(?a + ?b) mod 2 ^ 32 = ?a + ?b - 2 ^ 32" using ab by (simp add: le_mod_geq)
    with False ab show ?thesis unfolding word_less_nat_alt ut us by linarith
  qed
  have carry: "(?a + ?b) div 2 ^ 32 = (if 2 ^ 32 \<le> ?a + ?b then 1 else 0)"
    using ab by (cases "?a + ?b < 2 ^ 32") (simp_all add: le_div_geq)
  have "8 * (n + k) div 2 ^ 32 = 8 * n div 2 ^ 32 + 8 * k div 2 ^ 32 + (?a + ?b) div 2 ^ 32"
    unfolding distrib_left by (rule div_add1_eq)
  also have "8 * k div 2 ^ 32 = k div 2 ^ 29" by simp
  finally have split: "8 * (n + k) div 2 ^ 32 = 8 * n div 2 ^ 32 + k div 2 ^ 29 + (?a + ?b) div 2 ^ 32" .
  have high: "drop_bit 29 len = of_nat (k div 2 ^ 29)"
  proof -
    have "unat len = k" unfolding len_def unat_of_nat using assms(1) by simp
    then have "unat (drop_bit 29 len) = k div 2 ^ 29"
      unfolding unat_drop_bit_eq by (simp only: drop_bit_eq_div)
    then have "of_nat (unat (drop_bit 29 len)) = (of_nat (k div 2 ^ 29) :: word32)" by (simp only:)
    then show ?thesis by (simp only: of_nat_unat ucast_id)
  qed
  show "(if of_nat (8 * (n + k)) < t then h + 1 else h) + drop_bit 29 len = of_nat (8 * (n + k) div 2 ^ 32)"
  proof (cases "2 ^ 32 \<le> ?a + ?b")
    case True
    then show ?thesis
      unfolding split carry less [unfolded sum] high h_def by (simp only: if_True of_nat_add of_nat_1 add_ac)
  next
    case False
    then show ?thesis
      unfolding split carry less [unfolded sum] high h_def by (simp only: if_False add_0_right of_nat_add)
  qed
qed

lemma low_bits: "unat (drop_bit 3 w AND 0x3F) = unat (w :: word32) div 8 mod 64"
proof -
  have "drop_bit 3 w AND 0x3F = take_bit 6 (drop_bit 3 w)"
    by (simp add: take_bit_eq_mask mask_eq_exp_minus_1)
  then have "unat (drop_bit 3 w AND 0x3F) = take_bit 6 (drop_bit 3 (unat w))"
    by (simp only: unsigned_take_bit_eq unat_drop_bit_eq)
  then show ?thesis unfolding drop_bit_eq_div take_bit_eq_mod by simp
qed

lemma counter_bytes: "unat (drop_bit 3 (of_nat (8 * n) :: word32) AND 0x3F) = n mod 64"
proof -
  have "unat (of_nat (8 * n) :: word32) = 8 * n mod 2 ^ 32" unfolding unat_of_nat by simp
  also have "8 * n mod 2 ^ 32 = 8 * (n mod 2 ^ 29)"
    using mult_mod_right [of 8 n "2 ^ 29"] by simp
  finally have "unat (drop_bit 3 (of_nat (8 * n) :: word32) AND 0x3F) = 8 * (n mod 2 ^ 29) div 8 mod 64"
    unfolding low_bits by simp
  also have "\<dots> = n mod 64"
    using mod_mod_cancel [of "64" "2 ^ 29 :: nat" n] by simp
  finally show ?thesis .
qed

section \<open>The context stands for the message so far\<close>

abbreviation md5_iv :: md5_state where
  "md5_iv \<equiv> (0x67452301, 0xefcdab89, 0x98badcfe, 0x10325476)"

definition md5_abs :: "MD5Context \<Rightarrow> uchar list \<Rightarrow> bool" where
  "md5_abs ctx m \<longleftrightarrow>
     md5Bits ctx = (of_nat (8 * length m), of_nat (8 * length m div 2 ^ 32)) \<and>
     md5Buf ctx = md5_blocks md5_iv (whole m) \<and> length (md5In ctx) = 64 \<and>
     take (length m mod 64) (md5In ctx) = tail m"

lemma md5_abs_Init: "length (md5In ctx) = 64 \<Longrightarrow> md5_abs (MD5Init ctx) []"
  by (simp add: md5_abs_def MD5Init_def whole_def tail_def)

text \<open>A block completed from the bytes kept and the head of the new ones.\<close>

lemma fill_block:
  assumes "md5_abs ctx m" "length m mod 64 + length xs = 64"
  shows "put_at (length m mod 64) xs (md5In ctx) = tail m @ xs"
    and "transform_in (md5Buf ctx) (tail m @ xs) = md5_blocks md5_iv (m @ xs)"
    and "64 dvd length (m @ xs)"
proof -
  have len: "length (tail m @ xs) = 64" using assms(2) by (simp add: length_tail)
  show "put_at (length m mod 64) xs (md5In ctx) = tail m @ xs"
    using assms by (simp add: md5_abs_def put_at_def)
  have split: "m @ xs = whole m @ (tail m @ xs)" by (simp flip: append_assoc)
  have "md5_blocks md5_iv (whole m @ (tail m @ xs)) = md5_compress (md5_blocks md5_iv (whole m)) (tail m @ xs)"
    using len length_whole [of m] by (simp only: md5_blocks_append md5_blocks_one)
  then show "transform_in (md5Buf ctx) (tail m @ xs) = md5_blocks md5_iv (m @ xs)"
    using assms(1) unfolding split by (simp add: md5_abs_def transform_compress)
  have "length (m @ xs) = length (whole m) + 64" unfolding split using len by simp
  then show "64 dvd length (m @ xs)" using length_whole [of m] by (simp only: dvd_add dvd_refl)
qed

lemma md5_abs_intro:
  assumes "64 dvd length pre" "pre @ rest = m" "length inb = 64"
    and "update_blocks (md5_blocks md5_iv pre) inb rest = (st, inb', rest')"
    and "md5Bits ctx = (of_nat (8 * length m), of_nat (8 * length m div 2 ^ 32))"
  shows "md5_abs (ctx\<lparr>md5Buf := st, md5In := put_at 0 rest' inb'\<rparr>) m"
proof -
  have st: "st = md5_blocks (md5_blocks md5_iv pre) (whole rest)" "rest' = tail rest" "length inb' = 64"
    using update_blocks_spec [OF assms(3), of "md5_blocks md5_iv pre" rest] assms(4) by auto
  have short: "length (tail rest) < 64" by (simp add: length_tail)
  have "whole (pre @ rest) = pre @ whole rest \<and> tail (pre @ rest) = tail rest"
    using whole_unique [of "pre @ whole rest" "tail rest"] short assms(1) length_whole [of rest] by simp
  then have wt: "whole m = pre @ whole rest" "tail m = tail rest" unfolding assms(2) by simp_all
  then have "length (tail rest) = length m mod 64" using length_tail [of m] by simp
  then show ?thesis
    using wt st short assms(1,5) by (simp add: md5_abs_def md5_blocks_append put_at_def)
qed

lemma md5_abs_Update:
  assumes abs: "md5_abs ctx m" and len: "length bs < 2 ^ 32"
  shows "md5_abs (MD5Update ctx bs) (m @ bs)"
proof -
  let ?n = "length m mod 64"
  let ?bits = "(of_nat (8 * length (m @ bs)), of_nat (8 * length (m @ bs) div 2 ^ 32)) :: word32 \<times> word32"
  let ?ctx = "ctx\<lparr>md5Bits := ?bits\<rparr>"
  have bits: "md5Bits ctx = (of_nat (8 * length m), of_nat (8 * length m div 2 ^ 32))"
    using abs by (simp add: md5_abs_def)
  note count = counter_step [OF len, of "length m"] counter_bytes [of "length m"]
  show ?thesis
  proof (cases "?n \<noteq> 0 \<and> length bs < 64 - ?n")
    case True
    have "MD5Update ctx bs = ?ctx\<lparr>md5In := put_at ?n bs (md5In ctx)\<rparr>"
      using True unfolding MD5Update_def Let_def bits fst_conv snd_conv count length_append
      by (simp only: if_True simp_thms) simp
    moreover have "length (tail m @ bs) < 64" using True by (simp add: length_tail less_diff_conv add.commute)
    then have "whole (whole m @ (tail m @ bs)) = whole m \<and> tail (whole m @ (tail m @ bs)) = tail m @ bs"
      using whole_unique [of "whole m" "tail m @ bs"] length_whole [of m] by simp
    then have wt: "whole (m @ bs) = whole m" "tail (m @ bs) = tail m @ bs" by (simp_all flip: append_assoc)
    moreover have "length (m @ bs) mod 64 = ?n + length bs"
      using length_tail [of "m @ bs"] length_tail [of m] unfolding wt by simp
    ultimately show ?thesis using abs True by (simp add: md5_abs_def take_put_at)
  next
    case False
    show ?thesis
    proof (cases "?n = 0")
      case True
      obtain st inb' rest' where u: "update_blocks (md5_blocks md5_iv m) (md5In ctx) bs = (st, inb', rest')"
        by (metis prod_cases3)
      have dvd: "64 dvd length m" using True by (simp only: dvd_eq_mod_eq_0)
      then have "whole m = m" using whole_unique [of m "[]"] by simp
      with True abs u have "MD5Update ctx bs = ?ctx\<lparr>md5Buf := st, md5In := put_at 0 rest' inb'\<rparr>"
        unfolding MD5Update_def Let_def bits fst_conv snd_conv count length_append by (simp add: md5_abs_def)
      moreover have "length (md5In ctx) = 64" using abs by (simp add: md5_abs_def)
      from md5_abs_intro [OF dvd refl this u, of ?ctx]
      have "md5_abs (?ctx\<lparr>md5Buf := st, md5In := put_at 0 rest' inb'\<rparr>) (m @ bs)" by simp
      ultimately show ?thesis by (simp only:)
    next
      case n: False
      let ?xs = "take (64 - ?n) bs" and ?rest = "drop (64 - ?n) bs"
      obtain st inb' rest' where u: "update_blocks (md5_blocks md5_iv (m @ ?xs)) (tail m @ ?xs) ?rest = (st, inb', rest')"
        by (metis prod_cases3)
      have full: "?n + length ?xs = 64" using False n by simp
      note fill = fill_block [OF abs full]
      have "MD5Update ctx bs = ?ctx\<lparr>md5Buf := st, md5In := put_at 0 rest' inb'\<rparr>"
        using False n u fill unfolding MD5Update_def Let_def bits fst_conv snd_conv count length_append by simp
      moreover have "length (tail m @ ?xs) = 64" "(m @ ?xs) @ ?rest = m @ bs"
        using full by (simp_all add: length_tail)
      from md5_abs_intro [OF fill(3) this(2,1) u, of ?ctx]
      have "md5_abs (?ctx\<lparr>md5Buf := st, md5In := put_at 0 rest' inb'\<rparr>) (m @ bs)" by simp
      ultimately show ?thesis by (simp only:)
    qed
  qed
qed

lemma byte_of_nat: "i < 4 \<Longrightarrow> ucast (drop_bit (8 * i) (of_nat x :: word32)) = (of_nat (x div 256 ^ i) :: uchar)"
proof (rule bit_word_eqI)
  fix k
  assume "i < 4" "k < LENGTH(8)"
  moreover have "x div 256 ^ i = drop_bit (8 * i) x" by (simp add: drop_bit_eq_div power_mult)
  ultimately show "bit (ucast (drop_bit (8 * i) (of_nat x :: word32)) :: uchar) k = bit (of_nat (x div 256 ^ i) :: uchar) k"
    by (simp add: bit_unsigned_iff bit_drop_bit_eq bit_of_nat_iff)
qed

lemma store_counter:
  "store32 (of_nat x) @ store32 (of_nat (x div 2 ^ 32)) = map (\<lambda>i. of_nat (x div 256 ^ i)) [0..<8]"
proof -
  have lo: "store32 (of_nat y) = map (\<lambda>i. of_nat (y div 256 ^ i)) [0..<4]" for y
    using byte_of_nat [of 0 y] byte_of_nat [of 1 y] byte_of_nat [of 2 y] byte_of_nat [of 3 y]
    by (simp add: store32_def upt_rec)
  have "map (\<lambda>i. of_nat (x div 2 ^ 32 div 256 ^ i)) [0..<4] = map (\<lambda>i. of_nat (x div 256 ^ i) :: uchar) [4..<8]"
    by (simp add: upt_rec div_mult2_eq [symmetric])
  moreover have "[0..<8] = [0..<4] @ [4..<8 :: nat]" using upt_add_eq_append [of 0 4 4] by simp
  ultimately show ?thesis unfolding lo by (simp only: map_append)
qed

lemma put_two: "length v = 64 \<Longrightarrow> length x = 4 \<Longrightarrow> length y = 4 \<Longrightarrow>
    put_at 60 y (put_at 56 x v) = take 56 v @ x @ y"
  by (simp add: put_at_def)

lemma put_three: "length z = 56 \<Longrightarrow> length v = 64 \<Longrightarrow> length x = 4 \<Longrightarrow> length y = 4 \<Longrightarrow>
    put_at 60 y (put_at 56 x (put_at 0 z v)) = z @ x @ y"
  by (subst put_two) (simp_all add: put_at_def)

lemma MD5Final_digest:
  assumes abs: "md5_abs ctx m"
  shows "fst (MD5Final ctx) = md5 m"
proof -
  let ?n = "length m mod 64" and ?lo = "store32 (of_nat (8 * length m))"
    and ?hi = "store32 (of_nat (8 * length m div 2 ^ 32))"
  let ?in = "put_at ?n [0x80] (md5In ctx)"
  have bits: "md5Bits ctx = (of_nat (8 * length m), of_nat (8 * length m div 2 ^ 32))"
    and len: "length (md5In ctx) = 64" using abs by (simp_all add: md5_abs_def)
  have n: "?n < 64" by simp
  have start: "take (?n + 1) ?in = tail m @ [0x80]" and lin: "length ?in = 64"
    using abs n take_put_at [of ?n "[0x80]" "md5In ctx"] by (simp_all add: md5_abs_def)
  have pad: "put_at (?n + 1) xs ?in = tail m @ [0x80] @ xs @ drop (?n + 1 + length xs) ?in" for xs
    unfolding put_at_def [of "?n + 1"] start by simp
  have padded: "md5_pad m = m @ [0x80] @ replicate ((119 - ?n) mod 64) 0 @ ?lo @ ?hi"
    unfolding md5_pad_def store_counter ..
  obtain a b c d where fin: "md5_blocks md5_iv (md5_pad m) = (a, b, c, d)" by (metis prod_cases4)
  show ?thesis
  proof (cases "64 - 1 - ?n < 8")
    case True
    let ?zs = "replicate (64 - 1 - ?n) (0 :: uchar)"
    have one: "put_at (?n + 1) ?zs ?in = tail m @ ([0x80] @ ?zs)" unfolding pad using n lin by simp
    have l: "length (put_at (?n + 1) ?zs ?in) = 64" unfolding one using n by (simp add: length_tail)
    have two: "put_at 60 ?hi (put_at 56 ?lo (put_at 0 (replicate 56 0) (put_at (?n + 1) ?zs ?in))) =
        replicate 56 0 @ ?lo @ ?hi"
      by (rule put_three) (simp_all only: length_replicate l length_store32)
    note fill = fill_block [OF abs, of "[0x80] @ ?zs"]
    have "(119 - ?n) mod 64 = (64 - 1 - ?n) + 56" using True n by simp
    then have "replicate ((119 - ?n) mod 64) 0 = ?zs @ replicate 56 0" by (simp only: replicate_add)
    then have "md5_pad m = (m @ [0x80] @ ?zs) @ (replicate 56 0 @ ?lo @ ?hi)"
      unfolding padded by (simp only: append_assoc)
    moreover have "length (replicate 56 0 @ ?lo @ ?hi) = 64" by (simp only: length_append length_replicate length_store32)
    moreover have dvd: "64 dvd length (m @ [0x80] @ ?zs)" and t1: "transform_in (md5Buf ctx) (tail m @ [0x80] @ ?zs) =
        md5_blocks md5_iv (m @ [0x80] @ ?zs)"
      using fill(2,3) n by simp_all
    ultimately have "transform_in (md5_blocks md5_iv (m @ [0x80] @ ?zs)) (replicate 56 0 @ ?lo @ ?hi) = (a, b, c, d)"
      using fin by (simp only: transform_compress md5_blocks_append md5_blocks_one)
    then show ?thesis
      unfolding MD5Final_def Let_def bits fst_conv snd_conv counter_bytes if_P [OF True] prod.case two
      unfolding one t1 using fin by (simp only: prod.case fst_conv md5_def)
  next
    case False
    let ?zs = "replicate (64 - 1 - ?n - 8) (0 :: uchar)"
    have l: "length (put_at (?n + 1) ?zs ?in) = 64" using lin n by simp
    have two: "put_at 60 ?hi (put_at 56 ?lo (put_at (?n + 1) ?zs ?in)) = tail m @ ([0x80] @ ?zs @ ?lo @ ?hi)"
    proof -
      have "length (tail m @ [0x80] @ ?zs) = 56" using False n by (simp add: length_tail)
      then have "take 56 ((tail m @ [0x80] @ ?zs) @ xs) = tail m @ [0x80] @ ?zs" for xs
        by (metis append_eq_conv_conj)
      then have "take 56 (put_at (?n + 1) ?zs ?in) = tail m @ [0x80] @ ?zs" unfolding pad by (simp only: append_assoc)
      then show ?thesis using l by (simp only: put_two length_store32 append_assoc)
    qed
    note fill = fill_block [OF abs, of "[0x80] @ ?zs @ ?lo @ ?hi"]
    have "(119 - ?n) mod 64 = 64 - 1 - ?n - 8" using False n by (simp add: le_mod_geq)
    then have "md5_pad m = m @ [0x80] @ ?zs @ ?lo @ ?hi" unfolding padded by simp
    then have "transform_in (md5Buf ctx) (tail m @ [0x80] @ ?zs @ ?lo @ ?hi) = (a, b, c, d)"
      using fill(2) fin False n by simp
    then show ?thesis
      unfolding MD5Final_def Let_def bits fst_conv snd_conv counter_bytes if_not_P [OF False] prod.case two
      using fin by (simp only: prod.case fst_conv md5_def)
  qed
qed

section \<open>What the module promises\<close>

text \<open>The test vector of the RFC for \<open>abc\<close>, evaluated round by round.\<close>

lemma md5_abc: "md5 [97, 98, 99] =
    [0x90, 0x01, 0x50, 0x98, 0x3c, 0xd2, 0x4f, 0xb0, 0xd6, 0x96, 0x3f, 0x7d, 0x28, 0xe1, 0x7f, 0x72]"
proof -
  have step: "fold (md5_apply M) ((f, g, k, s) # rows) (a, b, c, d) =
      fold (md5_apply M) rows (d, MD5STEP f a b c d (M ! g + k) s, b, c)" for M f g k s rows a b c d
    by (simp add: md5_apply_def)
  have words: "map (load32 (md5_pad [97, 98, 99])) [0..<16] = [0x80636261, 0, 0, 0, 0, 0, 0, 0, 0, 0, 0, 0, 0, 0, 24, 0]"
    by (simp add: md5_pad_def load32_def upt_rec nth_append)
  have len: "length (md5_pad [97, 98, 99]) = 64" by (simp add: md5_pad_def)
  show ?thesis
    unfolding md5_def md5_blocks_one [OF len] md5_compress_def words md5_rounds_apply md5_rows
    by (simp add: step MD5STEP_def F1_def F2_def F3_def F4_def Let_def store32_def md5_apply_end
        del: fold_simps fold_Cons fold.simps)
qed

text \<open>C37: \<open>MD5Make\<close> computes the MD5 digest of RFC 1321 (padding, 64-bit length, 64 rounds given by their index and
  shift formulas) for every message whose length fits the \<open>unsigned\<close> argument, whatever the stack held in the
  buffer of the local context.\<close>

theorem md5_make_rfc:
  assumes "length msg < 2 ^ 32" "length (md5In junk) = 64"
  shows "MD5Make junk msg = md5 msg"
  using MD5Final_digest [OF md5_abs_Update [OF md5_abs_Init [OF assms(2)] assms(1)]]
  by (simp add: MD5Make_def)

theorem md5_make_rfc_witness:
  "MD5Make \<lparr>md5Buf = (1, 2, 3, 4), md5Bits = (5, 6), md5In = replicate 64 7\<rparr> [97, 98, 99] =
    [0x90, 0x01, 0x50, 0x98, 0x3c, 0xd2, 0x4f, 0xb0, 0xd6, 0x96, 0x3f, 0x7d, 0x28, 0xe1, 0x7f, 0x72]"
  by (subst md5_make_rfc) (simp_all only: md5_abc length_replicate MD5Context.select_convs, simp)

lemma md5_abs_fold:
  "md5_abs ctx m \<Longrightarrow> list_all (\<lambda>bs. length bs < 2 ^ 32) parts \<Longrightarrow>
   md5_abs (fold (\<lambda>bs c. MD5Update c bs) parts ctx) (m @ concat parts)"
proof (induction parts arbitrary: ctx m)
  case (Cons bs parts)
  then show ?case using Cons.IH [OF md5_abs_Update [of ctx m bs]] by simp
qed simp

text \<open>\<open>MD5Update\<close> does not depend on how the message is cut: any sequence of calls followed by \<open>MD5Final\<close> gives
  the digest of the concatenation, also when the total length no longer fits 32 bits.\<close>

theorem md5_update_chunks:
  assumes "list_all (\<lambda>bs. length bs < 2 ^ 32) parts" "length (md5In junk) = 64"
  shows "fst (MD5Final (fold (\<lambda>bs c. MD5Update c bs) parts (MD5Init junk))) = md5 (concat parts)"
  using MD5Final_digest [OF md5_abs_fold [OF md5_abs_Init [OF assms(2)] assms(1)]] by simp

theorem md5_update_chunks_witness:
  "let junk = \<lparr>md5Buf = (1, 2, 3, 4), md5Bits = (5, 6), md5In = replicate 64 7\<rparr>;
       parts = [replicate 60 1, [], replicate 10 2, [3, 4]]
   in fst (MD5Final (fold (\<lambda>bs c. MD5Update c bs) parts (MD5Init junk))) = md5 (concat parts)"
  unfolding Let_def by (rule md5_update_chunks) simp_all

end
