(* ===== verification/Bank_Session.thy ===== *)
theory Bank_Session
  imports Bank_Streams Bank_Idea Bank_MD5
begin

unbundle bit_operations_syntax

text \<open>
  The sessions of the bank example: \<open>Socket::SendN\<close> and \<open>RecvN\<close>, \<open>BankSession::Recv\<close> of server and client, the
  check sum at the end of every packet and the key that encrypts passwords.

  \<open>None\<close> is an abnormal end: an access outside an array or a failed assertion. A C++ exception is a value
  (\<open>Inl\<close>). The uninitialised local variables of type \<open>MD5\<close> and \<open>Idea\<close> are given some content; neither digest nor
  cipher depends on it.
\<close>

section \<open>Sockets\<close>

text \<open>What \<open>recv\<close> will deliver: the pieces in which the bytes of the peer arrive, none of them empty; after them
  the connection is closed, or reset, which is an error.\<close>

record conn =
  chunks :: "uchar list list"
  reset :: bool

definition SOCKET_ERROR :: int where
  "SOCKET_ERROR = - 1"

definition sock_recv :: "nat \<Rightarrow> conn \<Rightarrow> int \<times> uchar list \<times> conn" where
  "sock_recv n c =
     (case chunks c of
        [] \<Rightarrow> (if reset c then SOCKET_ERROR else 0, [], c)
      | x # xs \<Rightarrow>
          if length x \<le> n then (int (length x), x, c\<lparr>chunks := xs\<rparr>)
          else (int n, take n x, c\<lparr>chunks := drop n x # xs\<rparr>))"

lemma sock_recv_ret: "sock_recv n c = (r, bs, c1) \<Longrightarrow> r \<noteq> SOCKET_ERROR \<Longrightarrow> r \<noteq> 0 \<Longrightarrow> n > 0 \<Longrightarrow> 0 < r"
  by (auto simp: sock_recv_def split: list.splits if_splits)

text \<open>The loop of \<open>RecvN\<close>; the middle component is what has been written to the buffer.\<close>

function recvn_loop :: "nat \<Rightarrow> nat \<Rightarrow> uchar list \<Rightarrow> conn \<Rightarrow> int \<times> uchar list \<times> conn" where
  "recvn_loop len nLeft p c =
     (if nLeft > 0
      then case sock_recv nLeft c of (nRead, bs, c1) \<Rightarrow>
             if nRead = SOCKET_ERROR then (nRead, p, c1)
             else if nRead = 0 then (nRead, p, c1)
             else recvn_loop len (nLeft - nat nRead) (p @ bs) c1
      else (int (len - nLeft), p, c))"
  by auto

termination
proof (relation "measure (\<lambda>(len, nLeft, p, c). nLeft)", goal_cases)
  case (2 len nLeft p c r y bs c1)
  then have "0 < r" using sock_recv_ret [of nLeft c r bs c1] by simp
  with 2(1) show ?case by simp
qed simp

declare recvn_loop.simps [simp del]

definition RecvN :: "nat \<Rightarrow> conn \<Rightarrow> int \<times> uchar list \<times> conn" where
  "RecvN len c = recvn_loop len len [] c"

text \<open>\<open>SendN\<close>: the numbers \<open>send\<close> returns, one for each call; it never returns more than it was given.\<close>

fun sendn_loop :: "nat \<Rightarrow> int list \<Rightarrow> uchar list \<Rightarrow> uchar list \<Rightarrow> (int \<times> uchar list) option" where
  "sendn_loop len ans [] sent = Some (int len, sent)"
| "sendn_loop len [] p sent = None"
| "sendn_loop len (nWritten # ans) p sent =
     (if nWritten = SOCKET_ERROR then Some (nWritten, sent)
      else sendn_loop len ans (drop (nat nWritten) p) (sent @ take (nat nWritten) p))"

definition SendN :: "int list \<Rightarrow> uchar list \<Rightarrow> (int \<times> uchar list) option" where
  "SendN ans buf = sendn_loop (length buf) ans buf []"

section \<open>Check sum and key\<close>

definition local_md5 :: MD5Context where
  "local_md5 = \<lparr>md5Buf = (0, 0, 0, 0), md5Bits = (0, 0), md5In = replicate 64 0\<rparr>"

definition local_idea :: IdeaCfbContext where
  "local_idea = \<lparr>oldcipher = replicate 8 0, iv = replicate 8 0, cfbKey = [], bufleft = 0\<rparr>"

text \<open>\<open>(cmd >> (i % 2)) & 0xff\<close>.\<close>

definition cmd_mask :: "ushort \<Rightarrow> nat \<Rightarrow> uchar" where
  "cmd_mask cmd i = ucast (drop_bit (i mod 2) cmd AND 0xff)"

definition tail_hash :: "ushort \<Rightarrow> uchar list \<Rightarrow> uchar list" where
  "tail_hash cmd bs =
     take 8 (fold (\<lambda>i hash.
         let hash = hash[i := hash ! i XOR hash ! (i + 8)]
         in hash[i := hash ! i XOR cmd_mask cmd i]) [0..<8] (MD5Make local_md5 bs))"

definition idea_key :: "ushort \<Rightarrow> uchar list" where
  "idea_key cmd =
     (let buf = [ucast (drop_bit 8 cmd AND 0xff), ucast (cmd AND 0xff)]
      in fold (\<lambda>i k.
           let k = k[i := k ! i XOR k ! (i + 8)];
               k = k[i := k ! i XOR cmd_mask cmd i];
               k = k[i + 8 := k ! i XOR k ! (i + 8)]
           in k[i + 8 := k ! (i + 8) XOR cmd_mask cmd i]) [0..<8] (MD5Make local_md5 buf))"

definition encrypt16 :: "ushort \<Rightarrow> uchar list \<Rightarrow> uchar list" where
  "encrypt16 cmd bs = fst (Crypt (idea_key cmd) bs True local_idea)"

definition decrypt16 :: "ushort \<Rightarrow> uchar list \<Rightarrow> uchar list" where
  "decrypt16 cmd bs = fst (Crypt (idea_key cmd) bs False local_idea)"

section \<open>The server's session\<close>

datatype exn = PeerClosed | BadLength | BadPacket | DbError

definition sizeof_RequestHead :: nat where
  "sizeof_RequestHead = 4"

definition sizeof_ResponseHead :: nat where
  "sizeof_ResponseHead = 40"

text \<open>\<open>requestPack_\<close> points to \<open>buffer_\<close>: the head is its first four bytes, \<open>buf\<close> the rest.\<close>

record BankSession =
  isDead :: bool
  sessConn :: conn
  sessBuffer :: "uchar list"

definition BankSession_new :: "conn \<Rightarrow> uchar list \<Rightarrow> BankSession" where
  "BankSession_new c mem = \<lparr>isDead = False, sessConn = c, sessBuffer = mem\<rparr>"

definition Kill :: "BankSession \<Rightarrow> BankSession" where
  "Kill s = s\<lparr>isDead := True\<rparr>"

definition head_cmd :: "uchar list \<Rightarrow> ushort" where
  "head_cmd buf = load16le buf"

definition head_len :: "uchar list \<Rightarrow> ushort" where
  "head_len buf = load16le (drop 2 buf)"

text \<open>What \<open>RecvN\<close> leaves in the buffer at an offset; bytes past its end are out of bounds.\<close>

definition recv_into :: "nat \<Rightarrow> nat \<Rightarrow> conn \<Rightarrow> uchar list \<Rightarrow> (int \<times> uchar list \<times> conn) option" where
  "recv_into ofs n c buf =
     (case RecvN n c of (ret, bs, c1) \<Rightarrow> do { buf1 \<leftarrow> copy_to buf ofs bs; Some (ret, buf1, c1) })"

text \<open>The check of the last eight bytes: \<open>MD5Make\<close> over \<open>sizeof(head) + len - 8\<close> bytes, an \<open>unsigned\<close>, then
  \<open>memcmp\<close>.\<close>

definition check_tail :: "nat \<Rightarrow> ushort \<Rightarrow> ushort \<Rightarrow> uchar list \<Rightarrow> bool option" where
  "check_tail head cmd len buf =
     (let n = unat (of_nat head + ucast len - 8 :: word32)
      in if n + 8 \<le> length buf then Some (tail_hash cmd (take n buf) = take 8 (drop n buf)) else None)"

definition session_Recv :: "BankSession \<Rightarrow> (exn + BankSession) option" where
  "session_Recv s =
     do { (ret, buf, c) \<leftarrow> recv_into 0 sizeof_RequestHead (sessConn s) (sessBuffer s);
          if ret = 0 then Some (Inl PeerClosed)
          else if ret \<noteq> int sizeof_RequestHead then Some (Inl BadLength)
          else do {
            let cmd = NetworkToHost16 (head_cmd buf);
            let len = NetworkToHost16 (head_len buf);
            (ret, buf, c) \<leftarrow> recv_into sizeof_RequestHead (unat len) c buf;
            if ret = 0 then Some (Inl PeerClosed)
            else if ret \<noteq> int (unat len) then Some (Inl BadLength)
            else do {
              good \<leftarrow> check_tail sizeof_RequestHead cmd len buf;
              if \<not> good then Some (Inl BadPacket)
              else Some (Inr (s\<lparr>sessConn := c, sessBuffer := put_at 0 (store16le cmd @ store16le len) buf\<rparr>)) } } }"

definition session_GetCmd :: "BankSession \<Rightarrow> ushort" where
  "session_GetCmd s = head_cmd (sessBuffer s)"

text \<open>\<open>JInStream jis(session.GetRequestPack()->buf, session.GetRequestPack()->head.len)\<close>.\<close>

definition request_stream :: "BankSession \<Rightarrow> JInStream option" where
  "request_stream s =
     (let len = unat (head_len (sessBuffer s))
      in if sizeof_RequestHead + len \<le> length (sessBuffer s)
         then Some (JInStream_new (take len (drop sizeof_RequestHead (sessBuffer s)))) else None)"

section \<open>The client's session\<close>

record 'd TransDetail =
  trans_date :: "uchar list"
  td_account_id :: "uchar list"
  td_other_account_id :: "uchar list"
  td_money :: 'd
  abstract_name :: "uchar list"
  td_balance :: 'd
  td_total :: word32

record 'd ClientSession =
  cliConn :: conn
  cliBuffer :: "uchar list"
  reqAttrs :: "string \<Rightarrow> uchar list option"
  rspAttrs :: "string \<Rightarrow> uchar list option"
  details :: "'d TransDetail list"
  errorCode :: ushort
  errorMsg :: "uchar list"
  cliCmd :: ushort

definition client_Recv :: "'d ClientSession \<Rightarrow> (exn + 'd ClientSession) option" where
  "client_Recv s =
     do { (ret, buf, c) \<leftarrow> recv_into 0 sizeof_ResponseHead (cliConn s) (cliBuffer s);
          if ret = 0 then Some (Inl PeerClosed)
          else if ret \<noteq> int sizeof_ResponseHead then Some (Inl BadLength)
          else do {
            let cmd = NetworkToHost16 (head_cmd buf);
            let len = NetworkToHost16 (head_len buf);
            if len = 0 then Some (Inr (s\<lparr>cliConn := c, cliBuffer := buf\<rparr>))
            else do {
              (ret, buf, c) \<leftarrow> recv_into sizeof_ResponseHead (unat len) c buf;
              if ret = 0 then Some (Inl PeerClosed)
              else if ret \<noteq> int (unat len) then Some (Inl BadLength)
              else do {
                good \<leftarrow> check_tail sizeof_ResponseHead cmd len buf;
                if \<not> good then Some (Inl BadPacket)
                else Some (Inr (s\<lparr>cliConn := c, cliBuffer := put_at 0 (store16le cmd @ store16le len) buf\<rparr>)) } } } }"

definition client_Clear :: "'d ClientSession \<Rightarrow> 'd ClientSession" where
  "client_Clear s = s\<lparr>reqAttrs := Map.empty, rspAttrs := Map.empty, errorCode := 0\<rparr>"

definition SetResponse :: "string \<Rightarrow> uchar list \<Rightarrow> 'd ClientSession \<Rightarrow> 'd ClientSession" where
  "SetResponse k v s = s\<lparr>rspAttrs := (rspAttrs s)(k \<mapsto> v)\<rparr>"

text \<open>\<open>operator[]\<close> gives the empty string for a missing key.\<close>

definition GetResponse :: "string \<Rightarrow> 'd ClientSession \<Rightarrow> uchar list" where
  "GetResponse k s = (case rspAttrs s k of Some v \<Rightarrow> v | None \<Rightarrow> [])"

definition SetAttribute :: "string \<Rightarrow> uchar list \<Rightarrow> 'd ClientSession \<Rightarrow> 'd ClientSession" where
  "SetAttribute k v s = s\<lparr>reqAttrs := (reqAttrs s)(k \<mapsto> v)\<rparr>"

definition GetAttribute :: "string \<Rightarrow> 'd ClientSession \<Rightarrow> uchar list" where
  "GetAttribute k s = (case reqAttrs s k of Some v \<Rightarrow> v | None \<Rightarrow> [])"

definition AddDetail :: "'d TransDetail \<Rightarrow> 'd ClientSession \<Rightarrow> 'd ClientSession" where
  "AddDetail td s = s\<lparr>details := details s @ [td]\<rparr>"

text \<open>\<open>JInStream jis((const char*)session.GetResponsePack(), head.len + sizeof(ResponseHead))\<close>.\<close>

definition response_bytes :: "'d ClientSession \<Rightarrow> uchar list option" where
  "response_bytes s =
     (let len = unat (head_len (cliBuffer s)) + sizeof_ResponseHead
      in if len \<le> length (cliBuffer s) then Some (take len (cliBuffer s)) else None)"

section \<open>What the sockets deliver\<close>

definition conn_ok :: "conn \<Rightarrow> bool" where
  "conn_ok c \<longleftrightarrow> [] \<notin> set (chunks c)"

abbreviation coming :: "conn \<Rightarrow> uchar list" where
  "coming c \<equiv> concat (chunks c)"

lemma coming_empty: "conn_ok c \<Longrightarrow> coming c = [] \<longleftrightarrow> chunks c = []"
  by (cases "chunks c") (auto simp: conn_ok_def)

text \<open>One call of \<open>recv\<close> while bytes are coming.\<close>

lemma sock_recv_some:
  assumes "conn_ok c" "coming c \<noteq> []" "0 < n"
  obtains k c1 where "sock_recv n c = (int k, take k (coming c), c1)" "0 < k" "k \<le> n" "k \<le> length (coming c)"
    "conn_ok c1" "coming c1 = drop k (coming c)" "reset c1 = reset c"
proof -
  from assms(1,2) obtain x xs where c: "chunks c = x # xs" "x \<noteq> []" "[] \<notin> set xs"
    by (cases "chunks c") (auto simp: conn_ok_def)
  show ?thesis
  proof (cases "length x \<le> n")
    case True
    then show ?thesis using c that [of "length x" "c\<lparr>chunks := xs\<rparr>"] by (simp add: sock_recv_def conn_ok_def)
  next
    case False
    then show ?thesis
      using c assms(3) that [of n "c\<lparr>chunks := drop n x # xs\<rparr>"] by (simp add: sock_recv_def conn_ok_def)
  qed
qed

lemma recvn_loop_all:
  "conn_ok c \<Longrightarrow> n \<le> length (coming c) \<Longrightarrow> n \<le> len \<Longrightarrow> length p + n = len \<Longrightarrow>
   \<exists>c1. recvn_loop len n p c = (int len, p @ take n (coming c), c1) \<and> conn_ok c1 \<and> coming c1 = drop n (coming c) \<and>
     reset c1 = reset c"
proof (induction n arbitrary: p c rule: less_induct)
  case (less n)
  show ?case
  proof (cases "n = 0")
    case True
    then show ?thesis using less.prems by (subst recvn_loop.simps) simp
  next
    case False
    then have "0 < length (coming c)" using less.prems(2) by linarith
    then have "coming c \<noteq> []" by (rule length_greater_0_conv [THEN iffD1])
    then obtain k c1 where k: "sock_recv n c = (int k, take k (coming c), c1)" "0 < k" "k \<le> n" "k \<le> length (coming c)"
      "conn_ok c1" "coming c1 = drop k (coming c)" "reset c1 = reset c"
      using sock_recv_some [of c n] less.prems(1) False by blast
    have "\<exists>c2. recvn_loop len (n - k) (p @ take k (coming c)) c1 =
        (int len, (p @ take k (coming c)) @ take (n - k) (coming c1), c2) \<and>
        conn_ok c2 \<and> coming c2 = drop (n - k) (coming c1) \<and> reset c2 = reset c1"
      using k less.prems by (intro less.IH) auto
    moreover have "take k (coming c) @ take (n - k) (drop k (coming c)) = take n (coming c)"
      using k(3) take_add [of k "n - k" "coming c"] by simp
    moreover have "recvn_loop len n p c = recvn_loop len (n - k) (p @ take k (coming c)) c1"
      using False k(1,2) by (subst recvn_loop.simps) (simp add: SOCKET_ERROR_def)
    ultimately show ?thesis using k by simp
  qed
qed

lemma RecvN_all:
  assumes "conn_ok c" "n \<le> length (coming c)"
  shows "\<exists>c1. RecvN n c = (int n, take n (coming c), c1) \<and> conn_ok c1 \<and> coming c1 = drop n (coming c) \<and> reset c1 = reset c"
  using recvn_loop_all [OF assms, of n "[]"] by (simp add: RecvN_def)

text \<open>When the peer stops in the middle, \<open>RecvN\<close> reports that and not a number of bytes.\<close>

lemma recvn_loop_short:
  "conn_ok c \<Longrightarrow> length (coming c) < n \<Longrightarrow>
   \<exists>c1. recvn_loop len n p c = (if reset c then SOCKET_ERROR else 0, p @ coming c, c1)"
proof (induction n arbitrary: p c rule: less_induct)
  case (less n)
  then have n: "0 < n" by auto
  show ?case
  proof (cases "coming c = []")
    case True
    then have "chunks c = []" using coming_empty less.prems by blast
    then show ?thesis using n by (subst recvn_loop.simps) (simp add: sock_recv_def SOCKET_ERROR_def)
  next
    case False
    then obtain k c1 where k: "sock_recv n c = (int k, take k (coming c), c1)" "0 < k" "k \<le> n" "k \<le> length (coming c)"
      "conn_ok c1" "coming c1 = drop k (coming c)" "reset c1 = reset c"
      using sock_recv_some [of c n] less.prems(1) n by blast
    have "\<exists>c2. recvn_loop len (n - k) (p @ take k (coming c)) c1 =
        (if reset c1 then SOCKET_ERROR else 0, (p @ take k (coming c)) @ coming c1, c2)"
      using k less.prems by (intro less.IH) auto
    moreover have "recvn_loop len n p c = recvn_loop len (n - k) (p @ take k (coming c)) c1"
      using n k(1,2) by (subst recvn_loop.simps) (simp add: SOCKET_ERROR_def)
    ultimately show ?thesis using k(6,7) by simp
  qed
qed

lemma RecvN_short:
  assumes "conn_ok c" "length (coming c) < n"
  shows "\<exists>c1. RecvN n c = (if reset c then SOCKET_ERROR else 0, coming c, c1)"
  using recvn_loop_short [OF assms, of n "[]"] by (simp add: RecvN_def)

section \<open>Packets\<close>

lemma length_store16le [simp]: "length (store16le x) = 2"
  by (simp add: store16le_def)

lemma length_tail_hash [simp]: "length (MD5Make local_md5 bs) = 16 \<Longrightarrow> length (tail_hash cmd bs) = 8"
  by (simp add: tail_hash_def upt_rec Let_def)

lemma length_MD5Make [simp]: "length (MD5Make ctx bs) = 16"
  by (simp add: MD5Make_def MD5Final_def Let_def split: prod.splits)

text \<open>A packet: the head with the command and the length of what follows it, the rest of the head, the body, and
  the check sum over all of these.\<close>

definition packet :: "nat \<Rightarrow> ushort \<Rightarrow> uchar list \<Rightarrow> uchar list" where
  "packet head cmd rest =
     (let bs = be16 cmd @ be16 (of_nat (4 + length rest + 8 - head)) @ rest in bs @ tail_hash cmd bs)"

lemma length_packet [simp]: "length (packet head cmd rest) = length rest + 12"
  by (simp add: packet_def Let_def)

lemma head_of_be [simp]:
  "NetworkToHost16 (head_cmd (be16 a @ be16 b @ r)) = a"
  "NetworkToHost16 (head_len (be16 a @ be16 b @ r)) = b"
proof -
  have "load16le (be16 a @ xs) = load16le (be16 a)" for a xs by (simp add: load16le_def be16_def)
  then show "NetworkToHost16 (head_cmd (be16 a @ be16 b @ r)) = a" "NetworkToHost16 (head_len (be16 a @ be16 b @ r)) = b"
    by (simp_all add: head_cmd_def head_len_def read_host16)
qed

lemma head_of_le [simp]:
  "head_cmd (store16le a @ store16le b @ r) = a"
  "head_len (store16le a @ store16le b @ r) = b"
proof -
  have "load16le (store16le a @ xs) = load16le (store16le a)" for a xs by (simp add: load16le_def store16le_def)
  then show "head_cmd (store16le a @ store16le b @ r) = a" "head_len (store16le a @ store16le b @ r) = b"
    by (simp_all add: head_cmd_def head_len_def)
qed

lemma put_prefix: "length xs = length ys \<Longrightarrow> put_at 0 xs (ys @ zs) = xs @ zs"
  by (simp add: put_at_def)

text \<open>Both receivers do the same in two steps: the head, then the rest.\<close>

lemma recv_into_ok:
  assumes "conn_ok c" "coming c = bs @ ms" "ofs + length bs \<le> length buf"
  shows "\<exists>c1. recv_into ofs (length bs) c buf = Some (int (length bs), put_at ofs bs buf, c1) \<and>
    conn_ok c1 \<and> coming c1 = ms \<and> reset c1 = reset c"
  using RecvN_all [OF assms(1), of "length bs"] assms(2,3)
  by (auto simp: recv_into_def copy_to_def put_at_def)

lemma check_packet:
  assumes "4 \<le> head" "head \<le> 4 + length rest" "length rest < 2 ^ 16 - 8" "head < 2 ^ 16"
    and "len = of_nat (4 + length rest + 8 - head)"
  shows "check_tail head cmd len (packet head cmd rest @ z) = Some True"
proof -
  let ?bs = "be16 cmd @ be16 (of_nat (4 + length rest + 8 - head)) @ rest"
  have "unat len = 4 + length rest + 8 - head"
    unfolding assms(5) unat_of_nat using assms(1-4) by simp
  then have "ucast len = (of_nat (4 + length rest + 8 - head) :: word32)"
    by (metis of_nat_unat)
  moreover have "of_nat head + of_nat (4 + length rest + 8 - head) = (of_nat (4 + length rest + 8) :: word32)"
    using assms(2) by (simp only: of_nat_add [symmetric]) simp
  ultimately have "of_nat head + ucast len - 8 = (of_nat (4 + length rest) :: word32)" by simp
  then have n: "unat (of_nat head + ucast len - 8 :: word32) = 4 + length rest"
    using assms(3) by (simp only: unat_of_nat) simp
  have p: "packet head cmd rest @ z = ?bs @ tail_hash cmd ?bs @ z" by (simp add: packet_def Let_def)
  have lb: "length ?bs = 4 + length rest" by simp
  have td: "take k (B @ ys) = B" "drop k (B @ ys) = ys" if "length B = k" for k and B ys :: "uchar list"
    using that by simp_all
  have "take (4 + length rest) (packet head cmd rest @ z) = ?bs"
    unfolding p by (rule td(1) [OF lb])
  moreover have "drop (4 + length rest) (packet head cmd rest @ z) = tail_hash cmd ?bs @ z"
    unfolding p by (rule td(2) [OF lb])
  ultimately show ?thesis
    unfolding check_tail_def Let_def n by simp
qed

lemma recv_into_short:
  assumes "conn_ok c" "length (coming c) < n"
  shows "\<exists>c1. recv_into ofs n c buf =
    (if ofs + length (coming c) \<le> length buf
     then Some (if reset c then SOCKET_ERROR else 0, put_at ofs (coming c) buf, c1) else None)"
  using RecvN_short [OF assms] by (auto simp: recv_into_def copy_to_def put_at_def)

lemma recv_into_long:
  assumes "conn_ok c" "n \<le> length (coming c)" "length buf < ofs + n"
  shows "recv_into ofs n c buf = None"
  using RecvN_all [OF assms(1,2)] assms by (auto simp: recv_into_def copy_to_def)

lemma recv_into_0: "ofs \<le> length buf \<Longrightarrow> recv_into ofs 0 c buf = Some (0, buf, c)"
  by (simp add: recv_into_def copy_to_def RecvN_def recvn_loop.simps)

lemma tail_position:
  "unat (of_nat 4 + ucast len - 8 :: word32) = (if unat (len :: ushort) < 4 then unat len + 4294967292 else unat len - 4)"
proof -
  have less: "unat len < 65536" using unsigned_less [of len, where 'a = nat] by simp
  have "of_nat 4 + ucast len - 8 = (ucast len - 4 :: word32)" by simp
  moreover have "unat (ucast len :: word32) = unat len"
    using less by (simp add: unsigned_ucast_eq take_bit_eq_mod)
  ultimately show ?thesis using less by (simp add: unat_sub_if')
qed

text \<open>What \<open>Recv\<close> does with a head that announces \<open>len\<close> bytes, whatever follows it.\<close>

definition recv_result :: "bool \<Rightarrow> ushort \<Rightarrow> ushort \<Rightarrow> uchar list \<Rightarrow>
    (exn + (ushort \<times> JInStream option \<times> uchar list)) option" where
  "recv_result rst cmd len body =
     (let n = unat len; frame = be16 cmd @ be16 len @ take n body
      in if n = 0 then Some (Inl PeerClosed)
         else if length body < n
         then if 4 + length body \<le> 2048 then Some (Inl (if rst then BadLength else PeerClosed)) else None
         else if n < 4 \<or> 2048 < 4 + n then None
         else if tail_hash cmd (take (n - 4) frame) = drop (n - 4) frame
         then Some (Inr (cmd, Some (JInStream_new (take n body)), drop n body))
         else Some (Inl BadPacket))"

definition recv_view :: "BankSession \<Rightarrow> ushort \<times> JInStream option \<times> uchar list" where
  "recv_view s = (session_GetCmd s, request_stream s, coming (sessConn s))"

lemma session_Recv_spec:
  assumes ok: "conn_ok (sessConn s)" and len: "length (sessBuffer s) = 2048"
    and coming: "coming (sessConn s) = be16 cmd @ be16 len @ body"
  shows "map_option (map_sum id recv_view) (session_Recv s) = recv_result (reset (sessConn s)) cmd len body"
    and "session_Recv s = Some (Inr s') \<Longrightarrow>
      conn_ok (sessConn s') \<and> reset (sessConn s') = reset (sessConn s) \<and> length (sessBuffer s') = 2048 \<and> isDead s' = isDead s"
proof -
  let ?head = "be16 cmd @ be16 len" and ?n = "unat len"
  obtain c1 where c1: "recv_into 0 4 (sessConn s) (sessBuffer s) = Some (4, ?head @ drop 4 (sessBuffer s), c1)"
    "conn_ok c1" "coming c1 = body" "reset c1 = reset (sessConn s)"
    using recv_into_ok [OF ok, of ?head body 0 "sessBuffer s"] len coming by (auto simp: put_at_def)
  let ?buf = "?head @ drop 4 (sessBuffer s)"
  have start: "session_Recv s =
      do { (ret, buf, c) \<leftarrow> recv_into 4 ?n c1 ?buf;
           if ret = 0 then Some (Inl PeerClosed)
           else if ret \<noteq> int ?n then Some (Inl BadLength)
           else do {
             good \<leftarrow> check_tail 4 cmd len buf;
             if \<not> good then Some (Inl BadPacket)
             else Some (Inr (s\<lparr>sessConn := c, sessBuffer := put_at 0 (store16le cmd @ store16le len) buf\<rparr>)) } }"
    unfolding session_Recv_def sizeof_RequestHead_def by (simp add: c1(1))
  have lbuf: "length ?buf = 2048" using len by simp
  consider "?n = 0" | "0 < ?n" "length body < ?n" | "0 < ?n" "?n \<le> length body" "2048 < 4 + ?n"
    | "0 < ?n" "?n \<le> length body" "4 + ?n \<le> 2048" by linarith
  then have "map_option (map_sum id recv_view) (session_Recv s) = recv_result (reset (sessConn s)) cmd len body \<and>
    (session_Recv s = Some (Inr s') \<longrightarrow> conn_ok (sessConn s') \<and> reset (sessConn s') = reset (sessConn s) \<and>
       length (sessBuffer s') = 2048 \<and> isDead s' = isDead s)"
  proof cases
    case 1
    then show ?thesis using lbuf by (simp add: start recv_into_0 recv_result_def Let_def)
  next
    case 2
    have "- 1 \<noteq> uint len" using uint_ge_0 [of len] by linarith
    with 2 show ?thesis
      using recv_into_short [OF c1(2), of ?n 4 ?buf] lbuf c1
      by (auto simp: start recv_result_def Let_def SOCKET_ERROR_def)
  next
    case 3
    then show ?thesis
      using recv_into_long [OF c1(2), of ?n ?buf 4] lbuf c1 by (simp add: start recv_result_def Let_def)
  next
    case 4
    let ?body = "take ?n body" and ?z = "drop (4 + ?n) (sessBuffer s)"
    let ?frame = "?head @ ?body" and ?full = "(store16le cmd @ store16le len) @ ?body @ ?z"
    have u0: "uint len \<noteq> 0"
    proof
      assume "uint len = 0"
      then have "?n = 0" by (simp only: unat_eq_nat_uint nat_0)
      with 4(1) show False by simp
    qed
    have lb: "length ?body = ?n" using 4 by simp
    have "put_at 4 ?body ?buf = ?frame @ ?z" unfolding put_at_def lb by (simp add: add.commute)
    then obtain c2 where c2: "recv_into 4 ?n c1 ?buf = Some (int ?n, ?frame @ ?z, c2)"
      "conn_ok c2" "coming c2 = drop ?n body" "reset c2 = reset (sessConn s)"
      using recv_into_ok [OF c1(2), of ?body "drop ?n body" 4 ?buf] lbuf 4 unfolding lb c1(3,4) by auto
    have lf: "length ?frame = 4 + ?n" using 4 by simp
    have lz: "length (?frame @ ?z) = 2048" using lf len 4 by simp
    have put: "put_at 0 (store16le cmd @ store16le len) (?frame @ ?z) = ?full"
      using put_prefix [of "store16le cmd @ store16le len" ?head] by simp
    show ?thesis
    proof (cases "?n < 4")
      case True
      then have "check_tail 4 cmd len (?frame @ ?z) = None"
        unfolding check_tail_def Let_def tail_position lz by simp
      then show ?thesis using True 4 c2(1) u0 by (simp add: start recv_result_def Let_def)
    next
      case False
      have le: "?n - 4 \<le> length ?frame" unfolding lf by simp
      have l8: "length (drop (?n - 4) ?frame) = 8" unfolding length_drop lf using False by simp
      have cut: "take k (F @ Z) = take k F" "length (drop k F) = 8 \<Longrightarrow> take 8 (drop k (F @ Z)) = drop k F"
        if "k \<le> length F" for k and F Z :: "uchar list"
        using that by simp_all
      have t1: "take (?n - 4) (?frame @ ?z) = take (?n - 4) ?frame"
        and t2: "take 8 (drop (?n - 4) (?frame @ ?z)) = drop (?n - 4) ?frame"
        by (rule cut [OF le]) (rule cut(2) [OF le l8])
      have small: "?n - 4 + 8 \<le> 2048" using 4 by simp
      have chk: "check_tail 4 cmd len (?frame @ ?z) =
          Some (tail_hash cmd (take (?n - 4) ?frame) = drop (?n - 4) ?frame)"
        unfolding check_tail_def Let_def tail_position if_not_P [OF False] lz if_P [OF small] t1 t2 ..
      let ?s = "s\<lparr>sessConn := c2, sessBuffer := ?full\<rparr>"
      have "recv_view ?s = (cmd, Some (JInStream_new ?body), drop ?n body)"
        using 4 len c2(3) by (simp add: recv_view_def session_GetCmd_def request_stream_def sizeof_RequestHead_def Let_def min_def)
      then show ?thesis
        using False 4 c2 len chk put u0 by (auto simp: start recv_result_def Let_def min_def)
    qed
  qed
  then show "map_option (map_sum id recv_view) (session_Recv s) = recv_result (reset (sessConn s)) cmd len body"
    "session_Recv s = Some (Inr s') \<Longrightarrow> conn_ok (sessConn s') \<and> reset (sessConn s') = reset (sessConn s) \<and>
       length (sessBuffer s') = 2048 \<and> isDead s' = isDead s" by blast+
qed

text \<open>A well-formed request packet, in whatever pieces it arrives.\<close>

lemma recv_result_packet:
  assumes "length rest \<le> 2036"
  shows "recv_result r cmd (of_nat (length rest + 8)) (rest @ tail_hash cmd (be16 cmd @ be16 (of_nat (length rest + 8)) @ rest) @ ms) =
    Some (Inr (cmd, Some (JInStream_new (rest @ tail_hash cmd (be16 cmd @ be16 (of_nat (length rest + 8)) @ rest))), ms))"
proof -
  let ?len = "of_nat (length rest + 8) :: ushort"
  let ?bs = "be16 cmd @ be16 ?len @ rest" and ?h = "tail_hash cmd (be16 cmd @ be16 ?len @ rest)"
  have n: "unat ?len = length rest + 8" unfolding unat_of_nat using assms by simp
  have td: "take k (xs @ ys) = xs" "drop k (xs @ ys) = ys" if "length xs = k" for k and xs ys :: "uchar list"
    using that by simp_all
  have l: "length (rest @ ?h) = length rest + 8" by simp
  have body: "take (length rest + 8) ((rest @ ?h) @ ms) = rest @ ?h" "drop (length rest + 8) ((rest @ ?h) @ ms) = ms"
    by (rule td [OF l])+
  have lb: "length ?bs = length rest + 8 - 4" by simp
  have frame: "take (length rest + 8 - 4) (?bs @ ?h) = ?bs" "drop (length rest + 8 - 4) (?bs @ ?h) = ?h"
    by (rule td [OF lb])+
  show ?thesis
    using assms unfolding recv_result_def Let_def n append_assoc [of rest, symmetric] body
    unfolding append_assoc frame [unfolded append_assoc] by simp
qed

lemma session_Recv_packet:
  assumes ok: "conn_ok (sessConn s)" and len: "length (sessBuffer s) = 2048"
    and coming: "coming (sessConn s) = packet sizeof_RequestHead cmd rest @ ms" and rest: "length rest \<le> 2036"
  obtains s' where "session_Recv s = Some (Inr s')" "session_GetCmd s' = cmd" "coming (sessConn s') = ms"
    "conn_ok (sessConn s')" "length (sessBuffer s') = 2048" "reset (sessConn s') = reset (sessConn s)" "isDead s' = isDead s"
    "\<exists>h. length h = 8 \<and> request_stream s' = Some (JInStream_new (rest @ h))"
proof -
  let ?len = "of_nat (length rest + 8) :: ushort"
  let ?h = "tail_hash cmd (be16 cmd @ be16 ?len @ rest)"
  have "packet sizeof_RequestHead cmd rest = be16 cmd @ be16 ?len @ rest @ ?h"
    by (simp add: packet_def Let_def sizeof_RequestHead_def add_ac)
  then have "coming (sessConn s) = be16 cmd @ be16 ?len @ rest @ ?h @ ms" using coming by simp
  note spec = session_Recv_spec [OF ok len this, unfolded recv_result_packet [OF rest]]
  from spec(1) obtain s' where s': "session_Recv s = Some (Inr s')"
    "recv_view s' = (cmd, Some (JInStream_new (rest @ ?h)), ms)"
    by (cases "session_Recv s"; cases "the (session_Recv s)") auto
  moreover have "\<exists>h. length h = 8 \<and> Some (JInStream_new (rest @ ?h)) = Some (JInStream_new (rest @ h))"
    by (intro exI [of _ ?h] conjI refl) simp
  ultimately show ?thesis using spec(2) [OF s'(1)] that [of s'] by (simp add: recv_view_def)
qed

text \<open>The same for the client.\<close>

lemma client_Recv_packet:
  assumes ok: "conn_ok (cliConn s)" and len: "length (cliBuffer s) = 2048"
    and coming: "coming (cliConn s) = packet sizeof_ResponseHead cmd rest @ ms"
    and rest: "36 \<le> length rest" "length rest \<le> 2036"
  shows "\<exists>c h. client_Recv s = Some (Inr (s\<lparr>cliConn := c, cliBuffer := store16le cmd @ store16le (of_nat (length rest - 28)) @
      rest @ h @ drop (length rest + 12) (cliBuffer s)\<rparr>)) \<and> length h = 8 \<and>
    conn_ok c \<and> coming c = ms \<and> reset c = reset (cliConn s)"
proof -
  let ?m = "length rest - 28"
  let ?len = "of_nat ?m :: ushort"
  let ?h = "tail_hash cmd (be16 cmd @ be16 ?len @ rest)"
  have n: "unat ?len = ?m" unfolding unat_of_nat using rest by simp
  have ne: "?len \<noteq> 0"
  proof
    assume "?len = 0"
    then have "unat ?len = 0" by (simp only: unsigned_0)
    with n rest show False by simp
  qed
  have pk: "packet sizeof_ResponseHead cmd rest = be16 cmd @ be16 ?len @ rest @ ?h"
    using rest by (simp add: packet_def Let_def sizeof_ResponseHead_def)
  let ?head = "be16 cmd @ be16 ?len @ take 36 rest" and ?tail = "drop 36 rest @ ?h"
  have split: "packet sizeof_ResponseHead cmd rest = ?head @ ?tail" unfolding pk by simp
  have lh: "length ?head = 40" using rest by simp
  have lt: "length ?tail = ?m" using rest by simp
  obtain c1 where c1: "recv_into 0 40 (cliConn s) (cliBuffer s) = Some (40, ?head @ drop 40 (cliBuffer s), c1)"
    "conn_ok c1" "coming c1 = ?tail @ ms" "reset c1 = reset (cliConn s)"
    using recv_into_ok [OF ok, of ?head "?tail @ ms" 0 "cliBuffer s"] coming len
    unfolding split lh put_at_def by auto
  let ?buf = "?head @ drop 40 (cliBuffer s)" and ?z = "drop (length rest + 12) (cliBuffer s)"
  have "put_at 40 ?tail ?buf = ?head @ ?tail @ ?z"
  proof -
    have "drop (40 + ?m) ?buf = ?z" using lh rest by (simp add: add.commute)
    moreover have "take 40 ?buf = ?head" using lh by simp
    ultimately show ?thesis unfolding put_at_def lt by simp
  qed
  then obtain c2 where c2: "recv_into 40 ?m c1 ?buf = Some (int ?m, ?head @ ?tail @ ?z, c2)"
    "conn_ok c2" "coming c2 = ms" "reset c2 = reset (cliConn s)"
    using recv_into_ok [OF c1(2,3), of 40 ?buf] lh len rest c1(4) unfolding lt by auto
  have packet_buf: "?head @ ?tail @ ?z = packet 40 cmd rest @ ?z"
    using split unfolding sizeof_ResponseHead_def by simp
  have chk: "check_tail 40 cmd ?len (?head @ ?tail @ ?z) = Some True"
    unfolding packet_buf using rest by (intro check_packet) simp_all
  have put: "put_at 0 (store16le cmd @ store16le ?len) (?head @ ?tail @ ?z) = store16le cmd @ store16le ?len @ rest @ ?h @ ?z"
    using put_prefix [of "store16le cmd @ store16le ?len" "be16 cmd @ be16 ?len"] by simp
  have heads: "NetworkToHost16 (head_cmd ?buf) = cmd" "NetworkToHost16 (head_len ?buf) = ?len" by simp_all
  have "client_Recv s = Some (Inr (s\<lparr>cliConn := c2, cliBuffer := store16le cmd @ store16le ?len @ rest @ ?h @ ?z\<rparr>))"
    unfolding client_Recv_def sizeof_ResponseHead_def c1(1) bind.bind_lunit prod.case heads Let_def n c2(1)
    using ne n rest chk put by (simp add: c2(1) del: append_assoc append.simps)
  with c2 show ?thesis by (intro exI [of _ c2] exI [of _ ?h]) simp
qed

section \<open>What \<open>Recv\<close> promises\<close>



end
