(* ===== verification/Bank_Client.thy ===== *)
theory Bank_Client
  imports Bank_Session
begin

text \<open>
  The commands of the bank client (\<open>src/49/ABCBank/BankClient/CMD\<close>): every \<open>Execute\<close> builds a request from the
  attributes of the session, sends it, receives the response and takes it apart.

  Text is a list of bytes. What the C++ library provides and this model does not define is collected in a record:
  the memory behind \<open>c_str()\<close>, the conversions between text and \<open>double\<close> (with two decimals and in general form), and
  the arithmetic of \<open>double\<close>, whose values stay abstract.
\<close>

type_synonym str = "uchar list"

record 'd libs =
  cStr :: "str \<Rightarrow> str"
  StringToDouble :: "str \<Rightarrow> 'd"
  DoubleToString :: "'d \<Rightarrow> str"
  rawInt :: word32
  rawDouble :: 'd
  dAdd :: "'d \<Rightarrow> 'd \<Rightarrow> 'd"
  dSub :: "'d \<Rightarrow> 'd \<Rightarrow> 'd"
  dGreater :: "'d \<Rightarrow> 'd \<Rightarrow> bool"
  GeneralText :: "'d \<Rightarrow> str"

section \<open>C strings and numbers in text\<close>

text \<open>The first \<open>n\<close> bytes at \<open>s.c_str()\<close>.\<close>

definition c_bytes :: "'d libs \<Rightarrow> str \<Rightarrow> nat \<Rightarrow> str option" where
  "c_bytes lib s n = (let m = cStr lib s in if n \<le> length m then Some (take n m) else None)"

text \<open>The \<open>string\<close> made from a \<open>char\<close> array: the bytes before the first NUL, which has to be inside the array.\<close>

definition cstring :: "str \<Rightarrow> str option" where
  "cstring arr = (if 0 \<in> set arr then Some (takeWhile (\<lambda>c. c \<noteq> 0) arr) else None)"

definition is_digit :: "uchar \<Rightarrow> bool" where
  "is_digit c \<longleftrightarrow> 48 \<le> c \<and> c \<le> 57"

definition is_space :: "uchar \<Rightarrow> bool" where
  "is_space c \<longleftrightarrow> c = 32 \<or> 9 \<le> c \<and> c \<le> 13"

definition digits_value :: "str \<Rightarrow> nat" where
  "digits_value ds = foldl (\<lambda>v d. 10 * v + (unat d - 48)) 0 ds"

text \<open>\<open>operator>>\<close> for integers: white space, a sign, digits; what cannot be read leaves the variable as it was.\<close>

definition read_number :: "str \<Rightarrow> int option" where
  "read_number s =
     (let s1 = dropWhile is_space s;
          neg = (s1 \<noteq> [] \<and> hd s1 = 45);
          s2 = (if s1 \<noteq> [] \<and> (hd s1 = 45 \<or> hd s1 = 43) then tl s1 else s1);
          ds = takeWhile is_digit s2
      in if ds = [] then None else Some (if neg then - int (digits_value ds) else int (digits_value ds)))"

definition read_uint32 :: "str \<Rightarrow> word32 \<Rightarrow> word32" where
  "read_uint32 s old =
     (case read_number s of Some v \<Rightarrow> if \<bar>v\<bar> < 2 ^ 32 then of_int v else old | None \<Rightarrow> old)"

definition StringToInt :: "'d libs \<Rightarrow> str \<Rightarrow> word32" where
  "StringToInt lib s =
     (case read_number s of Some v \<Rightarrow> if - (2 ^ 31) \<le> v \<and> v < 2 ^ 31 then of_int v else rawInt lib
      | None \<Rightarrow> rawInt lib)"

section \<open>The commands\<close>

abbreviation CMD_LOGIN :: ushort where "CMD_LOGIN \<equiv> 1"
abbreviation CMD_OPEN_ACCOUNT :: ushort where "CMD_OPEN_ACCOUNT \<equiv> 2"
abbreviation CMD_DEPOSIT :: ushort where "CMD_DEPOSIT \<equiv> 3"
abbreviation CMD_WITHDRAW :: ushort where "CMD_WITHDRAW \<equiv> 4"
abbreviation CMD_TRANSFER :: ushort where "CMD_TRANSFER \<equiv> 5"
abbreviation CMD_BALANCE_INQUIRY :: ushort where "CMD_BALANCE_INQUIRY \<equiv> 6"
abbreviation CMD_CHANGE_PASSWORD :: ushort where "CMD_CHANGE_PASSWORD \<equiv> 7"
abbreviation CMD_DAY_BILL :: ushort where "CMD_DAY_BILL \<equiv> 8"
abbreviation CMD_HISTORY_BILL :: ushort where "CMD_HISTORY_BILL \<equiv> 9"
abbreviation CMD_ACCOUNT_HISTORY_BILL :: ushort where "CMD_ACCOUNT_HISTORY_BILL \<equiv> 10"
abbreviation CMD_CLOSE_ACCOUNT :: ushort where "CMD_CLOSE_ACCOUNT \<equiv> 11"

section \<open>Requests\<close>

text \<open>How every request begins: the command, and two bytes kept for the length; the result has their position.\<close>

definition open_packet :: "ushort \<Rightarrow> (nat \<times> JOutStream) option" where
  "open_packet cmd =
     do { jos \<leftarrow> out_uint16 cmd JOutStream_new;
          let lengthPos = out_Length jos;
          Some (lengthPos, out_Skip 2 jos) }"

text \<open>How every packet ends: the length is filled in and the check sum appended.\<close>

definition close_packet :: "nat \<Rightarrow> ushort \<Rightarrow> nat \<Rightarrow> JOutStream \<Rightarrow> str option" where
  "close_packet head cmd lengthPos jos =
     do { let tailPos = out_Length jos;
          jos \<leftarrow> out_uint16 (of_nat (size_sub (size_add tailPos 8) head)) (out_Reposition lengthPos jos);
          let jos = out_Reposition tailPos jos;
          bs \<leftarrow> out_Data (out_Length jos) jos;
          jos \<leftarrow> out_WriteBytes (tail_hash cmd bs) jos;
          out_Data (out_Length jos) jos }"

text \<open>A password: 16 bytes from \<open>c_str()\<close> on, encrypted.\<close>

definition write_pass :: "'d libs \<Rightarrow> ushort \<Rightarrow> str \<Rightarrow> JOutStream \<Rightarrow> JOutStream option" where
  "write_pass lib cmd pass jos =
     do { bs \<leftarrow> c_bytes lib pass 16; out_WriteBytes (encrypt16 cmd bs) jos }"

definition write_c_str :: "'d libs \<Rightarrow> str \<Rightarrow> nat \<Rightarrow> JOutStream \<Rightarrow> JOutStream option" where
  "write_c_str lib s n jos = do { bs \<leftarrow> c_bytes lib s n; out_WriteBytes bs jos }"

definition UserLogin_request :: "'d libs \<Rightarrow> 'd ClientSession \<Rightarrow> str option" where
  "UserLogin_request lib session =
     do { let cmd = CMD_LOGIN;
          (lengthPos, jos) \<leftarrow> open_packet cmd;
          jos \<leftarrow> out_string (GetAttribute ''name'' session) jos;
          jos \<leftarrow> write_pass lib cmd (GetAttribute ''pass'' session) jos;
          close_packet sizeof_RequestHead cmd lengthPos jos }"

definition OpenAccount_request :: "'d libs \<Rightarrow> 'd ClientSession \<Rightarrow> str option" where
  "OpenAccount_request lib session =
     do { let cmd = CMD_OPEN_ACCOUNT;
          (lengthPos, jos) \<leftarrow> open_packet cmd;
          jos \<leftarrow> out_string (GetAttribute ''name'' session) jos;
          jos \<leftarrow> write_pass lib cmd (GetAttribute ''pass'' session) jos;
          let ident = GetAttribute ''id'' session;
          jos \<leftarrow> write_c_str lib ident (length ident) jos;
          jos \<leftarrow> out_string (GetAttribute ''money'' session) jos;
          close_packet sizeof_RequestHead cmd lengthPos jos }"

definition Deposit_request :: "'d libs \<Rightarrow> 'd ClientSession \<Rightarrow> str option" where
  "Deposit_request lib session =
     do { let cmd = CMD_DEPOSIT;
          (lengthPos, jos) \<leftarrow> open_packet cmd;
          jos \<leftarrow> write_c_str lib (GetAttribute ''account_id'' session) 6 jos;
          jos \<leftarrow> out_string (GetAttribute ''money'' session) jos;
          close_packet sizeof_RequestHead cmd lengthPos jos }"

definition Withdrawal_request :: "'d libs \<Rightarrow> 'd ClientSession \<Rightarrow> str option" where
  "Withdrawal_request lib session =
     do { let cmd = CMD_WITHDRAW;
          (lengthPos, jos) \<leftarrow> open_packet cmd;
          jos \<leftarrow> write_c_str lib (GetAttribute ''account_id'' session) 6 jos;
          jos \<leftarrow> write_pass lib cmd (GetAttribute ''pass'' session) jos;
          jos \<leftarrow> out_string (GetAttribute ''money'' session) jos;
          close_packet sizeof_RequestHead cmd lengthPos jos }"

definition Transfer_request :: "'d libs \<Rightarrow> 'd ClientSession \<Rightarrow> str option" where
  "Transfer_request lib session =
     do { let cmd = CMD_TRANSFER;
          (lengthPos, jos) \<leftarrow> open_packet cmd;
          jos \<leftarrow> write_c_str lib (GetAttribute ''account_id'' session) 6 jos;
          jos \<leftarrow> write_pass lib cmd (GetAttribute ''pass'' session) jos;
          jos \<leftarrow> out_string (GetAttribute ''money'' session) jos;
          jos \<leftarrow> write_c_str lib (GetAttribute ''other_account_id'' session) 6 jos;
          close_packet sizeof_RequestHead cmd lengthPos jos }"

definition BalanceInquiry_request :: "'d libs \<Rightarrow> 'd ClientSession \<Rightarrow> str option" where
  "BalanceInquiry_request lib session =
     do { let cmd = CMD_BALANCE_INQUIRY;
          (lengthPos, jos) \<leftarrow> open_packet cmd;
          jos \<leftarrow> write_c_str lib (GetAttribute ''account_id'' session) 6 jos;
          jos \<leftarrow> write_pass lib cmd (GetAttribute ''pass'' session) jos;
          close_packet sizeof_RequestHead cmd lengthPos jos }"

definition ChangePassword_request :: "'d libs \<Rightarrow> 'd ClientSession \<Rightarrow> str option" where
  "ChangePassword_request lib session =
     do { let cmd = CMD_CHANGE_PASSWORD;
          (lengthPos, jos) \<leftarrow> open_packet cmd;
          jos \<leftarrow> write_c_str lib (GetAttribute ''account_id'' session) 6 jos;
          jos \<leftarrow> write_pass lib cmd (GetAttribute ''pass'' session) jos;
          jos \<leftarrow> write_pass lib cmd (GetAttribute ''newpass'' session) jos;
          close_packet sizeof_RequestHead cmd lengthPos jos }"

text \<open>\<open>uint32 page; ss>>page\<close>: the variable is not initialised.\<close>

definition QueryDayBill_request :: "'d libs \<Rightarrow> 'd ClientSession \<Rightarrow> str option" where
  "QueryDayBill_request lib session =
     do { let cmd = CMD_DAY_BILL;
          (lengthPos, jos) \<leftarrow> open_packet cmd;
          jos \<leftarrow> out_uint32 (read_uint32 (GetAttribute ''page'' session) (rawInt lib)) jos;
          jos \<leftarrow> write_c_str lib (GetAttribute ''date'' session) 10 jos;
          close_packet sizeof_RequestHead cmd lengthPos jos }"

definition QueryHistoryBill_request :: "'d libs \<Rightarrow> 'd ClientSession \<Rightarrow> str option" where
  "QueryHistoryBill_request lib session =
     do { let cmd = CMD_HISTORY_BILL;
          (lengthPos, jos) \<leftarrow> open_packet cmd;
          jos \<leftarrow> out_uint32 (read_uint32 (GetAttribute ''page'' session) (rawInt lib)) jos;
          jos \<leftarrow> write_c_str lib (GetAttribute ''begin_date'' session) 10 jos;
          jos \<leftarrow> write_c_str lib (GetAttribute ''end_date'' session) 10 jos;
          close_packet sizeof_RequestHead cmd lengthPos jos }"

definition QueryAccountHistoryBill_request :: "'d libs \<Rightarrow> 'd ClientSession \<Rightarrow> str option" where
  "QueryAccountHistoryBill_request lib session =
     do { let cmd = CMD_ACCOUNT_HISTORY_BILL;
          (lengthPos, jos) \<leftarrow> open_packet cmd;
          jos \<leftarrow> out_uint32 (read_uint32 (GetAttribute ''page'' session) (rawInt lib)) jos;
          jos \<leftarrow> write_c_str lib (GetAttribute ''account_id'' session) 6 jos;
          jos \<leftarrow> write_c_str lib (GetAttribute ''begin_date'' session) 10 jos;
          jos \<leftarrow> write_c_str lib (GetAttribute ''end_date'' session) 10 jos;
          close_packet sizeof_RequestHead cmd lengthPos jos }"

definition CloseAccount_request :: "'d libs \<Rightarrow> 'd ClientSession \<Rightarrow> str option" where
  "CloseAccount_request lib session =
     do { let cmd = CMD_CLOSE_ACCOUNT;
          (lengthPos, jos) \<leftarrow> open_packet cmd;
          jos \<leftarrow> write_c_str lib (GetAttribute ''account_id'' session) 6 jos;
          jos \<leftarrow> write_pass lib cmd (GetAttribute ''pass'' session) jos;
          close_packet sizeof_RequestHead cmd lengthPos jos }"

section \<open>Responses\<close>

text \<open>The head of a response: count, sequence number, error code and error message.\<close>

definition response_head :: "JInStream \<Rightarrow> (ushort \<times> ushort \<times> ushort \<times> str \<times> JInStream) option" where
  "response_head jis =
     do { jis \<leftarrow> in_Skip 4 jis;
          (cnt, jis) \<leftarrow> in_uint16 jis;
          (seq, jis) \<leftarrow> in_uint16 jis;
          (error_code, jis) \<leftarrow> in_int16 jis;
          (error_msg, jis) \<leftarrow> in_ReadBytes 30 jis;
          Some (cnt, seq, error_code, error_msg, jis) }"

text \<open>What all commands do first; \<open>SetErrorMsg\<close> makes a string of the 31 byte array, whose last byte is not
  initialised, so the NUL has to be among the 30 bytes read.\<close>

definition open_response :: "'d ClientSession \<Rightarrow> (ushort \<times> ushort \<times> JInStream \<times> 'd ClientSession) option" where
  "open_response session =
     do { bs \<leftarrow> response_bytes session;
          (cnt, seq, error_code, error_msg, jis) \<leftarrow> response_head (JInStream_new bs);
          msg \<leftarrow> cstring error_msg;
          Some (cnt, error_code, jis, session\<lparr>errorCode := error_code, errorMsg := msg\<rparr>) }"

text \<open>\<open>char a[n + 1] = {0}; jis.ReadBytes(a, n)\<close>, then used as a string.\<close>

definition read_array :: "nat \<Rightarrow> JInStream \<Rightarrow> (str \<times> JInStream) option" where
  "read_array n jis =
     do { (bs, jis) \<leftarrow> in_ReadBytes n jis; s \<leftarrow> cstring (bs @ [0]); Some (s, jis) }"

text \<open>\<open>UserLogin\<close> and \<open>ChangePassword\<close>.\<close>

definition plain_response :: "'d ClientSession \<Rightarrow> 'd ClientSession option" where
  "plain_response session = do { (cnt, error_code, jis, session) \<leftarrow> open_response session; Some session }"

definition OpenAccount_response :: "'d ClientSession \<Rightarrow> 'd ClientSession option" where
  "OpenAccount_response session =
     do { (cnt, error_code, jis, session) \<leftarrow> open_response session;
          if error_code = 0
          then do { (account_id, jis) \<leftarrow> read_array 6 jis;
                    (open_date, jis) \<leftarrow> in_string jis;
                    Some (SetResponse ''open_date'' open_date (SetResponse ''account_id'' account_id session)) }
          else Some session }"

text \<open>\<open>Deposit\<close>, \<open>Withdrawal\<close>, \<open>Transfer\<close> and \<open>BalanceInquiry\<close>.\<close>

definition receipt_response :: "'d ClientSession \<Rightarrow> 'd ClientSession option" where
  "receipt_response session =
     do { (cnt, error_code, jis, session) \<leftarrow> open_response session;
          if error_code = 0
          then do { (name, jis) \<leftarrow> in_string jis;
                    (money, jis) \<leftarrow> in_string jis;
                    (date, jis) \<leftarrow> read_array 19 jis;
                    Some (SetResponse ''trans_date'' date (SetResponse ''balance'' money
                      (SetResponse ''name'' name session))) }
          else Some session }"

definition CloseAccount_response :: "'d ClientSession \<Rightarrow> 'd ClientSession option" where
  "CloseAccount_response session =
     do { (cnt, error_code, jis, session) \<leftarrow> open_response session;
          if error_code = 0
          then do { (name, jis) \<leftarrow> in_string jis;
                    (balance, jis) \<leftarrow> in_string jis;
                    (interest, jis) \<leftarrow> in_string jis;
                    (date, jis) \<leftarrow> read_array 19 jis;
                    Some (SetResponse ''close_date'' date (SetResponse ''interest'' interest
                      (SetResponse ''balance'' balance (SetResponse ''name'' name session)))) }
          else Some session }"

text \<open>One packet of a bill.\<close>

definition read_detail :: "'d libs \<Rightarrow> 'd ClientSession \<Rightarrow> (ushort \<times> ushort \<times> 'd TransDetail) option" where
  "read_detail lib session =
     do { bs \<leftarrow> response_bytes session;
          (cnt, seq, error_code, error_msg, jis) \<leftarrow> response_head (JInStream_new bs);
          (date, jis) \<leftarrow> read_array 19 jis;
          (account_id, jis) \<leftarrow> read_array 6 jis;
          (other_account_id, jis) \<leftarrow> read_array 6 jis;
          (money, jis) \<leftarrow> in_string jis;
          (abstract, jis) \<leftarrow> in_string jis;
          (balance, jis) \<leftarrow> in_string jis;
          (total, jis) \<leftarrow> in_uint32 jis;
          Some (cnt, seq,
            \<lparr>trans_date = date, td_account_id = account_id, td_other_account_id = other_account_id,
             td_money = StringToDouble lib money, abstract_name = abstract,
             td_balance = StringToDouble lib balance, td_total = total\<rparr>) }"

text \<open>The loop over the packets of a bill: \<open>i\<close> counts up to the number in the first head; the packet read last
  ends it (the comparison \<open>seq == cnt - 1\<close> is done in \<open>int\<close>), and every other one is followed by a \<open>Recv\<close>.\<close>

fun bill_loop :: "'d libs \<Rightarrow> nat \<Rightarrow> 'd ClientSession \<Rightarrow> (exn + 'd ClientSession) option" where
  "bill_loop lib 0 session = Some (Inr session)"
| "bill_loop lib (Suc n) session =
     do { (cnt, seq, td) \<leftarrow> read_detail lib session;
          let session = AddDetail td session;
          if int (unat seq) = int (unat cnt) - 1 then Some (Inr session)
          else do { r \<leftarrow> client_Recv session;
                    case r of Inl e \<Rightarrow> Some (Inl e) | Inr session \<Rightarrow> bill_loop lib n session } }"

definition bill_response :: "'d libs \<Rightarrow> 'd ClientSession \<Rightarrow> (exn + 'd ClientSession) option" where
  "bill_response lib session =
     do { (cnt, error_code, jis, session) \<leftarrow> open_response session;
          if error_code = 0 then bill_loop lib (unat cnt) session else Some (Inr session) }"

section \<open>\<open>TransactionManager::DoAction\<close>\<close>

definition client_request :: "'d libs \<Rightarrow> 'd ClientSession \<Rightarrow> str option" where
  "client_request lib session =
     (let cmd = cliCmd session
      in if cmd = CMD_LOGIN then UserLogin_request lib session
         else if cmd = CMD_OPEN_ACCOUNT then OpenAccount_request lib session
         else if cmd = CMD_DEPOSIT then Deposit_request lib session
         else if cmd = CMD_WITHDRAW then Withdrawal_request lib session
         else if cmd = CMD_TRANSFER then Transfer_request lib session
         else if cmd = CMD_BALANCE_INQUIRY then BalanceInquiry_request lib session
         else if cmd = CMD_CHANGE_PASSWORD then ChangePassword_request lib session
         else if cmd = CMD_DAY_BILL then QueryDayBill_request lib session
         else if cmd = CMD_HISTORY_BILL then QueryHistoryBill_request lib session
         else if cmd = CMD_ACCOUNT_HISTORY_BILL then QueryAccountHistoryBill_request lib session
         else if cmd = CMD_CLOSE_ACCOUNT then CloseAccount_request lib session
         else None)"

definition client_response :: "'d libs \<Rightarrow> 'd ClientSession \<Rightarrow> (exn + 'd ClientSession) option" where
  "client_response lib session =
     (let cmd = cliCmd session
      in if cmd = CMD_LOGIN \<or> cmd = CMD_CHANGE_PASSWORD then map_option Inr (plain_response session)
         else if cmd = CMD_OPEN_ACCOUNT then map_option Inr (OpenAccount_response session)
         else if cmd = CMD_DEPOSIT \<or> cmd = CMD_WITHDRAW \<or> cmd = CMD_TRANSFER \<or> cmd = CMD_BALANCE_INQUIRY
         then map_option Inr (receipt_response session)
         else if cmd = CMD_DAY_BILL \<or> cmd = CMD_HISTORY_BILL \<or> cmd = CMD_ACCOUNT_HISTORY_BILL
         then bill_response lib session
         else if cmd = CMD_CLOSE_ACCOUNT then map_option Inr (CloseAccount_response session)
         else None)"

text \<open>\<open>Execute\<close>: what the peer answers comes over a new state of the connection.\<close>

definition client_Execute :: "'d libs \<Rightarrow> (str \<Rightarrow> conn) \<Rightarrow> 'd ClientSession \<Rightarrow> (exn + 'd ClientSession) option" where
  "client_Execute lib peer session =
     do { bs \<leftarrow> client_request lib session;
          r \<leftarrow> client_Recv (session\<lparr>cliConn := peer bs\<rparr>);
          case r of Inl e \<Rightarrow> Some (Inl e) | Inr session \<Rightarrow> client_response lib session }"

text \<open>\<open>DoAction\<close>: a command without an action does nothing.\<close>

definition client_DoAction :: "'d libs \<Rightarrow> (str \<Rightarrow> conn) \<Rightarrow> 'd ClientSession \<Rightarrow> (exn + 'd ClientSession) option" where
  "client_DoAction lib peer session =
     (if CMD_LOGIN \<le> cliCmd session \<and> cliCmd session \<le> CMD_CLOSE_ACCOUNT then client_Execute lib peer session
      else Some (Inr session))"

end
