(* ===== verification/Bank_Server.thy ===== *)
theory Bank_Server
  imports Bank_Client
begin

text \<open>
  The commands of the bank server (\<open>src/49/ABCBank/BankServer/CMD\<close>), its dispatcher and the loop of a session's
  thread. The data access layer is the interface \<open>IBankService\<close>, a record of functions on an abstract database:
  the SQL behind it runs in MySQL. Error texts are the GBK bytes of the source.
\<close>

section \<open>Accounts and the service\<close>

record 'd Account =
  accId :: word32
  accName :: str
  accPass :: str
  accCard :: str
  accDate :: str
  accBalance :: 'd

text \<open>\<open>Account acc;\<close>: numbers are not initialised.\<close>

definition Account_new :: "'d libs \<Rightarrow> 'd Account" where
  "Account_new lib =
     \<lparr>accId = rawInt lib, accName = [], accPass = [], accCard = [], accDate = [], accBalance = rawDouble lib\<rparr>"

text \<open>A computation on the database: it ends abnormally (\<open>None\<close>), throws, or returns, and the database has changed.\<close>

type_synonym ('s, 'a) outcome = "((exn + 'a) \<times> 's) option"

text \<open>Every method returns its \<open>int\<close> and the arguments it takes by reference.\<close>

record ('s, 'd) IBankService =
  svcUserLogin :: "str \<Rightarrow> str \<Rightarrow> 's \<Rightarrow> ('s, int) outcome"
  svcOpenAccount :: "'d Account \<Rightarrow> 's \<Rightarrow> ('s, int \<times> 'd Account) outcome"
  svcCloseAccount :: "'d Account \<Rightarrow> 'd \<Rightarrow> 's \<Rightarrow> ('s, int \<times> 'd Account \<times> 'd) outcome"
  svcChangePassword :: "'d Account \<Rightarrow> str \<Rightarrow> 's \<Rightarrow> ('s, int \<times> 'd Account) outcome"
  svcDeposit :: "'d Account \<Rightarrow> 's \<Rightarrow> ('s, int \<times> 'd Account) outcome"
  svcWithDraw :: "'d Account \<Rightarrow> 's \<Rightarrow> ('s, int \<times> 'd Account) outcome"
  svcTransfer :: "'d Account \<Rightarrow> str \<Rightarrow> 's \<Rightarrow> ('s, int \<times> 'd Account) outcome"
  svcBalanceInquiry :: "'d Account \<Rightarrow> 's \<Rightarrow> ('s, int \<times> 'd Account) outcome"
  svcQueryDayBill :: "word32 \<Rightarrow> str \<Rightarrow> 's \<Rightarrow> ('s, int \<times> 'd TransDetail list) outcome"
  svcQueryHistoryBill :: "word32 \<Rightarrow> str \<Rightarrow> str \<Rightarrow> 's \<Rightarrow> ('s, int \<times> 'd TransDetail list) outcome"
  svcQueryAccountHistoryBill :: "word32 \<Rightarrow> str \<Rightarrow> str \<Rightarrow> str \<Rightarrow> 's \<Rightarrow> ('s, int \<times> 'd TransDetail list) outcome"

section \<open>Error codes\<close>

definition msg_login :: str where
  "msg_login = [211, 195, 187, 167, 195, 251, 187, 242, 195, 220, 194, 235, 180, 237, 206, 243]"

definition msg_no_account :: str where
  "msg_no_account = [213, 202, 187, 167, 178, 187, 180, 230, 212, 218]"

definition msg_bad_pass :: str where
  "msg_bad_pass = [195, 220, 194, 235, 180, 237, 206, 243]"

definition msg_no_money :: str where
  "msg_no_money = [211, 224, 182, 238, 178, 187, 215, 227]"

definition msg_no_other :: str where
  "msg_no_other = [182, 212, 183, 189, 213, 202, 186, 197, 178, 187, 180, 230, 212, 218]"

definition msg_no_data :: str where
  "msg_no_data = [195, 187, 211, 208, 213, 210, 181, 189, 202, 253, 190, 221]"

definition msg_database :: str where
  "msg_database = [202, 253, 190, 221, 191, 226, 180, 237, 206, 243]"

text \<open>The chains of \<open>if (ret == ...)\<close>; a code that is not listed leaves error code 0 and the empty message.\<close>

definition login_error :: "int \<Rightarrow> ushort \<times> str" where
  "login_error ret =
     (if ret = 1 then (1, msg_login) else if ret = - 1 then (- 1, msg_database) else (0, []))"

definition deposit_error :: "int \<Rightarrow> ushort \<times> str" where
  "deposit_error ret =
     (if ret = 2 then (2, msg_no_account) else if ret = - 1 then (- 1, msg_database) else (0, []))"

definition account_error :: "int \<Rightarrow> ushort \<times> str" where
  "account_error ret =
     (if ret = 2 then (2, msg_no_account) else if ret = 3 then (3, msg_bad_pass)
      else if ret = - 1 then (- 1, msg_database) else (0, []))"

definition withdraw_error :: "int \<Rightarrow> ushort \<times> str" where
  "withdraw_error ret =
     (if ret = 2 then (2, msg_no_account) else if ret = 3 then (3, msg_bad_pass)
      else if ret = 4 then (4, msg_no_money) else if ret = - 1 then (- 1, msg_database) else (0, []))"

definition transfer_error :: "int \<Rightarrow> ushort \<times> str" where
  "transfer_error ret =
     (if ret = 2 then (2, msg_no_account) else if ret = 3 then (3, msg_bad_pass)
      else if ret = 4 then (4, msg_no_money) else if ret = 5 then (5, msg_no_other)
      else if ret = - 1 then (- 1, msg_database) else (0, []))"

definition bill_error :: "int \<Rightarrow> ushort \<times> str" where
  "bill_error ret =
     (if ret = 6 then (6, msg_no_data) else if ret = - 1 then (- 1, msg_database) else (0, []))"

section \<open>Reading requests and writing responses\<close>

text \<open>A password: 16 bytes, decrypted into \<open>char pass[16]\<close> and used as a string.\<close>

definition read_pass :: "ushort \<Rightarrow> JInStream \<Rightarrow> (str \<times> JInStream) option" where
  "read_pass cmd jis =
     do { (bs, jis) \<leftarrow> in_ReadBytes 16 jis; pass \<leftarrow> cstring (decrypt16 cmd bs); Some (pass, jis) }"

text \<open>\<open>char error_msg[31] = {0}; strcpy_s(error_msg, msg)\<close>; the first 30 bytes are sent.\<close>

definition error_array :: "str \<Rightarrow> str" where
  "error_array msg = put_at 0 (msg @ [0]) (replicate 31 0)"

definition open_reply :: "ushort \<Rightarrow> ushort \<Rightarrow> ushort \<Rightarrow> ushort \<Rightarrow> str \<Rightarrow> (nat \<times> JOutStream) option" where
  "open_reply cmd cnt seq error_code error_msg =
     do { (lengthPos, jos) \<leftarrow> open_packet cmd;
          jos \<leftarrow> out_uint16 cnt jos;
          jos \<leftarrow> out_uint16 seq jos;
          jos \<leftarrow> out_int16 error_code jos;
          jos \<leftarrow> out_WriteBytes (take 30 (error_array error_msg)) jos;
          Some (lengthPos, jos) }"

text \<open>A response without a body.\<close>

definition plain_reply :: "ushort \<Rightarrow> ushort \<times> str \<Rightarrow> str option" where
  "plain_reply cmd err =
     do { (lengthPos, jos) \<leftarrow> open_reply cmd 0 0 (fst err) (snd err);
          close_packet sizeof_ResponseHead cmd lengthPos jos }"

text \<open>The receipt of a deposit, a withdrawal, a transfer and an inquiry.\<close>

definition receipt_reply :: "'d libs \<Rightarrow> ushort \<Rightarrow> ushort \<times> str \<Rightarrow> 'd Account \<Rightarrow> str option" where
  "receipt_reply lib cmd err acc =
     do { (lengthPos, jos) \<leftarrow> open_reply cmd 0 0 (fst err) (snd err);
          jos \<leftarrow> (if fst err = 0
                  then do { let balance = DoubleToString lib (accBalance acc);
                            jos \<leftarrow> out_string (accName acc) jos;
                            jos \<leftarrow> out_string balance jos;
                            write_c_str lib (accDate acc) 19 jos }
                  else Some jos);
          close_packet sizeof_ResponseHead cmd lengthPos jos }"

section \<open>The commands\<close>

text \<open>What follows the call of the service; an exception leaves \<open>Execute\<close>. The packets are all sent after it.\<close>

definition reply :: "('s, 'a) outcome \<Rightarrow> ('a \<Rightarrow> str list option) \<Rightarrow> ('s, str list) outcome" where
  "reply called f =
     do { (x, db) \<leftarrow> called;
          case x of Inl e \<Rightarrow> Some (Inl e, db) | Inr a \<Rightarrow> do { packets \<leftarrow> f a; Some (Inr packets, db) } }"

definition UserLogin_Execute :: "'d libs \<Rightarrow> ('s, 'd) IBankService \<Rightarrow> ushort \<Rightarrow> JInStream \<Rightarrow> 's \<Rightarrow> ('s, str list) outcome" where
  "UserLogin_Execute lib dao cmd jis db =
     do { (name, jis) \<leftarrow> in_string jis;
          (pass, jis) \<leftarrow> read_pass cmd jis;
          reply (svcUserLogin dao name pass db) (\<lambda>ret. map_option (\<lambda>p. [p]) (plain_reply cmd (login_error ret))) }"

text \<open>Decimal text of an integer, and \<open>setw(6)<<setfill('0')\<close>.\<close>

fun dec_nat :: "nat \<Rightarrow> str" where
  "dec_nat n = (if n < 10 then [of_nat (48 + n)] else dec_nat (n div 10) @ [of_nat (48 + n mod 10)])"

declare dec_nat.simps [simp del]

lemma dec_nat_nonzero: "0 \<notin> set (dec_nat n)"
proof (induction n rule: dec_nat.induct)
  case (1 n)
  have ne: "(of_nat (48 + k) :: uchar) \<noteq> 0" if "k < 10" for k
  proof
    assume "(of_nat (48 + k) :: uchar) = 0"
    then have "unat (of_nat (48 + k) :: uchar) = 0" by (simp only: unsigned_0)
    with that show False unfolding unat_of_nat by simp
  qed
  show ?case
  proof (cases "n < 10")
    case True
    have "dec_nat n = [of_nat (48 + n)]" by (subst dec_nat.simps) (simp only: True if_True)
    then show ?thesis using ne [OF True] by simp
  next
    case False
    have "dec_nat n = dec_nat (n div 10) @ [of_nat (48 + n mod 10)]"
      by (subst dec_nat.simps) (simp only: False if_False)
    then show ?thesis using ne [of "n mod 10"] 1 False by simp
  qed
qed

definition dec_int :: "word32 \<Rightarrow> str" where
  "dec_int w = (if sint w < 0 then 45 # dec_nat (nat (- sint w)) else dec_nat (nat (sint w)))"

definition setw0 :: "nat \<Rightarrow> str \<Rightarrow> str" where
  "setw0 n s = replicate (n - length s) 48 @ s"

definition opened_reply :: "'d libs \<Rightarrow> ushort \<Rightarrow> ushort \<times> str \<Rightarrow> 'd Account \<Rightarrow> str option" where
  "opened_reply lib cmd err acc =
     do { (lengthPos, jos) \<leftarrow> open_reply cmd 0 0 (fst err) (snd err);
          jos \<leftarrow> write_c_str lib (setw0 6 (dec_int (accId acc))) 6 jos;
          jos \<leftarrow> out_string (accDate acc) jos;
          close_packet sizeof_ResponseHead cmd lengthPos jos }"

definition OpenAccount_Execute :: "'d libs \<Rightarrow> ('s, 'd) IBankService \<Rightarrow> ushort \<Rightarrow> JInStream \<Rightarrow> 's \<Rightarrow> ('s, str list) outcome" where
  "OpenAccount_Execute lib dao cmd jis db =
     do { (name, jis) \<leftarrow> in_string jis;
          (pass, jis) \<leftarrow> read_pass cmd jis;
          (ident, jis) \<leftarrow> read_array 18 jis;
          (money, jis) \<leftarrow> in_string jis;
          let acc = (Account_new lib)\<lparr>accCard := ident, accName := name, accPass := pass,
            accBalance := StringToDouble lib money\<rparr>;
          reply (svcOpenAccount dao acc db) (\<lambda>(ret, acc). map_option (\<lambda>p. [p]) (opened_reply lib cmd (login_error ret) acc)) }"

definition Deposit_Execute :: "'d libs \<Rightarrow> ('s, 'd) IBankService \<Rightarrow> ushort \<Rightarrow> JInStream \<Rightarrow> 's \<Rightarrow> ('s, str list) outcome" where
  "Deposit_Execute lib dao cmd jis db =
     do { (account_id, jis) \<leftarrow> read_array 6 jis;
          (money, jis) \<leftarrow> in_string jis;
          let acc = (Account_new lib)\<lparr>accId := StringToInt lib account_id, accBalance := StringToDouble lib money\<rparr>;
          reply (svcDeposit dao acc db) (\<lambda>(ret, acc). map_option (\<lambda>p. [p]) (receipt_reply lib cmd (deposit_error ret) acc)) }"

definition Withdrawal_Execute :: "'d libs \<Rightarrow> ('s, 'd) IBankService \<Rightarrow> ushort \<Rightarrow> JInStream \<Rightarrow> 's \<Rightarrow> ('s, str list) outcome" where
  "Withdrawal_Execute lib dao cmd jis db =
     do { (account_id, jis) \<leftarrow> read_array 6 jis;
          (pass, jis) \<leftarrow> read_pass cmd jis;
          (money, jis) \<leftarrow> in_string jis;
          let acc = (Account_new lib)\<lparr>accPass := pass, accId := StringToInt lib account_id,
            accBalance := StringToDouble lib money\<rparr>;
          reply (svcWithDraw dao acc db) (\<lambda>(ret, acc). map_option (\<lambda>p. [p]) (receipt_reply lib cmd (withdraw_error ret) acc)) }"

definition Transfer_Execute :: "'d libs \<Rightarrow> ('s, 'd) IBankService \<Rightarrow> ushort \<Rightarrow> JInStream \<Rightarrow> 's \<Rightarrow> ('s, str list) outcome" where
  "Transfer_Execute lib dao cmd jis db =
     do { (account_id, jis) \<leftarrow> read_array 6 jis;
          (pass, jis) \<leftarrow> read_pass cmd jis;
          (money, jis) \<leftarrow> in_string jis;
          (other_account_id, jis) \<leftarrow> read_array 6 jis;
          let acc = (Account_new lib)\<lparr>accPass := pass, accId := StringToInt lib account_id,
            accBalance := StringToDouble lib money\<rparr>;
          reply (svcTransfer dao acc other_account_id db) (\<lambda>(ret, acc). map_option (\<lambda>p. [p]) (receipt_reply lib cmd (transfer_error ret) acc)) }"

definition BalanceInquiry_Execute :: "'d libs \<Rightarrow> ('s, 'd) IBankService \<Rightarrow> ushort \<Rightarrow> JInStream \<Rightarrow> 's \<Rightarrow> ('s, str list) outcome" where
  "BalanceInquiry_Execute lib dao cmd jis db =
     do { (account_id, jis) \<leftarrow> read_array 6 jis;
          (pass, jis) \<leftarrow> read_pass cmd jis;
          let acc = (Account_new lib)\<lparr>accPass := pass, accId := StringToInt lib account_id\<rparr>;
          reply (svcBalanceInquiry dao acc db) (\<lambda>(ret, acc). map_option (\<lambda>p. [p]) (receipt_reply lib cmd (account_error ret) acc)) }"

definition ChangePassword_Execute :: "'d libs \<Rightarrow> ('s, 'd) IBankService \<Rightarrow> ushort \<Rightarrow> JInStream \<Rightarrow> 's \<Rightarrow> ('s, str list) outcome" where
  "ChangePassword_Execute lib dao cmd jis db =
     do { (account_id, jis) \<leftarrow> read_array 6 jis;
          (pass, jis) \<leftarrow> read_pass cmd jis;
          (newpass, jis) \<leftarrow> read_pass cmd jis;
          let acc = (Account_new lib)\<lparr>accPass := pass, accId := StringToInt lib account_id\<rparr>;
          reply (svcChangePassword dao acc newpass db) (\<lambda>(ret, acc). map_option (\<lambda>p. [p]) (plain_reply cmd (account_error ret))) }"

definition closed_reply :: "'d libs \<Rightarrow> ushort \<Rightarrow> ushort \<times> str \<Rightarrow> 'd Account \<Rightarrow> 'd \<Rightarrow> str option" where
  "closed_reply lib cmd err acc interest =
     do { (lengthPos, jos) \<leftarrow> open_reply cmd 0 0 (fst err) (snd err);
          jos \<leftarrow> (if fst err = 0
                  then do { let balance = DoubleToString lib (accBalance acc);
                            jos \<leftarrow> out_string (accName acc) jos;
                            jos \<leftarrow> out_string balance jos;
                            jos \<leftarrow> out_string (DoubleToString lib interest) jos;
                            write_c_str lib (accDate acc) 19 jos }
                  else Some jos);
          close_packet sizeof_ResponseHead cmd lengthPos jos }"

definition CloseAccount_Execute :: "'d libs \<Rightarrow> ('s, 'd) IBankService \<Rightarrow> ushort \<Rightarrow> JInStream \<Rightarrow> 's \<Rightarrow>
    ('s, str list) outcome" where
  "CloseAccount_Execute lib dao cmd jis db =
     do { (account_id, jis) \<leftarrow> read_array 6 jis;
          (pass, jis) \<leftarrow> read_pass cmd jis;
          let acc = (Account_new lib)\<lparr>accPass := pass, accId := StringToInt lib account_id\<rparr>;
          reply (svcCloseAccount dao acc (rawDouble lib) db) (\<lambda>(ret, acc, interest). map_option (\<lambda>p. [p]) (closed_reply lib cmd (account_error ret) acc interest)) }"

text \<open>Bills: one packet for every detail, numbered from 0; \<open>cnt\<close> is the size cast to 16 bits.\<close>

definition detail_reply :: "'d libs \<Rightarrow> ushort \<Rightarrow> ushort \<Rightarrow> ushort \<Rightarrow> 'd TransDetail \<Rightarrow> str option" where
  "detail_reply lib cmd cnt seq td =
     do { (lengthPos, jos) \<leftarrow> open_reply cmd cnt seq 0 [];
          jos \<leftarrow> write_c_str lib (trans_date td) 19 jos;
          jos \<leftarrow> write_c_str lib (td_account_id td) 6 jos;
          jos \<leftarrow> write_c_str lib (td_other_account_id td) 6 jos;
          let money = DoubleToString lib (td_money td);
          jos \<leftarrow> out_string money jos;
          jos \<leftarrow> out_string (abstract_name td) jos;
          let balance = DoubleToString lib (td_balance td);
          jos \<leftarrow> out_string balance jos;
          jos \<leftarrow> out_uint32 (td_total td) jos;
          close_packet sizeof_ResponseHead cmd lengthPos jos }"

fun detail_replies :: "'d libs \<Rightarrow> ushort \<Rightarrow> ushort \<Rightarrow> ushort \<Rightarrow> 'd TransDetail list \<Rightarrow> str list option" where
  "detail_replies lib cmd cnt seq [] = Some []"
| "detail_replies lib cmd cnt seq (td # tds) =
     do { packet \<leftarrow> detail_reply lib cmd cnt seq td;
          packets \<leftarrow> detail_replies lib cmd cnt (seq + 1) tds;
          Some (packet # packets) }"

definition bill_replies :: "'d libs \<Rightarrow> ushort \<Rightarrow> int \<Rightarrow> 'd TransDetail list \<Rightarrow> str list option" where
  "bill_replies lib cmd ret tds =
     (let err = bill_error ret
      in if fst err = 0 then detail_replies lib cmd (of_nat (length tds)) 0 tds
         else map_option (\<lambda>p. [p]) (plain_reply cmd err))"

definition QueryDayBill_Execute :: "'d libs \<Rightarrow> ('s, 'd) IBankService \<Rightarrow> ushort \<Rightarrow> JInStream \<Rightarrow> 's \<Rightarrow> ('s, str list) outcome" where
  "QueryDayBill_Execute lib dao cmd jis db =
     do { (page, jis) \<leftarrow> in_uint32 jis;
          (date, jis) \<leftarrow> read_array 10 jis;
          reply (svcQueryDayBill dao page date db) (\<lambda>(ret, tds). bill_replies lib cmd ret tds) }"

definition QueryHistoryBill_Execute :: "'d libs \<Rightarrow> ('s, 'd) IBankService \<Rightarrow> ushort \<Rightarrow> JInStream \<Rightarrow> 's \<Rightarrow> ('s, str list) outcome" where
  "QueryHistoryBill_Execute lib dao cmd jis db =
     do { (page, jis) \<leftarrow> in_uint32 jis;
          (begin_date, jis) \<leftarrow> read_array 10 jis;
          (end_date, jis) \<leftarrow> read_array 10 jis;
          reply (svcQueryHistoryBill dao page begin_date end_date db) (\<lambda>(ret, tds). bill_replies lib cmd ret tds) }"

definition QueryAccountHistoryBill_Execute :: "'d libs \<Rightarrow> ('s, 'd) IBankService \<Rightarrow> ushort \<Rightarrow> JInStream \<Rightarrow> 's \<Rightarrow>
    ('s, str list) outcome" where
  "QueryAccountHistoryBill_Execute lib dao cmd jis db =
     do { (page, jis) \<leftarrow> in_uint32 jis;
          (account_id, jis) \<leftarrow> read_array 6 jis;
          (begin_date, jis) \<leftarrow> read_array 10 jis;
          (end_date, jis) \<leftarrow> read_array 10 jis;
          reply (svcQueryAccountHistoryBill dao page account_id begin_date end_date db) (\<lambda>(ret, tds). bill_replies lib cmd ret tds) }"

section \<open>Dispatcher and thread\<close>

text \<open>\<open>TransactionManager::DoAction\<close>: a command without an action is ignored.\<close>

definition server_DoAction :: "'d libs \<Rightarrow> ('s, 'd) IBankService \<Rightarrow> BankSession \<Rightarrow> 's \<Rightarrow> ('s, str list) outcome" where
  "server_DoAction lib dao session db =
     do { let cmd = session_GetCmd session;
          jis \<leftarrow> request_stream session;
          if cmd = CMD_LOGIN then UserLogin_Execute lib dao cmd jis db
          else if cmd = CMD_OPEN_ACCOUNT then OpenAccount_Execute lib dao cmd jis db
          else if cmd = CMD_DEPOSIT then Deposit_Execute lib dao cmd jis db
          else if cmd = CMD_WITHDRAW then Withdrawal_Execute lib dao cmd jis db
          else if cmd = CMD_TRANSFER then Transfer_Execute lib dao cmd jis db
          else if cmd = CMD_BALANCE_INQUIRY then BalanceInquiry_Execute lib dao cmd jis db
          else if cmd = CMD_CHANGE_PASSWORD then ChangePassword_Execute lib dao cmd jis db
          else if cmd = CMD_DAY_BILL then QueryDayBill_Execute lib dao cmd jis db
          else if cmd = CMD_HISTORY_BILL then QueryHistoryBill_Execute lib dao cmd jis db
          else if cmd = CMD_ACCOUNT_HISTORY_BILL then QueryAccountHistoryBill_Execute lib dao cmd jis db
          else if cmd = CMD_CLOSE_ACCOUNT then CloseAccount_Execute lib dao cmd jis db
          else Some (Inr [], db) }"

text \<open>\<open>BankSession::Process\<close>.\<close>

definition session_Process :: "'d libs \<Rightarrow> ('s, 'd) IBankService \<Rightarrow> BankSession \<Rightarrow> 's \<Rightarrow>
    ((exn + str list) \<times> BankSession \<times> 's) option" where
  "session_Process lib dao session db =
     do { r \<leftarrow> session_Recv session;
          case r of
            Inl e \<Rightarrow> Some (Inl e, session, db)
          | Inr session \<Rightarrow>
              do { (x, db) \<leftarrow> server_DoAction lib dao session db;
                   Some (x, session, db) } }"

text \<open>\<open>BankThread::Run\<close>: requests until an exception kills the session. Every turn that does not end the loop
  takes a head off the connection, so that the bytes coming bound the number of turns; \<open>fuel\<close> counts them.\<close>

fun bank_run :: "'d libs \<Rightarrow> ('s, 'd) IBankService \<Rightarrow> nat \<Rightarrow> BankSession \<Rightarrow> 's \<Rightarrow> (str list \<times> BankSession \<times> 's) option" where
  "bank_run lib dao 0 session db = None"
| "bank_run lib dao (Suc fuel) session db =
     (if isDead session then Some ([], session, db)
      else do { (x, session, db) \<leftarrow> session_Process lib dao session db;
                case x of
                  Inl e \<Rightarrow> bank_run lib dao fuel (Kill session) db
                | Inr packets \<Rightarrow>
                    do { (more, session, db) \<leftarrow> bank_run lib dao fuel session db;
                         Some (packets @ more, session, db) } })"

end
