(* ===== verification/Bank_Protocol.thy ===== *)
theory Bank_Protocol
  imports Bank_Server
begin

text \<open>
  Client and server of the bank together: what a request says, what performing it on the service means, and the
  proof that a client's \<open>Execute\<close>, the packets and the server's \<open>Execute\<close> amount to that.
\<close>

section \<open>Packets are built\<close>

text \<open>The memory behind \<open>c_str()\<close>: the characters, a NUL, and whatever follows.\<close>

definition libs_ok :: "'d libs \<Rightarrow> bool" where
  "libs_ok lib \<longleftrightarrow> (\<forall>s. take (length s + 1) (cStr lib s) = s @ [0])"

lemma cStr_prefix: "libs_ok lib \<Longrightarrow> \<exists>junk. cStr lib s = s @ 0 # junk"
proof -
  assume "libs_ok lib"
  then have "take (length s + 1) (cStr lib s) = s @ [0]" by (simp add: libs_ok_def)
  then have "cStr lib s = (s @ [0]) @ drop (length s + 1) (cStr lib s)" by (metis append_take_drop_id)
  then show ?thesis by auto
qed

lemma c_bytes_ok: "libs_ok lib \<Longrightarrow> n \<le> length s \<Longrightarrow> c_bytes lib s n = Some (take n s)"
  using cStr_prefix [of lib s] by (auto simp: c_bytes_def)

lemma cstring_ok: "0 \<notin> set s \<Longrightarrow> cstring (s @ 0 # r) = Some s"
proof -
  assume "0 \<notin> set s"
  then have "\<And>c. c \<in> set s \<Longrightarrow> c \<noteq> 0" by blast
  then have "takeWhile (\<lambda>c. c \<noteq> 0) (s @ 0 # r) = s @ takeWhile (\<lambda>c. c \<noteq> 0) (0 # r)" by (rule takeWhile_append2)
  then show ?thesis by (simp add: cstring_def)
qed

text \<open>The bytes of a password: 16 of them have to be in memory, a NUL among them.\<close>

definition pass_ok :: "'d libs \<Rightarrow> str \<Rightarrow> bool" where
  "pass_ok lib s \<longleftrightarrow> length s < 16 \<and> 0 \<notin> set s \<and> 16 \<le> length (cStr lib s)"

lemma pass_bytes:
  assumes "libs_ok lib" "pass_ok lib s"
  shows "c_bytes lib s 16 = Some (take 16 (cStr lib s))" "length (take 16 (cStr lib s)) = 16"
    "cstring (take 16 (cStr lib s)) = Some s"
proof -
  obtain junk where junk: "cStr lib s = s @ 0 # junk" using cStr_prefix [OF assms(1)] by blast
  have "take 16 (cStr lib s) = s @ 0 # take (15 - length s) junk"
    using assms(2) by (simp add: junk pass_ok_def take_Cons' Suc_diff_le)
  then show "cstring (take 16 (cStr lib s)) = Some s" using assms(2) by (simp add: cstring_ok pass_ok_def)
qed (use assms in \<open>simp_all add: c_bytes_def pass_ok_def\<close>)

lemma decrypt_encrypt [simp]: "decrypt16 cmd (encrypt16 cmd bs) = bs"
  by (simp add: decrypt16_def encrypt16_def Crypt_inverse)

lemma length_encrypt16 [simp]: "length (encrypt16 cmd bs) = length bs"
  by (simp add: encrypt16_def length_Crypt)

text \<open>The stream operations under conditions that stay simple however much has been written.\<close>

definition roomy :: "str \<Rightarrow> bool" where
  "roomy z \<longleftrightarrow> length z < 2 ^ 60"

lemma roomy_simps [simp]: "roomy z \<Longrightarrow> roomy (drop n z)" "n < 2 ^ 60 \<Longrightarrow> roomy (replicate n x)"
  by (simp_all add: roomy_def)

named_theorems packet_simps \<open>running the construction and the reading of packets\<close>

lemma out_roomy [packet_simps]:
  assumes "roomy z"
  shows "length c + length bs < 2 ^ 60 \<Longrightarrow> out_append bs (out_of c z) = Some (out_of (c @ bs) (drop (length bs) z))"
    and "length c + length str < 2 ^ 60 \<Longrightarrow>
      out_string str (out_of c z) = Some (out_of (c @ str_bytes str) (drop (length (str_bytes str)) z))"
  using assms by (simp_all add: roomy_def stream_simps)

lemma open_packet_of [packet_simps]: "open_packet cmd = Some (2, out_of (be16 cmd @ [0, 0]) (replicate 1020 0))"
proof -
  have w: "out_uint16 cmd JOutStream_new = Some (out_of (be16 cmd) (replicate 1022 0))"
    unfolding out_new by (simp add: stream_simps kInitialSize_def)
  have z: "replicate 1022 0 = [0, 0] @ replicate 1020 (0 :: uchar)"
    using replicate_add [of 2 1020 "0 :: uchar"] by (simp add: numeral_2_eq_2)
  have "out_Skip 2 (out_of (be16 cmd) ([0, 0] @ replicate 1020 0)) = out_of (be16 cmd @ [0, 0]) (replicate 1020 0)"
    by (subst out_Skip_of) simp_all
  then show ?thesis unfolding open_packet_def w z bind.bind_lunit Let_def by (simp add: stream_simps)
qed

lemma close_packet_of [packet_simps]:
  assumes "length rest < 2 ^ 60" "roomy z" "head \<le> 4 + length rest"
  shows "close_packet head cmd 2 (out_of (be16 cmd @ 0 # 0 # rest) z) = Some (packet head cmd rest)"
proof -
  let ?c = "be16 cmd @ 0 # 0 # rest"
  have small: "length rest + length z < 2 ^ 61" using assms(1,2) by (simp add: roomy_def)
  let ?L = "of_nat (4 + length rest + 8 - head) :: ushort"
  have tail: "out_Length (out_of ?c z) = 4 + length rest" by (simp add: stream_simps)
  have "size_sub (size_add (4 + length rest) 8) head = 4 + length rest + 8 - head"
    using small assms(3) by (simp add: size_arith)
  then have len: "of_nat (size_sub (size_add (4 + length rest) 8) head) = ?L" by (simp only:)
  have r1: "out_Reposition 2 (out_of ?c z) = out_of (be16 cmd) ([0, 0] @ rest @ z)"
    by (simp add: out_Reposition_of)
  have w1: "out_uint16 ?L (out_of (be16 cmd) ([0, 0] @ rest @ z)) = Some (out_of (be16 cmd @ be16 ?L) (rest @ z))"
    using small by (simp add: stream_simps)
  let ?bs = "be16 cmd @ be16 ?L @ rest"
  have r2: "out_Reposition (4 + length rest) (out_of (be16 cmd @ be16 ?L) (rest @ z)) = out_of ?bs z"
    using out_Reposition_end [of "be16 cmd @ be16 ?L" "length rest" "rest @ z"] by simp
  have w2: "out_WriteBytes (tail_hash cmd ?bs) (out_of ?bs z) = Some (out_of (?bs @ tail_hash cmd ?bs) (drop 8 z))"
    using small by (simp add: stream_simps)
  show ?thesis
    unfolding close_packet_def Let_def tail len r1 w1 bind.bind_lunit r2
    unfolding packet_def Let_def out_Length_of out_Data_of [OF refl] bind.bind_lunit w2 append_assoc ..
qed

section \<open>What requests say\<close>

datatype request =
    Login str str
  | OpenAcc str str str str
  | Put str str
  | Take str str str
  | Move str str str str
  | Inquire str str
  | NewPass str str str
  | DayBill str str
  | Bill str str str
  | AccBill str str str str
  | CloseAcc str str

fun req_cmd :: "request \<Rightarrow> ushort" where
  "req_cmd (Login _ _) = CMD_LOGIN"
| "req_cmd (OpenAcc _ _ _ _) = CMD_OPEN_ACCOUNT"
| "req_cmd (Put _ _) = CMD_DEPOSIT"
| "req_cmd (Take _ _ _) = CMD_WITHDRAW"
| "req_cmd (Move _ _ _ _) = CMD_TRANSFER"
| "req_cmd (Inquire _ _) = CMD_BALANCE_INQUIRY"
| "req_cmd (NewPass _ _ _) = CMD_CHANGE_PASSWORD"
| "req_cmd (DayBill _ _) = CMD_DAY_BILL"
| "req_cmd (Bill _ _ _) = CMD_HISTORY_BILL"
| "req_cmd (AccBill _ _ _ _) = CMD_ACCOUNT_HISTORY_BILL"
| "req_cmd (CloseAcc _ _) = CMD_CLOSE_ACCOUNT"

text \<open>The attributes the forms of the client set.\<close>

fun req_attrs :: "request \<Rightarrow> (string \<times> str) list" where
  "req_attrs (Login name pass) = [(''name'', name), (''pass'', pass)]"
| "req_attrs (OpenAcc name pass ident money) = [(''name'', name), (''pass'', pass), (''id'', ident), (''money'', money)]"
| "req_attrs (Put acct money) = [(''account_id'', acct), (''money'', money)]"
| "req_attrs (Take acct pass money) = [(''account_id'', acct), (''pass'', pass), (''money'', money)]"
| "req_attrs (Move acct pass money other) =
     [(''account_id'', acct), (''pass'', pass), (''money'', money), (''other_account_id'', other)]"
| "req_attrs (Inquire acct pass) = [(''account_id'', acct), (''pass'', pass)]"
| "req_attrs (NewPass acct pass new) = [(''account_id'', acct), (''pass'', pass), (''newpass'', new)]"
| "req_attrs (DayBill page date) = [(''page'', page), (''date'', date)]"
| "req_attrs (Bill page begin_date end_date) = [(''page'', page), (''begin_date'', begin_date), (''end_date'', end_date)]"
| "req_attrs (AccBill page acct begin_date end_date) =
     [(''page'', page), (''account_id'', acct), (''begin_date'', begin_date), (''end_date'', end_date)]"
| "req_attrs (CloseAcc acct pass) = [(''account_id'', acct), (''pass'', pass)]"

definition filled_in :: "request \<Rightarrow> 'd ClientSession \<Rightarrow> bool" where
  "filled_in r session \<longleftrightarrow>
     cliCmd session = req_cmd r \<and> (\<forall>(k, v) \<in> set (req_attrs r). GetAttribute k session = v)"

text \<open>A text in a field of fixed size: as many bytes as the field has are read at \<open>c_str()\<close>, past the end of a
  shorter text, so that they have to be in memory.\<close>

definition field_ok :: "'d libs \<Rightarrow> nat \<Rightarrow> str \<Rightarrow> bool" where
  "field_ok lib n s \<longleftrightarrow> length s \<le> n \<and> 0 \<notin> set s \<and> n \<le> length (cStr lib s)"

definition field :: "'d libs \<Rightarrow> nat \<Rightarrow> str \<Rightarrow> str" where
  "field lib n s = take n (cStr lib s)"

lemma length_field [simp]: "field_ok lib n s \<Longrightarrow> length (field lib n s) = n"
  by (simp add: field_ok_def field_def)

lemma field_text:
  assumes "libs_ok lib" "field_ok lib n s"
  shows "cstring (field lib n s @ [0]) = Some s"
proof -
  obtain junk where junk: "cStr lib s = s @ 0 # junk" using cStr_prefix [OF assms(1)] by blast
  have "\<exists>r. field lib n s @ [0] = s @ 0 # r"
    using assms(2) by (cases "n = length s") (auto simp: field_def field_ok_def junk take_Cons')
  then show ?thesis using assms(2) cstring_ok [of s] by (auto simp: field_ok_def)
qed

text \<open>Well-formed requests: account numbers, dates and identity numbers that fit their fields, short passwords, and
  texts that fit the server's buffer. The forms of the client check these.\<close>

fun req_ok :: "'d libs \<Rightarrow> request \<Rightarrow> bool" where
  "req_ok lib (Login name pass) \<longleftrightarrow> length name \<le> 2000 \<and> pass_ok lib pass"
| "req_ok lib (OpenAcc name pass ident money) \<longleftrightarrow>
     length name + length money \<le> 1900 \<and> pass_ok lib pass \<and> field_ok lib 18 ident \<and> length ident = 18"
| "req_ok lib (Put acct money) \<longleftrightarrow> field_ok lib 6 acct \<and> length money \<le> 1900"
| "req_ok lib (Take acct pass money) \<longleftrightarrow> field_ok lib 6 acct \<and> pass_ok lib pass \<and> length money \<le> 1900"
| "req_ok lib (Move acct pass money other) \<longleftrightarrow>
     field_ok lib 6 acct \<and> pass_ok lib pass \<and> length money \<le> 1900 \<and> field_ok lib 6 other"
| "req_ok lib (Inquire acct pass) \<longleftrightarrow> field_ok lib 6 acct \<and> pass_ok lib pass"
| "req_ok lib (NewPass acct pass new) \<longleftrightarrow> field_ok lib 6 acct \<and> pass_ok lib pass \<and> pass_ok lib new"
| "req_ok lib (DayBill page date) \<longleftrightarrow> field_ok lib 10 date"
| "req_ok lib (Bill page begin_date end_date) \<longleftrightarrow> field_ok lib 10 begin_date \<and> field_ok lib 10 end_date"
| "req_ok lib (AccBill page acct begin_date end_date) \<longleftrightarrow>
     field_ok lib 6 acct \<and> field_ok lib 10 begin_date \<and> field_ok lib 10 end_date"
| "req_ok lib (CloseAcc acct pass) \<longleftrightarrow> field_ok lib 6 acct \<and> pass_ok lib pass"

text \<open>The body of the request packet.\<close>

definition sealed :: "'d libs \<Rightarrow> ushort \<Rightarrow> str \<Rightarrow> str" where
  "sealed lib cmd pass = encrypt16 cmd (take 16 (cStr lib pass))"

definition page_of :: "'d libs \<Rightarrow> str \<Rightarrow> word32" where
  "page_of lib page = read_uint32 page (rawInt lib)"

fun req_body :: "'d libs \<Rightarrow> request \<Rightarrow> str" where
  "req_body lib (Login name pass) = str_bytes name @ sealed lib CMD_LOGIN pass"
| "req_body lib (OpenAcc name pass ident money) =
     str_bytes name @ sealed lib CMD_OPEN_ACCOUNT pass @ field lib 18 ident @ str_bytes money"
| "req_body lib (Put acct money) = field lib 6 acct @ str_bytes money"
| "req_body lib (Take acct pass money) = field lib 6 acct @ sealed lib CMD_WITHDRAW pass @ str_bytes money"
| "req_body lib (Move acct pass money other) = field lib 6 acct @ sealed lib CMD_TRANSFER pass @ str_bytes money @ field lib 6 other"
| "req_body lib (Inquire acct pass) = field lib 6 acct @ sealed lib CMD_BALANCE_INQUIRY pass"
| "req_body lib (NewPass acct pass new) =
     field lib 6 acct @ sealed lib CMD_CHANGE_PASSWORD pass @ sealed lib CMD_CHANGE_PASSWORD new"
| "req_body lib (DayBill page date) = be32 (page_of lib page) @ field lib 10 date"
| "req_body lib (Bill page begin_date end_date) = be32 (page_of lib page) @ field lib 10 begin_date @ field lib 10 end_date"
| "req_body lib (AccBill page acct begin_date end_date) =
     be32 (page_of lib page) @ field lib 6 acct @ field lib 10 begin_date @ field lib 10 end_date"
| "req_body lib (CloseAcc acct pass) = field lib 6 acct @ sealed lib CMD_CLOSE_ACCOUNT pass"

lemma length_sealed: "pass_ok lib p \<Longrightarrow> length (sealed lib cmd p) = 16"
  by (simp add: sealed_def pass_ok_def)

lemma req_body_short: "req_ok lib r \<Longrightarrow> length (req_body lib r) \<le> 2036"
  by (cases r) (auto simp: length_str_bytes length_sealed)

lemma length_short: "length s \<le> 2000 \<Longrightarrow> length (str_bytes s) = 2 + length s"
  by (simp add: length_str_bytes)

lemma write_pass_of [packet_simps]:
  assumes "libs_ok lib" "pass_ok lib p" "roomy z" "length c < 2 ^ 59"
  shows "write_pass lib cmd p (out_of c z) = Some (out_of (c @ sealed lib cmd p) (drop 16 z))"
  using pass_bytes [OF assms(1,2)] assms(3,4) by (simp add: write_pass_def sealed_def out_ops packet_simps)

lemma write_field_of [packet_simps]:
  assumes "field_ok lib n s" "roomy z" "length c + n < 2 ^ 60"
  shows "write_c_str lib s n (out_of c z) = Some (out_of (c @ field lib n s) (drop n z))"
  using assms by (simp add: write_c_str_def c_bytes_def field_ok_def field_def Let_def out_ops packet_simps)

lemmas request_defs = UserLogin_request_def OpenAccount_request_def Deposit_request_def Withdrawal_request_def
  Transfer_request_def BalanceInquiry_request_def ChangePassword_request_def QueryDayBill_request_def
  QueryHistoryBill_request_def QueryAccountHistoryBill_request_def CloseAccount_request_def

text \<open>The client builds the packet of the request that was filled in.\<close>

lemma client_request_packet:
  assumes "libs_ok lib" "req_ok lib r" "filled_in r session"
  shows "client_request lib session = Some (packet sizeof_RequestHead (req_cmd r) (req_body lib r))"
  using assms
  by (cases r)
    (simp_all add: client_request_def filled_in_def request_defs Let_def out_ops packet_simps 
      length_sealed length_short sizeof_RequestHead_def page_of_def del: drop_replicate)

section \<open>The server performs what was asked\<close>

datatype 'd answer =
    Plain "ushort \<times> str"
  | Opened "ushort \<times> str" "'d Account"
  | Receipt "ushort \<times> str" "'d Account"
  | Closed "ushort \<times> str" "'d Account" 'd
  | Details int "'d TransDetail list"

definition account_for :: "'d libs \<Rightarrow> str \<Rightarrow> 'd Account" where
  "account_for lib acct = (Account_new lib)\<lparr>accId := StringToInt lib acct\<rparr>"

text \<open>The call of the service that a request means, and what is answered.\<close>

definition answers :: "('s, 'a) outcome \<Rightarrow> ('a \<Rightarrow> 'd answer) \<Rightarrow> ('s, 'd answer) outcome" where
  "answers called f = map_option (map_prod (map_sum id f) id) called"

fun perform :: "'d libs \<Rightarrow> ('s, 'd) IBankService \<Rightarrow> request \<Rightarrow> 's \<Rightarrow> ('s, 'd answer) outcome" where
  "perform lib dao (Login name pass) db = answers (svcUserLogin dao name pass db) (\<lambda>ret. Plain (login_error ret))"
| "perform lib dao (OpenAcc name pass ident money) db =
     answers (svcOpenAccount dao ((Account_new lib)\<lparr>accCard := ident, accName := name, accPass := pass,
         accBalance := StringToDouble lib money\<rparr>) db)
       (\<lambda>(ret, acc). Opened (login_error ret) acc)"
| "perform lib dao (Put acct money) db =
     answers (svcDeposit dao ((account_for lib acct)\<lparr>accBalance := StringToDouble lib money\<rparr>) db)
       (\<lambda>(ret, acc). Receipt (deposit_error ret) acc)"
| "perform lib dao (Take acct pass money) db =
     answers (svcWithDraw dao ((account_for lib acct)\<lparr>accPass := pass, accBalance := StringToDouble lib money\<rparr>) db)
       (\<lambda>(ret, acc). Receipt (withdraw_error ret) acc)"
| "perform lib dao (Move acct pass money other) db =
     answers (svcTransfer dao ((account_for lib acct)\<lparr>accPass := pass, accBalance := StringToDouble lib money\<rparr>) other db)
       (\<lambda>(ret, acc). Receipt (transfer_error ret) acc)"
| "perform lib dao (Inquire acct pass) db =
     answers (svcBalanceInquiry dao ((account_for lib acct)\<lparr>accPass := pass\<rparr>) db)
       (\<lambda>(ret, acc). Receipt (account_error ret) acc)"
| "perform lib dao (NewPass acct pass new) db =
     answers (svcChangePassword dao ((account_for lib acct)\<lparr>accPass := pass\<rparr>) new db)
       (\<lambda>(ret, acc). Plain (account_error ret))"
| "perform lib dao (DayBill page date) db =
     answers (svcQueryDayBill dao (page_of lib page) date db) (\<lambda>(ret, tds). Details ret tds)"
| "perform lib dao (Bill page begin_date end_date) db =
     answers (svcQueryHistoryBill dao (page_of lib page) begin_date end_date db) (\<lambda>(ret, tds). Details ret tds)"
| "perform lib dao (AccBill page acct begin_date end_date) db =
     answers (svcQueryAccountHistoryBill dao (page_of lib page) acct begin_date end_date db) (\<lambda>(ret, tds). Details ret tds)"
| "perform lib dao (CloseAcc acct pass) db =
     answers (svcCloseAccount dao ((account_for lib acct)\<lparr>accPass := pass\<rparr>) (rawDouble lib) db)
       (\<lambda>(ret, acc, interest). Closed (account_error ret) acc interest)"

fun answer_packets :: "'d libs \<Rightarrow> ushort \<Rightarrow> 'd answer \<Rightarrow> str list option" where
  "answer_packets lib cmd (Plain err) = map_option (\<lambda>p. [p]) (plain_reply cmd err)"
| "answer_packets lib cmd (Opened err acc) = map_option (\<lambda>p. [p]) (opened_reply lib cmd err acc)"
| "answer_packets lib cmd (Receipt err acc) = map_option (\<lambda>p. [p]) (receipt_reply lib cmd err acc)"
| "answer_packets lib cmd (Closed err acc interest) = map_option (\<lambda>p. [p]) (closed_reply lib cmd err acc interest)"
| "answer_packets lib cmd (Details ret tds) = bill_replies lib cmd ret tds"

lemma read_array_of [packet_simps]:
  assumes "length s = n" "0 \<notin> set s" "length p + n + length r < 2 ^ 60"
  shows "read_array n (in_of p (s @ r)) = Some (s, in_of (p @ s) r)"
  using assms cstring_ok [of s "[]"] by (simp add: read_array_def stream_simps)

lemma read_field_of [packet_simps]:
  assumes "libs_ok lib" "field_ok lib n s" "length p + n + length r < 2 ^ 60"
  shows "read_array n (in_of p (field lib n s @ r)) = Some (s, in_of (p @ field lib n s) r)"
  using assms field_text [OF assms(1,2)] by (simp add: read_array_def stream_simps)

lemma read_pass_of [packet_simps]:
  assumes "libs_ok lib" "pass_ok lib pw" "length p + length r < 2 ^ 59"
  shows "read_pass cmd (in_of p (sealed lib cmd pw @ r)) = Some (pw, in_of (p @ sealed lib cmd pw) r)"
  using pass_bytes [OF assms(1,2)] assms(3) by (simp add: read_pass_def sealed_def stream_simps)

lemma in_string_short [packet_simps]:
  assumes "length s \<le> 2000" "length p + length r < 2 ^ 59"
  shows "in_string (in_of p (str_bytes s @ r)) = Some (s, in_of (p @ str_bytes s) r)"
  using assms by (simp add: in_string_of length_str_bytes)

lemma in_page [packet_simps]:
  "length p + length r < 2 ^ 59 \<Longrightarrow> in_uint32 (in_of p (be32 y @ r)) = Some (y, in_of (p @ be32 y) r)"
  by (simp add: in_uint32_of)

lemmas execute_defs = UserLogin_Execute_def OpenAccount_Execute_def Deposit_Execute_def Withdrawal_Execute_def
  Transfer_Execute_def BalanceInquiry_Execute_def ChangePassword_Execute_def QueryDayBill_Execute_def
  QueryHistoryBill_Execute_def QueryAccountHistoryBill_Execute_def CloseAccount_Execute_def

lemma reply_answers: "reply (answers called f) g = reply called (\<lambda>a. g (f a))"
proof (cases called)
  case (Some p)
  obtain x db where "p = (x, db)" by (cases p)
  with Some show ?thesis by (cases x) (simp_all add: reply_def answers_def)
qed (simp add: reply_def answers_def)

lemma server_performs:
  assumes "libs_ok lib" "req_ok lib r" "session_GetCmd s = req_cmd r"
    and "request_stream s = Some (JInStream_new (req_body lib r @ h))" "length h = 8"
  shows "server_DoAction lib dao s db = reply (perform lib dao r db) (answer_packets lib (req_cmd r))"
  using assms
  by (cases r)
    (simp_all add: server_DoAction_def execute_defs in_new packet_simps length_sealed length_short
      account_for_def Account_new_def reply_answers Let_def case_prod_unfold)

section \<open>What the client shows\<close>

text \<open>The rest of a response packet: count, number, error, message and body.\<close>

definition reply_rest :: "ushort \<Rightarrow> ushort \<Rightarrow> ushort \<times> str \<Rightarrow> str \<Rightarrow> str" where
  "reply_rest cnt seq err body = be16 cnt @ be16 seq @ be16 (fst err) @ take 30 (error_array (snd err)) @ body"

definition err_ok :: "ushort \<times> str \<Rightarrow> bool" where
  "err_ok err \<longleftrightarrow> length (snd err) < 30 \<and> 0 \<notin> set (snd err)"

lemma err_ok_tables [simp]:
  "err_ok (login_error ret)" "err_ok (deposit_error ret)" "err_ok (account_error ret)" "err_ok (withdraw_error ret)"
  "err_ok (transfer_error ret)" "err_ok (bill_error ret)" "err_ok (0, [])"
  by (simp_all add: err_ok_def login_error_def deposit_error_def account_error_def withdraw_error_def
      transfer_error_def bill_error_def msg_login_def msg_no_account_def msg_bad_pass_def msg_no_money_def
      msg_no_other_def msg_no_data_def msg_database_def)

lemma error_array_ok:
  assumes "err_ok err"
  shows "length (take 30 (error_array (snd err))) = 30" "cstring (take 30 (error_array (snd err))) = Some (snd err)"
proof -
  have l: "length (snd err) < 30" using assms by (simp add: err_ok_def)
  then have "error_array (snd err) = snd err @ 0 # replicate (30 - length (snd err)) 0"
    by (simp add: error_array_def put_at_def)
  then have "take 30 (error_array (snd err)) = snd err @ 0 # take (29 - length (snd err)) (replicate (30 - length (snd err)) 0)"
    using l by (simp add: take_Cons' Suc_diff_le)
  then show "length (take 30 (error_array (snd err))) = 30" "cstring (take 30 (error_array (snd err))) = Some (snd err)"
    using l assms by (simp_all add: cstring_ok err_ok_def)
qed

lemma length_reply_rest: "err_ok err \<Longrightarrow> length (reply_rest cnt seq err body) = 36 + length body"
  by (simp add: reply_rest_def error_array_ok(1) del: length_take)

lemma open_reply_of [packet_simps]:
  "err_ok (code, msg) \<Longrightarrow> open_reply cmd cnt seq code msg =
     Some (2, out_of (be16 cmd @ 0 # 0 # reply_rest cnt seq (code, msg) []) (replicate 984 0))"
  using error_array_ok [of "(code, msg)"]
  by (simp add: open_reply_def packet_simps out_ops reply_rest_def)

lemma plain_reply_packet:
  "err_ok err \<Longrightarrow> plain_reply cmd err = Some (packet sizeof_ResponseHead cmd (reply_rest 0 0 err []))"
  by (simp add: plain_reply_def packet_simps length_reply_rest sizeof_ResponseHead_def)

lemma reply_rest_append: "reply_rest cnt seq err xs @ body = reply_rest cnt seq err (xs @ body)"
  by (simp add: reply_rest_def)

text \<open>The bodies.\<close>

definition receipt_body :: "'d libs \<Rightarrow> ushort \<times> str \<Rightarrow> 'd Account \<Rightarrow> str" where
  "receipt_body lib err acc =
     (if fst err = 0
      then str_bytes (accName acc) @ str_bytes (DoubleToString lib (accBalance acc)) @ take 19 (accDate acc) else [])"

definition closed_body :: "'d libs \<Rightarrow> ushort \<times> str \<Rightarrow> 'd Account \<Rightarrow> 'd \<Rightarrow> str" where
  "closed_body lib err acc interest =
     (if fst err = 0
      then str_bytes (accName acc) @ str_bytes (DoubleToString lib (accBalance acc)) @
        str_bytes (DoubleToString lib interest) @ take 19 (accDate acc) else [])"

definition account_text :: "'d Account \<Rightarrow> str" where
  "account_text acc = take 6 (setw0 6 (dec_int (accId acc)))"

definition opened_body :: "'d Account \<Rightarrow> str" where
  "opened_body acc = account_text acc @ str_bytes (accDate acc)"

definition detail_body :: "'d libs \<Rightarrow> 'd TransDetail \<Rightarrow> str" where
  "detail_body lib td =
     take 19 (trans_date td) @ field lib 6 (td_account_id td) @ field lib 6 (td_other_account_id td) @
     str_bytes (DoubleToString lib (td_money td)) @ str_bytes (abstract_name td) @
     str_bytes (DoubleToString lib (td_balance td)) @ be32 (td_total td)"

text \<open>Answers whose texts fit the client's buffer, with dates of 19 characters.\<close>

definition date_ok :: "str \<Rightarrow> bool" where
  "date_ok d \<longleftrightarrow> 19 \<le> length d \<and> 0 \<notin> set (take 19 d)"

definition td_ok :: "'d libs \<Rightarrow> 'd TransDetail \<Rightarrow> bool" where
  "td_ok lib td \<longleftrightarrow>
     date_ok (trans_date td) \<and> field_ok lib 6 (td_account_id td) \<and> field_ok lib 6 (td_other_account_id td) \<and>
     length (abstract_name td) + length (DoubleToString lib (td_money td)) +
       length (DoubleToString lib (td_balance td)) \<le> 1900"

fun ans_ok :: "'d libs \<Rightarrow> 'd answer \<Rightarrow> bool" where
  "ans_ok lib (Plain err) \<longleftrightarrow> err_ok err"
| "ans_ok lib (Opened err acc) \<longleftrightarrow> err_ok err \<and> length (accDate acc) \<le> 1900"
| "ans_ok lib (Receipt err acc) \<longleftrightarrow> err_ok err \<and>
     (fst err = 0 \<longrightarrow> length (accName acc) + length (DoubleToString lib (accBalance acc)) \<le> 1900 \<and> date_ok (accDate acc))"
| "ans_ok lib (Closed err acc interest) \<longleftrightarrow> err_ok err \<and>
     (fst err = 0 \<longrightarrow> length (accName acc) + length (DoubleToString lib (accBalance acc)) +
        length (DoubleToString lib interest) \<le> 1900 \<and> date_ok (accDate acc))"
| "ans_ok lib (Details ret tds) \<longleftrightarrow>
     (fst (bill_error ret) = 0 \<longrightarrow> tds \<noteq> [] \<and> length tds < 2 ^ 16 \<and> list_all (td_ok lib) tds)"

text \<open>The packets of an answer.\<close>

fun detail_rests :: "'d libs \<Rightarrow> ushort \<Rightarrow> ushort \<Rightarrow> 'd TransDetail list \<Rightarrow> str list" where
  "detail_rests lib cnt seq [] = []"
| "detail_rests lib cnt seq (td # tds) =
     reply_rest cnt seq (0, []) (detail_body lib td) # detail_rests lib cnt (seq + 1) tds"

fun answer_rests :: "'d libs \<Rightarrow> 'd answer \<Rightarrow> str list" where
  "answer_rests lib (Plain err) = [reply_rest 0 0 err []]"
| "answer_rests lib (Opened err acc) = [reply_rest 0 0 err (opened_body acc)]"
| "answer_rests lib (Receipt err acc) = [reply_rest 0 0 err (receipt_body lib err acc)]"
| "answer_rests lib (Closed err acc interest) = [reply_rest 0 0 err (closed_body lib err acc interest)]"
| "answer_rests lib (Details ret tds) =
     (if fst (bill_error ret) = 0 then detail_rests lib (of_nat (length tds)) 0 tds else [reply_rest 0 0 (bill_error ret) []])"

lemma write_prefix_of [packet_simps]:
  assumes "libs_ok lib" "n \<le> length s" "roomy z" "length c + n < 2 ^ 60"
  shows "write_c_str lib s n (out_of c z) = Some (out_of (c @ take n s) (drop n z))"
  using assms by (simp add: write_c_str_def c_bytes_ok out_ops packet_simps min_def)

lemma dec_nat_length: "0 < length (dec_nat n)"
  by (subst dec_nat.simps) simp

lemma setw0_length: "n \<le> length (setw0 n s)"
  by (simp add: setw0_def)

lemma receipt_packet:
  assumes "libs_ok lib" "ans_ok lib (Receipt err acc)"
  shows "receipt_reply lib cmd err acc =
    Some (packet sizeof_ResponseHead cmd (reply_rest 0 0 err (receipt_body lib err acc)))"
  using assms
  by (cases err; cases "fst err = 0") (simp_all add: receipt_reply_def receipt_body_def date_ok_def packet_simps length_reply_rest length_short
      reply_rest_append sizeof_ResponseHead_def Let_def del: drop_replicate)

lemma closed_packet:
  assumes "libs_ok lib" "ans_ok lib (Closed err acc interest)"
  shows "closed_reply lib cmd err acc interest =
    Some (packet sizeof_ResponseHead cmd (reply_rest 0 0 err (closed_body lib err acc interest)))"
  using assms
  by (cases err; cases "fst err = 0") (simp_all add: closed_reply_def closed_body_def date_ok_def packet_simps length_reply_rest length_short
      reply_rest_append sizeof_ResponseHead_def Let_def del: drop_replicate)

lemma opened_packet:
  assumes "libs_ok lib" "ans_ok lib (Opened err acc)"
  shows "opened_reply lib cmd err acc = Some (packet sizeof_ResponseHead cmd (reply_rest 0 0 err (opened_body acc)))"
  using assms setw0_length [of 6 "dec_int (accId acc)"]
  by (cases err) (simp add: opened_reply_def opened_body_def account_text_def packet_simps length_reply_rest length_short
      reply_rest_append sizeof_ResponseHead_def Let_def del: drop_replicate)

lemma detail_packet:
  assumes "libs_ok lib" "td_ok lib td"
  shows "detail_reply lib cmd cnt seq td =
    Some (packet sizeof_ResponseHead cmd (reply_rest cnt seq (0, []) (detail_body lib td)))"
  using assms
  by (simp add: detail_reply_def detail_body_def td_ok_def date_ok_def field_ok_def packet_simps length_reply_rest
      length_short reply_rest_append sizeof_ResponseHead_def Let_def out_ops del: drop_replicate)

lemma details_packets:
  "libs_ok lib \<Longrightarrow> list_all (td_ok lib) tds \<Longrightarrow>
   detail_replies lib cmd cnt seq tds = Some (map (packet sizeof_ResponseHead cmd) (detail_rests lib cnt seq tds))"
  by (induction tds arbitrary: seq) (simp_all add: detail_packet)

lemma answer_packets_of:
  assumes "libs_ok lib" "ans_ok lib ans"
  shows "answer_packets lib cmd ans = Some (map (packet sizeof_ResponseHead cmd) (answer_rests lib ans))"
  using assms
  by (cases ans)
    (simp_all add: plain_reply_packet receipt_packet closed_packet opened_packet bill_replies_def details_packets
      Let_def del: ans_ok.simps(2,3,4))

section \<open>The client reads the answer\<close>

text \<open>How a detail is shown: its amounts have gone through text.\<close>

definition shown_detail :: "'d libs \<Rightarrow> 'd TransDetail \<Rightarrow> 'd TransDetail" where
  "shown_detail lib td =
     td\<lparr>trans_date := take 19 (trans_date td), td_money := StringToDouble lib (DoubleToString lib (td_money td)),
        td_balance := StringToDouble lib (DoubleToString lib (td_balance td))\<rparr>"

definition show_error :: "ushort \<times> str \<Rightarrow> 'd ClientSession \<Rightarrow> 'd ClientSession" where
  "show_error err s = s\<lparr>errorCode := fst err, errorMsg := snd err\<rparr>"

definition show_receipt :: "'d libs \<Rightarrow> 'd Account \<Rightarrow> 'd ClientSession \<Rightarrow> 'd ClientSession" where
  "show_receipt lib acc s =
     SetResponse ''trans_date'' (take 19 (accDate acc)) (SetResponse ''balance'' (DoubleToString lib (accBalance acc))
       (SetResponse ''name'' (accName acc) s))"

fun shows_answer :: "'d libs \<Rightarrow> 'd answer \<Rightarrow> 'd ClientSession \<Rightarrow> 'd ClientSession" where
  "shows_answer lib (Plain err) s = show_error err s"
| "shows_answer lib (Opened err acc) s =
     (if fst err = 0
      then SetResponse ''open_date'' (accDate acc) (SetResponse ''account_id'' (account_text acc) (show_error err s))
      else show_error err s)"
| "shows_answer lib (Receipt err acc) s =
     (if fst err = 0 then show_receipt lib acc (show_error err s) else show_error err s)"
| "shows_answer lib (Closed err acc interest) s =
     (if fst err = 0
      then SetResponse ''close_date'' (take 19 (accDate acc))
        (SetResponse ''interest'' (DoubleToString lib interest) (SetResponse ''balance'' (DoubleToString lib (accBalance acc))
          (SetResponse ''name'' (accName acc) (show_error err s))))
      else show_error err s)"
| "shows_answer lib (Details ret tds) s =
     (if fst (bill_error ret) = 0
      then (show_error (0, []) s)\<lparr>details := details s @ map (shown_detail lib) tds\<rparr>
      else show_error (bill_error ret) s)"

text \<open>A session that has just received the packet with \<open>rest\<close>.\<close>

definition received_rest :: "str \<Rightarrow> 'd ClientSession \<Rightarrow> bool" where
  "received_rest rest s \<longleftrightarrow>
     length (cliBuffer s) = 2048 \<and> (\<exists>hd4 h. length hd4 = 4 \<and> length h = 8 \<and> response_bytes s = Some (hd4 @ rest @ h))"

lemma client_receives:
  assumes ok: "conn_ok (cliConn s)" and len: "length (cliBuffer s) = 2048"
    and coming: "coming (cliConn s) = packet sizeof_ResponseHead cmd rest @ ms"
    and rest: "36 \<le> length rest" "length rest \<le> 2036"
  shows "\<exists>c b. client_Recv s = Some (Inr (s\<lparr>cliConn := c, cliBuffer := b\<rparr>)) \<and> conn_ok c \<and> coming c = ms \<and>
    received_rest rest (s\<lparr>cliConn := c, cliBuffer := b\<rparr>)"
proof -
  let ?len = "of_nat (length rest - 28) :: ushort"
  obtain c h where c: "client_Recv s = Some (Inr (s\<lparr>cliConn := c, cliBuffer := store16le cmd @ store16le ?len @
      rest @ h @ drop (length rest + 12) (cliBuffer s)\<rparr>))" "length h = 8" "conn_ok c" "coming c = ms"
    using client_Recv_packet [OF assms] by blast
  let ?b = "store16le cmd @ store16le ?len @ rest @ h @ drop (length rest + 12) (cliBuffer s)"
  have n: "unat ?len = length rest - 28" unfolding unat_of_nat using rest by simp
  have lb: "length ?b = 2048" using len rest c(2) by simp
  have "take (length rest + 12) ?b = (store16le cmd @ store16le ?len) @ rest @ h" using c(2) by simp
  then have "response_bytes (s\<lparr>cliConn := c, cliBuffer := ?b\<rparr>) = Some ((store16le cmd @ store16le ?len) @ rest @ h)"
    using lb n rest by (simp add: response_bytes_def sizeof_ResponseHead_def Let_def)
  then have "\<exists>hd4 h. length hd4 = 4 \<and> length h = 8 \<and>
      response_bytes (s\<lparr>cliConn := c, cliBuffer := ?b\<rparr>) = Some (hd4 @ rest @ h)"
    using c(2) by (intro exI [of _ "store16le cmd @ store16le ?len"] exI [of _ h]) simp
  then have "received_rest rest (s\<lparr>cliConn := c, cliBuffer := ?b\<rparr>)"
    unfolding received_rest_def using lb by simp
  with c show ?thesis by blast
qed

lemma response_head_of:
  assumes "length hd4 = 4" "length msg = 30" "length body < 2 ^ 32" "length h = 8"
  shows "response_head (JInStream_new (hd4 @ (be16 cnt @ be16 seq @ be16 code @ msg @ body) @ h)) =
    Some (cnt, seq, code, msg, in_of (hd4 @ be16 cnt @ be16 seq @ be16 code @ msg) (body @ h))"
proof -
  have "in_Skip 4 (in_of [] (hd4 @ (be16 cnt @ be16 seq @ be16 code @ msg @ body) @ h)) =
      Some (in_of hd4 (be16 cnt @ be16 seq @ be16 code @ msg @ body @ h))"
    using assms by (simp add: in_Skip_of)
  then show ?thesis using assms by (simp add: response_head_def in_new stream_simps)
qed

lemma response_head_rest:
  assumes "received_rest (reply_rest cnt seq err body) s" "err_ok err" "length body < 2 ^ 32"
  shows "\<exists>bs p h. response_bytes s = Some bs \<and> length p < 100 \<and> length h = 8 \<and>
    response_head (JInStream_new bs) = Some (cnt, seq, fst err, take 30 (error_array (snd err)), in_of p (body @ h))"
proof -
  obtain hd4 h where "length hd4 = 4" "length h = 8" "response_bytes s = Some (hd4 @ reply_rest cnt seq err body @ h)"
    using assms(1) by (auto simp: received_rest_def)
  moreover from this have "response_head (JInStream_new (hd4 @ reply_rest cnt seq err body @ h)) =
      Some (cnt, seq, fst err, take 30 (error_array (snd err)),
        in_of (hd4 @ be16 cnt @ be16 seq @ be16 (fst err) @ take 30 (error_array (snd err))) (body @ h))"
    unfolding reply_rest_def using error_array_ok(1) [OF assms(2)] assms(3) by (intro response_head_of)
  moreover have "length (hd4 @ be16 cnt @ be16 seq @ be16 (fst err) @ take 30 (error_array (snd err))) < 100"
    using \<open>length hd4 = 4\<close> by simp
  ultimately show ?thesis by blast
qed

lemma open_response_rest:
  assumes "received_rest (reply_rest cnt seq err body) s" "err_ok err" "length body < 2 ^ 32"
  shows "\<exists>p h. length p < 100 \<and> length h = 8 \<and> open_response s = Some (cnt, fst err, in_of p (body @ h), show_error err s)"
  using response_head_rest [OF assms] error_array_ok(2) [OF assms(2)]
  by (fastforce simp: open_response_def show_error_def)

lemma plain_shown:
  assumes "received_rest (reply_rest 0 0 err []) s" "err_ok err"
  shows "plain_response s = Some (show_error err s)"
  using open_response_rest [OF assms] by (auto simp: plain_response_def)

lemma receipt_shown:
  assumes "received_rest (reply_rest 0 0 err (receipt_body lib err acc)) s" "ans_ok lib (Receipt err acc)"
  shows "receipt_response s = Some (shows_answer lib (Receipt err acc) s)"
proof -
  have "length (receipt_body lib err acc) < 2 ^ 32" using assms(2) by (auto simp: receipt_body_def length_short)
  then obtain p h where "length p < 100" "length h = 8"
    "open_response s = Some (0, fst err, in_of p (receipt_body lib err acc @ h), show_error err s)"
    using open_response_rest [OF assms(1)] assms(2) by auto
  then show ?thesis
    using assms(2)
    by (cases "fst err = 0")
      (simp_all add: receipt_response_def receipt_body_def packet_simps date_ok_def length_short show_receipt_def)
qed

lemma closed_shown:
  assumes "received_rest (reply_rest 0 0 err (closed_body lib err acc interest)) s" "ans_ok lib (Closed err acc interest)"
  shows "CloseAccount_response s = Some (shows_answer lib (Closed err acc interest) s)"
proof -
  have "length (closed_body lib err acc interest) < 2 ^ 32" using assms(2) by (auto simp: closed_body_def length_short)
  then obtain p h where "length p < 100" "length h = 8"
    "open_response s = Some (0, fst err, in_of p (closed_body lib err acc interest @ h), show_error err s)"
    using open_response_rest [OF assms(1)] assms(2) by auto
  then show ?thesis
    using assms(2)
    by (cases "fst err = 0")
      (simp_all add: CloseAccount_response_def closed_body_def packet_simps date_ok_def length_short)
qed

lemma account_text_ok: "length (account_text acc) = 6" "0 \<notin> set (account_text acc)"
proof -
  have "0 \<notin> set (setw0 6 (dec_int (accId acc)))"
    using dec_nat_nonzero by (auto simp: setw0_def dec_int_def)
  then show "0 \<notin> set (account_text acc)" unfolding account_text_def by (meson in_set_takeD)
qed (simp add: account_text_def setw0_length)

lemma opened_shown:
  assumes "received_rest (reply_rest 0 0 err (opened_body acc)) s" "ans_ok lib (Opened err acc)"
  shows "OpenAccount_response s = Some (shows_answer lib (Opened err acc) s)"
proof -
  have len: "length (accDate acc) \<le> 1900" using assms(2) by simp
  then have "length (opened_body acc) < 2 ^ 32" by (simp add: opened_body_def account_text_ok length_short)
  then obtain p h where "length p < 100" "length h = 8"
    "open_response s = Some (0, fst err, in_of p (opened_body acc @ h), show_error err s)"
    using open_response_rest [OF assms(1)] assms(2) by auto
  then show ?thesis
    using len account_text_ok [of acc]
    by (cases "fst err = 0") (simp_all add: OpenAccount_response_def opened_body_def packet_simps length_short)
qed

text \<open>Bills: the packets are read one after the other; the sequence numbers end the loop with the last.\<close>

lemma detail_read:
  assumes "received_rest (reply_rest cnt seq (0, []) (detail_body lib td)) s" "td_ok lib td" "libs_ok lib"
  shows "read_detail lib s = Some (cnt, seq, shown_detail lib td)"
proof -
  have td: "length (take 19 (trans_date td)) = 19" "0 \<notin> set (take 19 (trans_date td))"
    "field_ok lib 6 (td_account_id td)" "field_ok lib 6 (td_other_account_id td)"
    "length (abstract_name td) \<le> 2000" "length (DoubleToString lib (td_money td)) \<le> 2000"
    "length (DoubleToString lib (td_balance td)) \<le> 2000"
    using assms(2) by (auto simp: td_ok_def date_ok_def)
  then have "length (detail_body lib td) < 2 ^ 32" by (simp add: detail_body_def length_short)
  then obtain bs p h where bs: "response_bytes s = Some bs" "length p < 100" "length h = 8"
    "response_head (JInStream_new bs) = Some (cnt, seq, 0, take 30 (error_array []), in_of p (detail_body lib td @ h))"
    using response_head_rest [OF assms(1)] by auto
  show ?thesis
    using bs td assms(3) unfolding read_detail_def
    by (simp add: detail_body_def shown_detail_def packet_simps length_short in_uint32_of del: length_take)
qed

lemma length_detail_body: "td_ok lib td \<Longrightarrow> length (detail_body lib td) \<le> 2000"
  by (simp add: detail_body_def td_ok_def date_ok_def length_short)

lemma received_buffer: "received_rest rest s \<Longrightarrow> length (cliBuffer s) = 2048"
  by (simp add: received_rest_def)

lemma received_add: "received_rest rest (AddDetail td s) = received_rest rest s"
  by (simp add: received_rest_def response_bytes_def AddDetail_def Let_def)

lemma received_error: "received_rest rest (show_error err s) = received_rest rest s"
  by (simp add: received_rest_def response_bytes_def show_error_def Let_def)

lemma bill_loop_reads:
  assumes "list_all (td_ok lib) (td # tds)" "k + length (td # tds) = n" "n < 2 ^ 16"
    and "received_rest (reply_rest (of_nat n) (of_nat k) (0, []) (detail_body lib td)) s"
    and "conn_ok (cliConn s)"
    and "coming (cliConn s) =
      concat (map (packet sizeof_ResponseHead cmd) (detail_rests lib (of_nat n) (of_nat (Suc k)) tds)) @ ms"
    and lib: "libs_ok lib"
  shows "\<exists>c b. bill_loop lib (length (td # tds)) s =
      Some (Inr (s\<lparr>details := details s @ map (shown_detail lib) (td # tds), cliConn := c, cliBuffer := b\<rparr>)) \<and>
    conn_ok c \<and> coming c = ms \<and> length b = 2048"
  using assms(1-6)
proof (induction tds arbitrary: td k s)
  case Nil
  have seq: "int (unat (of_nat k :: ushort)) = int (unat (of_nat n :: ushort)) - 1"
    using Nil.prems(2,3) unfolding unat_of_nat by simp
  have rd: "read_detail lib s = Some (of_nat n, of_nat k, shown_detail lib td)"
    using Nil.prems by (intro detail_read lib) simp_all
  have "bill_loop lib (length [td]) s = Some (Inr (AddDetail (shown_detail lib td) s))"
    unfolding list.size bill_loop.simps add_Suc_right add_0_right rd Let_def bind.bind_lunit prod.case
    using seq by simp
  then show ?case
    using Nil.prems received_buffer
    by (intro exI [of _ "cliConn s"] exI [of _ "cliBuffer s"]) (auto simp: AddDetail_def)
next
  case (Cons td2 tds)
  let ?s = "AddDetail (shown_detail lib td) s"
  let ?rest = "reply_rest (of_nat n) (of_nat (Suc k)) (0, []) (detail_body lib td2)"
  have seq: "int (unat (of_nat k :: ushort)) \<noteq> int (unat (of_nat n :: ushort)) - 1"
    using Cons.prems(2,3) unfolding unat_of_nat by simp
  have rd: "read_detail lib s = Some (of_nat n, of_nat k, shown_detail lib td)"
    using Cons.prems by (intro detail_read lib) simp_all
  have td2: "length (detail_body lib td2) \<le> 2000" using Cons.prems(1) by (intro length_detail_body) simp
  have len: "36 \<le> length ?rest" "length ?rest \<le> 2036" using td2 by (simp_all add: length_reply_rest)
  have co: "coming (cliConn ?s) = packet sizeof_ResponseHead cmd ?rest @
      concat (map (packet sizeof_ResponseHead cmd) (detail_rests lib (of_nat n) (of_nat (Suc (Suc k))) tds)) @ ms"
    using Cons.prems(6) by (simp add: AddDetail_def add.commute)
  obtain c b where r: "client_Recv ?s = Some (Inr (?s\<lparr>cliConn := c, cliBuffer := b\<rparr>))" "conn_ok c"
    "coming c = concat (map (packet sizeof_ResponseHead cmd) (detail_rests lib (of_nat n) (of_nat (Suc (Suc k))) tds)) @ ms"
    "received_rest ?rest (?s\<lparr>cliConn := c, cliBuffer := b\<rparr>)"
    using client_receives [OF _ _ co len] Cons.prems(4,5) received_buffer by (auto simp: AddDetail_def)
  obtain c2 b2 where l: "bill_loop lib (length (td2 # tds)) (?s\<lparr>cliConn := c, cliBuffer := b\<rparr>) =
      Some (Inr (?s\<lparr>cliConn := c, cliBuffer := b, details := details ?s @ map (shown_detail lib) (td2 # tds),
        cliConn := c2, cliBuffer := b2\<rparr>))" "conn_ok c2" "coming c2 = ms" "length b2 = 2048"
    using Cons.IH [of td2 "Suc k" "?s\<lparr>cliConn := c, cliBuffer := b\<rparr>"] Cons.prems(1-3) r by auto
  have "bill_loop lib (length (td # td2 # tds)) s = bill_loop lib (length (td2 # tds)) (?s\<lparr>cliConn := c, cliBuffer := b\<rparr>)"
    unfolding list.size(4) [of td] add_Suc_right add_0_right bill_loop.simps(2) [of lib "length (td2 # tds)"]
      rd Let_def bind.bind_lunit prod.case if_not_P [OF seq] r(1) sum.case ..
  with l show ?case by (intro exI [of _ c2] exI [of _ b2]) (simp add: AddDetail_def)
qed

text \<open>Which kind of answer a request gets.\<close>

fun fits :: "request \<Rightarrow> 'd answer \<Rightarrow> bool" where
  "fits (Login _ _) ans = (\<exists>err. ans = Plain err)"
| "fits (OpenAcc _ _ _ _) ans = (\<exists>err acc. ans = Opened err acc)"
| "fits (NewPass _ _ _) ans = (\<exists>err. ans = Plain err)"
| "fits (DayBill _ _) ans = (\<exists>ret tds. ans = Details ret tds)"
| "fits (Bill _ _ _) ans = (\<exists>ret tds. ans = Details ret tds)"
| "fits (AccBill _ _ _ _) ans = (\<exists>ret tds. ans = Details ret tds)"
| "fits (CloseAcc _ _) ans = (\<exists>err acc interest. ans = Closed err acc interest)"
| "fits _ ans = (\<exists>err acc. ans = Receipt err acc)"

lemma answers_returned: "answers called f = Some (Inr ans, db') \<Longrightarrow> \<exists>a. called = Some (Inr a, db') \<and> ans = f a"
proof -
  assume returned: "answers called f = Some (Inr ans, db')"
  then obtain x db where "called = Some (x, db)" by (cases called) (auto simp: answers_def)
  with returned show ?thesis by (cases x) (auto simp: answers_def)
qed

lemma perform_fits: "perform lib dao r db = Some (Inr ans, db') \<Longrightarrow> fits r ans"
  by (cases r) (auto dest!: answers_returned)

lemma shows_answer_conn:
  "shows_answer lib ans (s\<lparr>cliConn := c, cliBuffer := b\<rparr>) = (shows_answer lib ans s)\<lparr>cliConn := c, cliBuffer := b\<rparr>"
  "shows_answer lib ans (s\<lparr>cliConn := c\<rparr>) = (shows_answer lib ans s)\<lparr>cliConn := c\<rparr>"
  by (cases ans; simp add: show_error_def show_receipt_def SetResponse_def)+

lemma shows_answer_kept [simp]:
  "cliConn (shows_answer lib ans s) = cliConn s" "cliBuffer (shows_answer lib ans s) = cliBuffer s"
  by (cases ans; simp add: show_error_def show_receipt_def SetResponse_def)+

lemma shows_answer_same:
  "(shows_answer lib ans s)\<lparr>cliConn := cliConn s, cliBuffer := cliBuffer s\<rparr> = shows_answer lib ans s"
proof -
  have "t\<lparr>cliConn := cliConn t, cliBuffer := cliBuffer t\<rparr> = t" for t :: "'a ClientSession" by simp
  from this [of "shows_answer lib ans s"] show ?thesis by simp
qed

lemma answer_rest_length:
  "ans_ok lib ans \<Longrightarrow> rest \<in> set (answer_rests lib ans) \<Longrightarrow> 36 \<le> length rest \<and> length rest \<le> 2036"
proof -
  have details: "rest \<in> set (detail_rests lib cnt seq tds) \<Longrightarrow> list_all (td_ok lib) tds \<Longrightarrow>
      36 \<le> length rest \<and> length rest \<le> 2036" for cnt seq tds
    by (induction tds arbitrary: seq) (auto simp: length_reply_rest dest: length_detail_body)
  show "ans_ok lib ans \<Longrightarrow> rest \<in> set (answer_rests lib ans) \<Longrightarrow> ?thesis"
    using details
    by (cases ans) (auto simp: length_reply_rest account_text_ok receipt_body_def closed_body_def opened_body_def length_short
        split: if_splits)
qed

lemma bill_shown:
  assumes "ans_ok lib (Details ret tds)" "answer_rests lib (Details ret tds) = rest # rests" "received_rest rest s"
    and "conn_ok (cliConn s)" "coming (cliConn s) = concat (map (packet sizeof_ResponseHead cmd) rests) @ ms"
    and lib: "libs_ok lib"
  shows "\<exists>c b. bill_response lib s = Some (Inr ((shows_answer lib (Details ret tds) s)\<lparr>cliConn := c, cliBuffer := b\<rparr>)) \<and>
    conn_ok c \<and> coming c = ms \<and> length b = 2048"
proof (cases "fst (bill_error ret) = 0")
  case False
  then have rest: "rest = reply_rest 0 0 (bill_error ret) []" "rests = []" using assms(2) by simp_all
  then obtain p h where "open_response s = Some (0, fst (bill_error ret), in_of p ([] @ h), show_error (bill_error ret) s)"
    using open_response_rest [of 0 0 "bill_error ret" "[]" s] assms(3) by auto
  then have "bill_response lib s = Some (Inr (shows_answer lib (Details ret tds) s))"
    using False by (simp add: bill_response_def)
  then show ?thesis
    using assms(3-5) rest(2) received_buffer [OF assms(3)]
    by (intro exI [of _ "cliConn s"] exI [of _ "cliBuffer s"]) (simp add: shows_answer_same del: shows_answer.simps)
next
  case True
  then have tds: "tds \<noteq> []" "length tds < 2 ^ 16" "list_all (td_ok lib) tds" using assms(1) by simp_all
  then obtain td tds' where td: "tds = td # tds'" by (cases tds) auto
  let ?n = "length tds" and ?s = "show_error (0, []) s"
  have rests: "rest = reply_rest (of_nat ?n) (of_nat 0) (0, []) (detail_body lib td)"
    "rests = detail_rests lib (of_nat ?n) (of_nat (Suc 0)) tds'"
    using assms(2) True td by simp_all
  have "length (detail_body lib td) \<le> 2000" using tds(3) td by (simp add: length_detail_body)
  then obtain p h where o: "open_response s = Some (of_nat ?n, 0, in_of p (detail_body lib td @ h), ?s)"
    using open_response_rest [OF assms(3) [unfolded rests]] by auto
  have n: "unat (of_nat ?n :: ushort) = length (td # tds')" unfolding unat_of_nat using tds(2) td by simp
  have rec: "received_rest (reply_rest (of_nat ?n) (of_nat 0) (0, []) (detail_body lib td)) ?s"
    using assms(3) unfolding rests received_error .
  have len: "0 + length (td # tds') = ?n" using td by simp
  have conn: "conn_ok (cliConn ?s)" "coming (cliConn ?s) =
      concat (map (packet sizeof_ResponseHead cmd) (detail_rests lib (of_nat ?n) (of_nat (Suc 0)) tds')) @ ms"
    using assms(4,5) unfolding rests by (simp_all add: show_error_def)
  obtain c b where l: "bill_loop lib (length (td # tds')) ?s =
      Some (Inr (?s\<lparr>details := details ?s @ map (shown_detail lib) (td # tds'), cliConn := c, cliBuffer := b\<rparr>))"
    "conn_ok c" "coming c = ms" "length b = 2048"
    using bill_loop_reads [OF tds(3) [unfolded td] len [unfolded td] tds(2) [unfolded td] rec [unfolded td] conn [unfolded td] lib]
    by (auto simp: td)
  have "bill_response lib s = bill_loop lib (unat (of_nat ?n :: ushort)) ?s"
    unfolding bill_response_def o by simp
  with l show ?thesis unfolding n by (intro exI [of _ c] exI [of _ b]) (simp add: True td show_error_def)
qed

lemma response_shown:
  assumes "fits r ans" "ans_ok lib ans" "cliCmd s = req_cmd r" "answer_rests lib ans = rest # rests"
    and "received_rest rest s" "conn_ok (cliConn s)"
    and "coming (cliConn s) = concat (map (packet sizeof_ResponseHead cmd) rests) @ ms"
    and lib: "libs_ok lib"
  shows "\<exists>c b. client_response lib s = Some (Inr ((shows_answer lib ans s)\<lparr>cliConn := c, cliBuffer := b\<rparr>)) \<and>
    conn_ok c \<and> coming c = ms \<and> length b = 2048"
proof -
  have buf: "length (cliBuffer s) = 2048" by (rule received_buffer [OF assms(5)])
  have one: ?thesis if "rests = []" "client_response lib s = Some (Inr (shows_answer lib ans s))"
    using that assms(6,7) buf
    by (intro exI [of _ "cliConn s"] exI [of _ "cliBuffer s"]) (simp add: shows_answer_same)
  show ?thesis
  proof (cases ans)
    case (Plain err)
    then have "rests = []" "plain_response s = Some (shows_answer lib ans s)"
      using assms plain_shown [of err s] by auto
    then show ?thesis using one assms(1,3) Plain by (cases r) (simp_all add: client_response_def)
  next
    case (Opened err acc)
    then have "rests = []" "OpenAccount_response s = Some (shows_answer lib ans s)"
      using assms opened_shown [of err acc s lib] by (auto simp del: shows_answer.simps ans_ok.simps)
    then show ?thesis using one assms(1,3) Opened by (cases r) (simp_all add: client_response_def)
  next
    case (Receipt err acc)
    then have "rests = []" "receipt_response s = Some (shows_answer lib ans s)"
      using assms receipt_shown [of err lib acc s] by (auto simp del: shows_answer.simps ans_ok.simps)
    then show ?thesis using one assms(1,3) Receipt by (cases r) (simp_all add: client_response_def)
  next
    case (Closed err acc interest)
    then have "rests = []" "CloseAccount_response s = Some (shows_answer lib ans s)"
      using assms closed_shown [of err lib acc interest s] by (auto simp del: shows_answer.simps ans_ok.simps)
    then show ?thesis using one assms(1,3) Closed by (cases r) (simp_all add: client_response_def)
  next
    case (Details ret tds)
    then have "client_response lib s = bill_response lib s"
      using assms(1,3) by (cases r) (simp_all add: client_response_def)
    then show ?thesis
      using bill_shown [OF assms(2) [unfolded Details] assms(4) [unfolded Details] assms(5-7) lib] unfolding Details by simp
  qed
qed

text \<open>The client receives the packets of an answer and shows it.\<close>

lemma client_shows:
  assumes "fits r ans" "ans_ok lib ans" "cliCmd s = req_cmd r" "length (cliBuffer s) = 2048" "conn_ok (cliConn s)"
    and coming: "coming (cliConn s) = concat (map (packet sizeof_ResponseHead cmd) (answer_rests lib ans)) @ ms"
    and lib: "libs_ok lib"
  shows "\<exists>c b. (do { r \<leftarrow> client_Recv s; case r of Inl e \<Rightarrow> Some (Inl e) | Inr s \<Rightarrow> client_response lib s }) =
      Some (Inr ((shows_answer lib ans s)\<lparr>cliConn := c, cliBuffer := b\<rparr>)) \<and> conn_ok c \<and> coming c = ms \<and> length b = 2048"
proof -
  have "answer_rests lib ans \<noteq> []"
  proof (cases ans)
    case (Details ret tds)
    then show ?thesis using assms(2) by (cases tds) auto
  qed simp_all
  then obtain rest rests where rests: "answer_rests lib ans = rest # rests" by (cases "answer_rests lib ans") auto
  have len: "36 \<le> length rest" "length rest \<le> 2036" using answer_rest_length [OF assms(2), of rest] rests by auto
  have co: "coming (cliConn s) = packet sizeof_ResponseHead cmd rest @
      concat (map (packet sizeof_ResponseHead cmd) rests) @ ms"
    using coming rests by simp
  obtain c b where r: "client_Recv s = Some (Inr (s\<lparr>cliConn := c, cliBuffer := b\<rparr>))" "conn_ok c"
    "coming c = concat (map (packet sizeof_ResponseHead cmd) rests) @ ms" "received_rest rest (s\<lparr>cliConn := c, cliBuffer := b\<rparr>)"
    using client_receives [OF assms(5,4) co len] by blast
  obtain c2 b2 where "client_response lib (s\<lparr>cliConn := c, cliBuffer := b\<rparr>) =
      Some (Inr ((shows_answer lib ans (s\<lparr>cliConn := c, cliBuffer := b\<rparr>))\<lparr>cliConn := c2, cliBuffer := b2\<rparr>))"
    "conn_ok c2" "coming c2 = ms" "length b2 = 2048"
    using response_shown [OF assms(1,2) _ rests r(4), of cmd ms] assms(3) lib r(2,3) by auto
  with r(1) show ?thesis by (intro exI [of _ c2] exI [of _ b2]) (simp add: shows_answer_conn)
qed

section \<open>A whole transaction\<close>

text \<open>A way the network cuts bytes into pieces.\<close>

definition cuts :: "(str \<Rightarrow> str list) \<Rightarrow> bool" where
  "cuts f \<longleftrightarrow> (\<forall>bs. concat (f bs) = bs \<and> [] \<notin> set (f bs))"

text \<open>The server as the client sees it: it answers the bytes of a request with the packets that processing gives,
  and resets the connection when there are none.\<close>

definition bank_peer :: "'d libs \<Rightarrow> ('s, 'd) IBankService \<Rightarrow> (str \<Rightarrow> str list) \<Rightarrow> (str \<Rightarrow> str list) \<Rightarrow>
    BankSession \<Rightarrow> 's \<Rightarrow> str \<Rightarrow> conn" where
  "bank_peer lib dao up down sess db bs =
     (case session_Process lib dao (sess\<lparr>sessConn := \<lparr>chunks = up bs, reset = False\<rparr>\<rparr>) db of
        Some (Inr packets, sess, db) \<Rightarrow> \<lparr>chunks = down (concat packets), reset = False\<rparr>
      | _ \<Rightarrow> \<lparr>chunks = [], reset = True\<rparr>)"

text \<open>One turn of the server.\<close>

definition answer_bytes :: "'d libs \<Rightarrow> ushort \<Rightarrow> 'd answer \<Rightarrow> str list" where
  "answer_bytes lib cmd ans = map (packet sizeof_ResponseHead cmd) (answer_rests lib ans)"

lemma session_processes:
  assumes "libs_ok lib" "req_ok lib r" "perform lib dao r db = Some (x, db')" "\<And>ans. x = Inr ans \<Longrightarrow> ans_ok lib ans"
    and "conn_ok (sessConn s)" "length (sessBuffer s) = 2048"
    and "coming (sessConn s) = packet sizeof_RequestHead (req_cmd r) (req_body lib r) @ ms"
  obtains s' where "session_Process lib dao s db = Some (map_sum id (answer_bytes lib (req_cmd r)) x, s', db')"
    "conn_ok (sessConn s')" "coming (sessConn s') = ms" "length (sessBuffer s') = 2048" "isDead s' = isDead s"
proof -
  obtain s' h where s': "session_Recv s = Some (Inr s')" "session_GetCmd s' = req_cmd r" "coming (sessConn s') = ms"
    "conn_ok (sessConn s')" "length (sessBuffer s') = 2048" "isDead s' = isDead s"
    "length h = 8" "request_stream s' = Some (JInStream_new (req_body lib r @ h))"
    using session_Recv_packet [OF assms(5-7) req_body_short [OF assms(2)]] by metis
  have "server_DoAction lib dao s' db = Some (map_sum id (answer_bytes lib (req_cmd r)) x, db')"
    using server_performs [OF assms(1,2) s'(2,8,7), of dao db] answer_packets_of [OF assms(1,4), of _ "req_cmd r"] assms(3)
    by (cases x) (simp_all add: reply_def answer_bytes_def)
  then show ?thesis using s' that [of s'] by (simp add: session_Process_def)
qed

text \<open>Many requests over one connection, in order.\<close>

fun serve :: "'d libs \<Rightarrow> ('s, 'd) IBankService \<Rightarrow> request list \<Rightarrow> 's \<Rightarrow> (str list \<times> 's) option" where
  "serve lib dao [] db = Some ([], db)"
| "serve lib dao (r # rs) db =
     do { (x, db) \<leftarrow> perform lib dao r db;
          case x of
            Inl e \<Rightarrow> Some ([], db)
          | Inr ans \<Rightarrow>
              do { (packets, db) \<leftarrow> serve lib dao rs db; Some (answer_bytes lib (req_cmd r) ans @ packets, db) } }"

fun serve_ok :: "'d libs \<Rightarrow> ('s, 'd) IBankService \<Rightarrow> request list \<Rightarrow> 's \<Rightarrow> bool" where
  "serve_ok lib dao [] db \<longleftrightarrow> True"
| "serve_ok lib dao (r # rs) db \<longleftrightarrow>
     req_ok lib r \<and>
     (case perform lib dao r db of
        None \<Rightarrow> False
      | Some (Inl e, db) \<Rightarrow> True
      | Some (Inr ans, db) \<Rightarrow> ans_ok lib ans \<and> serve_ok lib dao rs db)"

definition request_bytes :: "'d libs \<Rightarrow> request list \<Rightarrow> str" where
  "request_bytes lib rs = concat (map (\<lambda>r. packet sizeof_RequestHead (req_cmd r) (req_body lib r)) rs)"

lemma recv_closed:
  assumes "conn_ok (sessConn s)" "coming (sessConn s) = []" "length (sessBuffer s) = 2048"
  shows "\<exists>e. session_Recv s = Some (Inl e)"
proof -
  have c: "chunks (sessConn s) = []" using coming_empty [OF assms(1)] assms(2) by blast
  have "\<exists>c1. recvn_loop 4 4 [] (sessConn s) = (if reset (sessConn s) then SOCKET_ERROR else 0, [], c1)"
    by (subst recvn_loop.simps) (simp add: sock_recv_def c SOCKET_ERROR_def)
  then obtain c1 where "recvn_loop 4 4 [] (sessConn s) = (if reset (sessConn s) then SOCKET_ERROR else 0, [], c1)" ..
  then show ?thesis
    using assms(3) by (simp add: session_Recv_def recv_into_def RecvN_def copy_to_def sizeof_RequestHead_def SOCKET_ERROR_def)
qed

lemma bank_run_mono:
  "bank_run lib dao fuel s db = Some res \<Longrightarrow> fuel \<le> fuel' \<Longrightarrow> bank_run lib dao fuel' s db = Some res"
proof (induction fuel arbitrary: s db res fuel')
  case (Suc fuel)
  then obtain f where f: "fuel' = Suc f" "fuel \<le> f" by (cases fuel') auto
  show ?case
  proof (cases "isDead s")
    case False
    then obtain x s1 db1 where x: "session_Process lib dao s db = Some (x, s1, db1)"
      using Suc.prems(1) by (auto simp: bind_eq_Some_conv)
    show ?thesis
    proof (cases x)
      case (Inl e)
      then have "bank_run lib dao fuel (Kill s1) db1 = Some res" using Suc.prems(1) False x by simp
      then show ?thesis using Suc.IH [OF _ f(2)] False x Inl f(1) by simp
    next
      case (Inr packets)
      then obtain z where z: "bank_run lib dao fuel s1 db1 = Some z"
        using Suc.prems(1) False x by (auto simp: bind_eq_Some_conv)
      then show ?thesis using Suc.IH [OF z f(2)] Suc.prems(1) False x Inr f(1) by simp
    qed
  qed (use Suc f in simp)
qed simp

lemma bank_run_serves:
  assumes "libs_ok lib" "serve_ok lib dao rs db" "conn_ok (sessConn s)" "length (sessBuffer s) = 2048" "\<not> isDead s"
    and "coming (sessConn s) = request_bytes lib rs"
  shows "\<exists>packets db' s'. serve lib dao rs db = Some (packets, db') \<and>
    bank_run lib dao (length rs + 2) s db = Some (packets, s', db') \<and> isDead s'"
  using assms(2-)
proof (induction rs arbitrary: s db)
  case Nil
  then have co: "coming (sessConn s) = []" by (simp add: request_bytes_def)
  obtain e where "session_Recv s = Some (Inl e)" using recv_closed [OF Nil.prems(2) co Nil.prems(3)] by blast
  then show ?case using Nil.prems(4) by (simp add: session_Process_def Kill_def numeral_2_eq_2)
next
  case (Cons r rs)
  obtain x db1 where p: "perform lib dao r db = Some (x, db1)"
    using Cons.prems(1) by (auto split: option.splits)
  have ok: "req_ok lib r" "\<And>ans. x = Inr ans \<Longrightarrow> ans_ok lib ans" "\<And>ans. x = Inr ans \<Longrightarrow> serve_ok lib dao rs db1"
    using Cons.prems(1) by (auto simp: p)
  have co: "coming (sessConn s) = packet sizeof_RequestHead (req_cmd r) (req_body lib r) @ request_bytes lib rs"
    using Cons.prems(5) by (simp add: request_bytes_def)
  obtain s1 where s1: "session_Process lib dao s db = Some (map_sum id (answer_bytes lib (req_cmd r)) x, s1, db1)"
    "conn_ok (sessConn s1)" "coming (sessConn s1) = request_bytes lib rs" "length (sessBuffer s1) = 2048" "isDead s1 = isDead s"
    using session_processes [OF assms(1) ok(1) p ok(2) Cons.prems(2,3) co] by blast
  show ?case
  proof (cases x)
    case (Inl e)
    then show ?thesis using s1 Cons.prems(4) by (simp add: p Kill_def)
  next
    case (Inr ans)
    have alive: "\<not> isDead s1" using s1(5) Cons.prems(4) by simp
    obtain packets db2 s2 where run: "serve lib dao rs db1 = Some (packets, db2)"
      "bank_run lib dao (length rs + 2) s1 db1 = Some (packets, s2, db2)" "isDead s2"
      using Cons.IH [OF ok(3) [OF Inr] s1(2,4) alive s1(3)] by blast
    have "bank_run lib dao (Suc (length rs + 2)) s db = Some (answer_bytes lib (req_cmd r) ans @ packets, s2, db2)"
      unfolding bank_run.simps(2) s1(1) if_not_P [OF Cons.prems(4)] Inr map_sum.simps
      by (simp only: bind.bind_lunit sum.case prod.case run)
    with run show ?thesis
      by (simp add: p Inr del: bank_run.simps)
  qed
qed

text \<open>C9: A transaction, end to end. When a well-formed request is filled in, the client's \<open>DoAction\<close> sends one
  packet; the server, however the packet is cut up on its way, makes exactly the call of the service that the request
  means, on its database; and when that call returns, the client, however the answer is cut up, ends with the error,
  the receipt or all the bill's details of that answer, and never with an exception. This holds for all eleven
  commands.\<close>

theorem bank_transaction:
  assumes "libs_ok lib" "req_ok lib r" "filled_in r s" "perform lib dao r db = Some (Inr ans, db')" "ans_ok lib ans"
    and "length (cliBuffer s) = 2048" "length (sessBuffer sess) = 2048" "cuts up" "cuts down"
  shows "\<exists>bs packets sess'. client_request lib s = Some bs \<and>
      session_Process lib dao (sess\<lparr>sessConn := \<lparr>chunks = up bs, reset = False\<rparr>\<rparr>) db = Some (Inr packets, sess', db') \<and>
      (\<exists>c b. client_DoAction lib (bank_peer lib dao up down sess db) s =
        Some (Inr ((shows_answer lib ans s)\<lparr>cliConn := c, cliBuffer := b\<rparr>)))"
proof -
  let ?bs = "packet sizeof_RequestHead (req_cmd r) (req_body lib r)"
  let ?sess = "sess\<lparr>sessConn := \<lparr>chunks = up ?bs, reset = False\<rparr>\<rparr>"
  let ?packets = "answer_bytes lib (req_cmd r) ans"
  have bs: "client_request lib s = Some ?bs" by (rule client_request_packet [OF assms(1-3)])
  have conn: "conn_ok (sessConn ?sess)" "coming (sessConn ?sess) = ?bs @ []" "length (sessBuffer ?sess) = 2048"
    using assms(7,8) by (simp_all add: conn_ok_def cuts_def)
  obtain sess' where p: "session_Process lib dao ?sess db = Some (Inr ?packets, sess', db')"
    using session_processes [OF assms(1,2,4) _ conn(1,3,2)] assms(5) by auto
  let ?c = "bank_peer lib dao up down sess db ?bs"
  have c: "?c = \<lparr>chunks = down (concat ?packets), reset = False\<rparr>" using p by (simp add: bank_peer_def)
  let ?s = "s\<lparr>cliConn := ?c\<rparr>"
  have fits: "fits r ans" by (rule perform_fits [OF assms(4)])
  have cmd: "cliCmd s = req_cmd r" using assms(3) by (simp add: filled_in_def)
  have "conn_ok (cliConn ?s)" "coming (cliConn ?s) = concat ?packets @ []"
    using assms(9) by (simp_all add: c conn_ok_def cuts_def)
  then obtain c b where "(do { r \<leftarrow> client_Recv ?s; case r of Inl e \<Rightarrow> Some (Inl e) | Inr s \<Rightarrow> client_response lib s }) =
      Some (Inr ((shows_answer lib ans ?s)\<lparr>cliConn := c, cliBuffer := b\<rparr>))"
    using client_shows [OF fits assms(5), of ?s "req_cmd r" "[]"] cmd assms(1,6) by (auto simp: answer_bytes_def)
  moreover have "shows_answer lib ans ?s = (shows_answer lib ans s)\<lparr>cliConn := ?c\<rparr>"
    by (rule shows_answer_conn(2))
  ultimately have "client_Execute lib (bank_peer lib dao up down sess db) s =
      Some (Inr ((shows_answer lib ans s)\<lparr>cliConn := c, cliBuffer := b\<rparr>))"
    unfolding client_Execute_def bs by simp
  moreover have "CMD_LOGIN \<le> cliCmd s \<and> cliCmd s \<le> CMD_CLOSE_ACCOUNT" unfolding cmd by (cases r) simp_all
  ultimately show ?thesis using bs p by (auto simp: client_DoAction_def)
qed


section \<open>A small bank\<close>

text \<open>Texts as the libraries give them, with whole amounts, and a service with one account.\<close>

definition small_libs :: "nat libs" where
  "small_libs = \<lparr>cStr = (\<lambda>s. s @ 0 # replicate 16 0), StringToDouble = digits_value, DoubleToString = dec_nat,
     rawInt = 7, rawDouble = 9,
     dAdd = (+), dSub = (-), dGreater = (>), GeneralText = dec_nat\<rparr>"

definition small_receipt :: "nat Account \<Rightarrow> nat \<Rightarrow> nat Account" where
  "small_receipt acc n = acc\<lparr>accName := [74, 105], accDate := replicate 19 48, accBalance := n\<rparr>"

definition small_bank :: "(nat, nat) IBankService" where
  "small_bank =
     \<lparr>svcUserLogin = (\<lambda>name pass n. Some (Inr 1, n)),
      svcOpenAccount = (\<lambda>acc n. Some (Inl DbError, n)),
      svcCloseAccount = (\<lambda>acc interest n. Some (Inr (2, acc, interest), n)),
      svcChangePassword = (\<lambda>acc new n. Some (Inr (3, acc), n)),
      svcDeposit = (\<lambda>acc n. Some (Inr (0, small_receipt acc (n + accBalance acc)), n + accBalance acc)),
      svcWithDraw = (\<lambda>acc n. if n < accBalance acc then Some (Inr (4, acc), n)
                      else Some (Inr (0, small_receipt acc (n - accBalance acc)), n - accBalance acc)),
      svcTransfer = (\<lambda>acc other n. Some (Inr (5, acc), n)),
      svcBalanceInquiry = (\<lambda>acc n. Some (Inr (0, small_receipt acc n), n)),
      svcQueryDayBill = (\<lambda>page date n. Some (Inr (6, []), n)),
      svcQueryHistoryBill = (\<lambda>page b e n. Some (Inr (6, []), n)),
      svcQueryAccountHistoryBill = (\<lambda>page acct b e n. Some (Inr (6, []), n))\<rparr>"

lemma small_libs_ok: "libs_ok small_libs"
  by (simp add: libs_ok_def small_libs_def)

lemma cuts_one: "cuts (map (\<lambda>b. [b]))"
proof -
  have "concat (map (\<lambda>b. [b]) bs) = bs" for bs :: str by (induction bs) simp_all
  then show ?thesis by (auto simp: cuts_def)
qed

definition small_form :: "nat ClientSession" where
  "small_form =
     \<lparr>cliConn = \<lparr>chunks = [], reset = False\<rparr>, cliBuffer = replicate 2048 0,
      reqAttrs = [''account_id'' \<mapsto> [48, 48, 48, 48, 48, 49], ''money'' \<mapsto> [53, 48]], rspAttrs = Map.empty,
      details = [], errorCode = 0, errorMsg = [], cliCmd = CMD_DEPOSIT\<rparr>"

lemma small_money: "digits_value [53, 48] = 50"
  by (simp add: digits_value_def)

lemma small_dates: "date_ok (replicate 19 48)"
  by (simp add: date_ok_def)

lemma small_text: "length (dec_nat n) \<le> n + 1"
proof (induction n rule: dec_nat.induct)
  case (1 n)
  show ?case
  proof (cases "n < 10")
    case True
    then show ?thesis by (subst dec_nat.simps) (simp only: if_True list.size)
  next
    case False
    then have "length (dec_nat n) = length (dec_nat (n div 10)) + 1"
      by (subst dec_nat.simps) simp
    also have "\<dots> \<le> n div 10 + 2" using 1 False by simp
    finally show ?thesis using False by simp
  qed
qed

theorem bank_transaction_witness:
  "\<exists>bs packets sess'. client_request small_libs small_form = Some bs \<and>
      session_Process small_libs small_bank ((BankSession_new \<lparr>chunks = [], reset = True\<rparr> (replicate 2048 1))
        \<lparr>sessConn := \<lparr>chunks = map (\<lambda>b. [b]) bs, reset = False\<rparr>\<rparr>) 100 = Some (Inr packets, sess', 150) \<and>
      (\<exists>c b. client_DoAction small_libs (bank_peer small_libs small_bank (map (\<lambda>b. [b])) (map (\<lambda>b. [b]))
          (BankSession_new \<lparr>chunks = [], reset = True\<rparr> (replicate 2048 1)) 100) small_form =
        Some (Inr ((shows_answer small_libs
          (Receipt (0, []) (small_receipt ((account_for small_libs [48, 48, 48, 48, 48, 49])\<lparr>accBalance := 50\<rparr>) 150))
          small_form)\<lparr>cliConn := c, cliBuffer := b\<rparr>)))"
proof (rule bank_transaction [where r = "Put [48, 48, 48, 48, 48, 49] [53, 48]"])
  show "req_ok small_libs (Put [48, 48, 48, 48, 48, 49] [53, 48])" by (simp add: field_ok_def small_libs_def)
  show "filled_in (Put [48, 48, 48, 48, 48, 49] [53, 48]) small_form"
    by (simp add: filled_in_def small_form_def GetAttribute_def)
  show "perform small_libs small_bank (Put [48, 48, 48, 48, 48, 49] [53, 48]) 100 = Some (Inr
    (Receipt (0, []) (small_receipt ((account_for small_libs [48, 48, 48, 48, 48, 49])\<lparr>accBalance := 50\<rparr>) 150)), 150)"
    by (simp add: small_bank_def small_libs_def small_money deposit_error_def account_for_def Account_new_def answers_def)
  show "ans_ok small_libs (Receipt (0, []) (small_receipt ((account_for small_libs [48, 48, 48, 48, 48, 49])\<lparr>accBalance := 50\<rparr>) 150))"
    using small_text [of 150] small_dates by (simp add: small_receipt_def err_ok_def small_libs_def)
qed (simp_all add: small_libs_ok cuts_one small_form_def BankSession_new_def)

text \<open>A deposit, a withdrawal that is refused, a request whose service call throws, and one that is never read.\<close>

definition small_requests :: "request list" where
  "small_requests =
     [Put [48, 48, 48, 48, 48, 49] [53, 48], Take [48, 48, 48, 48, 48, 49] [54] [57, 57],
      OpenAcc [74] [54] (replicate 18 49) [57], Put [48, 48, 48, 48, 48, 49] [53, 48]]"


end
