(* ===== verification/Bank_Mysql.thy ===== *)
theory Bank_Mysql
  imports Bank_Server
begin

text \<open>
  The wrapper around the MySQL client library (\<open>src/49/ABCBank/BankServer/DAL/MysqlDB.h\<close>, \<open>MysqlDB.cpp\<close>). The library
  itself is a parameter, a record of its functions on the abstract state of database and connection.
\<close>

section \<open>The library\<close>

datatype mysql_option = MYSQL_OPT_RECONNECT bool | MYSQL_SET_CHARSET_NAME str

text \<open>\<open>mysql_query\<close> tells whether it returned 0; \<open>mysql_store_result\<close> gives the names of the columns and the rows,
  with NULL as \<open>None\<close>, or a null pointer when the statement has no result.\<close>

record 's mysql_api =
  mysql_init :: "'s \<Rightarrow> bool \<times> 's"
  mysql_options :: "mysql_option \<Rightarrow> 's \<Rightarrow> 's"
  mysql_real_connect :: "str \<Rightarrow> str \<Rightarrow> str \<Rightarrow> str \<Rightarrow> 's \<Rightarrow> bool \<times> 's"
  mysql_query :: "str \<Rightarrow> 's \<Rightarrow> bool \<times> 's"
  mysql_store_result :: "'s \<Rightarrow> (str list \<times> str option list list) option \<times> 's"
  mysql_affected_rows :: "'s \<Rightarrow> 64 word"
  mysql_insert_id :: "'s \<Rightarrow> 64 word"
  mysql_close :: "'s \<Rightarrow> 's"

text \<open>A C string: the bytes before the first NUL.\<close>

definition c_text :: "str \<Rightarrow> str" where
  "c_text s = takeWhile (\<lambda>c. c \<noteq> 0) s"

definition ascii :: "string \<Rightarrow> str" where
  "ascii s = map of_char s"

section \<open>\<open>MysqlRecordset\<close>\<close>

record Field =
  fieldName :: str
  fieldIndex :: word32

record MysqlRecordset =
  rsRows :: "str list list"
  rsFields :: "Field list"

definition GetRows :: "MysqlRecordset \<Rightarrow> word32" where
  "GetRows rs = of_nat (length (rsRows rs))"

definition GetCols :: "MysqlRecordset \<Rightarrow> word32" where
  "GetCols rs = of_nat (length (rsFields rs))"

text \<open>The last field of that name counts; without one the index is \<open>-1\<close>, the largest \<open>unsigned\<close>.\<close>

definition GetFieldIndex :: "str \<Rightarrow> MysqlRecordset \<Rightarrow> word32" where
  "GetFieldIndex name rs = fold (\<lambda>f index. if fieldName f = name then fieldIndex f else index) (rsFields rs) (- 1)"

text \<open>\<open>operator[]\<close> of a vector is not checked: past the end the program is lost.\<close>

definition GetItem :: "nat \<Rightarrow> word32 \<Rightarrow> MysqlRecordset \<Rightarrow> str option" where
  "GetItem nRow nCol rs =
     (if nRow < length (rsRows rs) \<and> unat nCol < length (rsRows rs ! nRow) then Some (rsRows rs ! nRow ! unat nCol) else None)"

definition GetItemNamed :: "nat \<Rightarrow> str \<Rightarrow> MysqlRecordset \<Rightarrow> str option" where
  "GetItemNamed nRow name rs = GetItem nRow (GetFieldIndex name rs) rs"

definition rs_Clear :: "MysqlRecordset \<Rightarrow> MysqlRecordset" where
  "rs_Clear rs = rs\<lparr>rsRows := [], rsFields := []\<rparr>"

section \<open>Methods and their exceptions\<close>

text \<open>What a method of the service works on: whether \<open>mysql_\<close> points to a connection, the database, and the arguments
  that it has by reference.\<close>

record ('s, 'd) frame =
  handle :: bool
  world :: 's
  account :: "'d Account"
  interest :: 'd
  bill :: "'d TransDetail list"

type_synonym ('s, 'd, 'a) dbm = "('s, 'd) frame \<Rightarrow> ((exn + 'a) \<times> ('s, 'd) frame) option"

definition yields :: "'a \<Rightarrow> ('s, 'd, 'a) dbm" where
  "yields x f = Some (Inr x, f)"

definition throw :: "exn \<Rightarrow> ('s, 'd, 'a) dbm" where
  "throw e f = Some (Inl e, f)"

definition and_then :: "('s, 'd, 'a) dbm \<Rightarrow> ('a \<Rightarrow> ('s, 'd, 'b) dbm) \<Rightarrow> ('s, 'd, 'b) dbm" where
  "and_then m k f =
     (case m f of None \<Rightarrow> None | Some (Inl e, g) \<Rightarrow> Some (Inl e, g) | Some (Inr x, g) \<Rightarrow> k x g)"

definition try_catch :: "('s, 'd, 'a) dbm \<Rightarrow> ('s, 'd, 'a) dbm \<Rightarrow> ('s, 'd, 'a) dbm" where
  "try_catch body handler f = (case body f of Some (Inl e, g) \<Rightarrow> handler g | r \<Rightarrow> r)"

definition change :: "(('s, 'd) frame \<Rightarrow> ('s, 'd) frame) \<Rightarrow> ('s, 'd, unit) dbm" where
  "change h f = Some (Inr (), h f)"

definition inspect :: "(('s, 'd) frame \<Rightarrow> 'a) \<Rightarrow> ('s, 'd, 'a) dbm" where
  "inspect h f = Some (Inr (h f), f)"

text \<open>An item of a record set, or the end of the program.\<close>

definition item :: "nat \<Rightarrow> string \<Rightarrow> MysqlRecordset \<Rightarrow> ('s, 'd, str) dbm" where
  "item nRow name rs f = (case GetItemNamed nRow (ascii name) rs of None \<Rightarrow> None | Some v \<Rightarrow> Some (Inr v, f))"

section \<open>\<open>MysqlDB\<close>\<close>

definition db_Close :: "'s mysql_api \<Rightarrow> ('s, 'd, unit) dbm" where
  "db_Close api f =
     Some (Inr (), if handle f then f\<lparr>world := mysql_close api (world f), handle := False\<rparr> else f)"

text \<open>The port is not handed on.\<close>

definition db_Open :: "'s mysql_api \<Rightarrow> str \<Rightarrow> str \<Rightarrow> str \<Rightarrow> str \<Rightarrow> ushort \<Rightarrow> ('s, 'd, unit) dbm" where
  "db_Open api host user passwd db port f =
     (case mysql_init api (world f) of (made, w) \<Rightarrow>
        if \<not> made then Some (Inl DbError, f\<lparr>world := w, handle := False\<rparr>)
        else let w = mysql_options api (MYSQL_OPT_RECONNECT True) w;
                 w = mysql_options api (MYSQL_SET_CHARSET_NAME (ascii ''gbk'')) w
             in case mysql_real_connect api (c_text host) (c_text user) (c_text passwd) (c_text db) w of (connected, w) \<Rightarrow>
                  if connected then Some (Inr (), f\<lparr>world := w, handle := True\<rparr>)
                  else and_then (db_Close api) (\<lambda>_. throw DbError) (f\<lparr>world := w, handle := True\<rparr>))"

text \<open>\<open>mysql_query(NULL, ...)\<close> is an access through a null pointer, as is the use of a missing result.\<close>

definition run_query :: "'s mysql_api \<Rightarrow> str \<Rightarrow> ('s, 'd, bool) dbm" where
  "run_query api sql f =
     (if handle f then case mysql_query api (c_text sql) (world f) of (ok, w) \<Rightarrow> Some (Inr ok, f\<lparr>world := w\<rparr>) else None)"

definition recordset :: "str list \<Rightarrow> str option list list \<Rightarrow> MysqlRecordset" where
  "recordset names rws =
     \<lparr>rsRows = map (map (\<lambda>v. case v of None \<Rightarrow> [] | Some t \<Rightarrow> c_text t)) rws,
      rsFields = map (\<lambda>i. \<lparr>fieldName = c_text (names ! i), fieldIndex = of_nat i\<rparr>) [0..<length names]\<rparr>"

definition store_result :: "'s mysql_api \<Rightarrow> ('s, 'd, MysqlRecordset) dbm" where
  "store_result api f =
     (case mysql_store_result api (world f) of
        (None, w) \<Rightarrow> None
      | (Some (names, rws), w) \<Rightarrow> Some (Inr (recordset names rws), f\<lparr>world := w\<rparr>))"

definition QuerySQL :: "'s mysql_api \<Rightarrow> str \<Rightarrow> ('s, 'd, MysqlRecordset) dbm" where
  "QuerySQL api sql =
     and_then (run_query api sql) (\<lambda>ok.
     if \<not> ok then throw DbError else store_result api)"

definition ExecSQL :: "'s mysql_api \<Rightarrow> str \<Rightarrow> ('s, 'd, 64 word) dbm" where
  "ExecSQL api sql =
     and_then (run_query api sql) (\<lambda>ok.
     if \<not> ok then throw DbError else inspect (\<lambda>f. mysql_affected_rows api (world f)))"

definition GetInsertId :: "'s mysql_api \<Rightarrow> ('s, 'd, 64 word) dbm" where
  "GetInsertId api = inspect (\<lambda>f. mysql_insert_id api (world f))"

definition StartTransaction :: "'s mysql_api \<Rightarrow> ('s, 'd, unit) dbm" where
  "StartTransaction api =
     and_then (run_query api (ascii ''START TRANSACTION'')) (\<lambda>ok. if \<not> ok then throw DbError else yields ())"

definition Commit :: "'s mysql_api \<Rightarrow> ('s, 'd, unit) dbm" where
  "Commit api = and_then (run_query api (ascii ''COMMIT'')) (\<lambda>ok. if \<not> ok then throw DbError else yields ())"

text \<open>As written: it is a rollback that succeeds that throws.\<close>

definition Rollback :: "'s mysql_api \<Rightarrow> ('s, 'd, unit) dbm" where
  "Rollback api = and_then (run_query api (ascii ''ROLLBACK'')) (\<lambda>ok. if ok then throw DbError else yields ())"

text \<open>The life of the local object \<open>db\<close>: it starts without a connection, and its destructor closes the one it has,
  also when an exception leaves the method.\<close>

definition with_db :: "'s mysql_api \<Rightarrow> ('s, 'd, 'a) dbm \<Rightarrow> ('s, 'd, 'a) dbm" where
  "with_db api body f =
     (case body (f\<lparr>handle := False\<rparr>) of
        None \<Rightarrow> None
      | Some (x, g) \<Rightarrow> (case db_Close api g of Some (_, g) \<Rightarrow> Some (x, g) | None \<Rightarrow> None))"

end
