(* ===== verification/Bank_Service.thy ===== *)
theory Bank_Service
  imports Bank_Mysql
begin

text \<open>
  The bank's data access layer (\<open>src/49/ABCBank/BankServer/DAL/BankService.cpp\<close>): every method opens a connection,
  builds statements as text and works on what they return. \<open>BankService\<close> collects the methods as the interface that
  the commands of the server use.
\<close>

section \<open>Statements\<close>

text \<open>The text of a \<open>stringstream\<close>; a \<open>double\<close> is written with two decimals, which is what \<open>DoubleToString\<close> gives.\<close>

definition quoted :: "str \<Rightarrow> str" where
  "quoted s = 39 # s @ [39]"

definition sql_teller :: "str \<Rightarrow> str \<Rightarrow> str" where
  "sql_teller user pass =
     ascii ''select teller_name from teller where teller_name='' @ quoted user @ ascii '' and teller_pass='' @
     quoted pass @ ascii '';''"

definition sql_new_account :: "'d libs \<Rightarrow> 'd Account \<Rightarrow> str" where
  "sql_new_account lib acc =
     ascii ''insert into bank_account values(null, '' @ quoted (accName acc) @ ascii '', '' @ quoted (accPass acc) @
     ascii '', '' @ quoted (accCard acc) @ ascii '', '' @ DoubleToString lib (accBalance acc) @ ascii '', now(), 0);''"

definition sql_trans :: "str \<Rightarrow> str \<Rightarrow> nat \<Rightarrow> str \<Rightarrow> str \<Rightarrow> str" where
  "sql_trans ident other kind money balance =
     ascii ''insert into trans values(null, '' @ ident @ ascii '', '' @ other @ ascii '', '' @ dec_nat kind @
     ascii '', '' @ money @ ascii '', '' @ balance @ ascii '',  now());''"

definition sql_open_date :: "str \<Rightarrow> str" where
  "sql_open_date ident = ascii ''select open_date from bank_account where account_id='' @ quoted ident @ ascii '';''"

definition for_update :: "bool \<Rightarrow> str" where
  "for_update lock = (if lock then ascii '' for update;'' else ascii '';'')"

definition sql_active :: "str \<Rightarrow> bool \<Rightarrow> str" where
  "sql_active ident lock =
     ascii ''select balance from bank_account where account_id='' @ ident @ ascii '' and flag=0'' @ for_update lock"

definition sql_pass :: "str \<Rightarrow> str \<Rightarrow> bool \<Rightarrow> str" where
  "sql_pass ident pass lock =
     ascii ''select balance from bank_account where account_id='' @ ident @ ascii '' and pass='' @ pass @ for_update lock"

definition sql_add :: "str \<Rightarrow> str \<Rightarrow> str" where
  "sql_add ident money =
     ascii ''update bank_account set balance=balance+'' @ money @ ascii '' where account_id='' @ ident @ ascii '';''"

definition sql_sub :: "str \<Rightarrow> str \<Rightarrow> str" where
  "sql_sub ident money =
     ascii ''update bank_account set balance=balance-'' @ money @ ascii '' where account_id='' @ ident @ ascii '';''"

definition sql_receipt :: "str \<Rightarrow> str" where
  "sql_receipt ident =
     ascii ''select a.name, b.trans_date from bank_account a, (select account_id, trans_date from trans where trans_id='' @
     ident @ ascii '') b where a.account_id=b.account_id;''"

definition sql_name :: "string \<Rightarrow> str \<Rightarrow> str" where
  "sql_name column ident =
     ascii ''select name, now() '' @ ascii column @ ascii '' from bank_account where account_id='' @ ident @ ascii '';''"

definition sql_new_pass :: "str \<Rightarrow> str \<Rightarrow> str" where
  "sql_new_pass ident pass =
     ascii ''update bank_account set pass='' @ quoted pass @ ascii '' where account_id='' @ ident @ ascii '';''"

definition sql_close :: "str \<Rightarrow> str" where
  "sql_close ident = ascii ''update bank_account set flag=1 where account_id='' @ ident @ ascii '';''"

text \<open>The transactions of a bill, and how many of them there are.\<close>

definition sql_day :: "str \<Rightarrow> str" where
  "sql_day date = ascii ''(select * from trans where date_format(trans_date, '' @ quoted (ascii ''%Y-%m-%d'') @ ascii '')='' @
     quoted date @ ascii '')''"

definition sql_between :: "str \<Rightarrow> str \<Rightarrow> str \<Rightarrow> str" where
  "sql_between filter_id begin_date end_date =
     ascii ''(select * from trans where '' @ filter_id @ ascii ''date_format(trans_date, '' @ quoted (ascii ''%Y-%m-%d'') @
     ascii '') between '' @ quoted begin_date @ ascii '' and '' @ quoted end_date @ ascii '')''"

definition sql_of_account :: "str \<Rightarrow> str" where
  "sql_of_account ident = ascii ''account_id='' @ ident @ ascii '' and ''"

definition sql_total :: "str \<Rightarrow> string \<Rightarrow> str" where
  "sql_total from_part naming =
     ascii ''select count(*) as total from '' @ from_part @ ascii naming @
     ascii '', abstract b where a.abstract_id = b.abstract_id;''"

definition sql_page :: "str \<Rightarrow> word32 \<Rightarrow> str" where
  "sql_page from_part page =
     ascii ''select a.account_id, a.other_account_id, b.name, a.money, a.balance, a.trans_date from '' @ from_part @
     ascii '' a, abstract b where a.abstract_id = b.abstract_id order by a.trans_date limit '' @ dec_int (page * 15) @
     ascii '', 15;''"

text \<open>The interest: days times balance between the last transactions of the days.\<close>

definition sql_interest :: "str \<Rightarrow> str \<Rightarrow> str" where
  "sql_interest rate ident =
     (let by_day = ascii '' group by date_format(trans_date, '' @ quoted (ascii ''%Y-%m-%d'') @ ascii '')))''
      in ascii ''select sum(yy.days*yy.balance)*'' @ rate @ ascii ''/360 interest from('' @
         ascii ''select trans_id, balance, trans_date, next_date, '' @
         ascii ''datediff(if(next_date, next_date, now()), trans_date) days from ('' @
         ascii ''select trans_id, balance, trans_date, ('' @
         ascii ''select min(trans_date) from ('' @
         ascii ''select * from trans where trans_id in ('' @
         ascii ''select max(trans_id) from trans where account_id='' @ ident @ by_day @
         ascii '' b where b.trans_date > a.trans_date) next_date from ('' @
         ascii ''select * from trans where trans_id in '' @
         ascii ''(select max(trans_id) from trans where account_id='' @ ident @ by_day @
         ascii '' a) xx) yy'')"

section \<open>The methods\<close>

text \<open>What \<open>Server\<close> has read from its configuration file.\<close>

record 'd server_config =
  dbServerIp :: str
  dbServerPort :: ushort
  dbUser :: str
  dbPass :: str
  dbName :: str
  interetRate :: 'd

definition open_db :: "'s mysql_api \<Rightarrow> 'd server_config \<Rightarrow> ('s, 'd, unit) dbm" where
  "open_db api cfg = db_Open api (dbServerIp cfg) (dbUser cfg) (dbPass cfg) (dbName cfg) (dbServerPort cfg)"

definition set_account :: "('d Account \<Rightarrow> 'd Account) \<Rightarrow> ('s, 'd, unit) dbm" where
  "set_account h = change (\<lambda>f. f\<lparr>account := h (account f)\<rparr>)"

definition failed :: "('s, 'd, int) dbm" where
  "failed = yields (- 1)"

definition rolled_back :: "'s mysql_api \<Rightarrow> ('s, 'd, int) dbm" where
  "rolled_back api = and_then (Rollback api) (\<lambda>_. yields (- 1))"

definition UserLogin :: "'s mysql_api \<Rightarrow> 'd server_config \<Rightarrow> str \<Rightarrow> str \<Rightarrow> ('s, 'd, int) dbm" where
  "UserLogin api cfg user pass = with_db api (try_catch
     (and_then (open_db api cfg) (\<lambda>_.
      and_then (QuerySQL api (sql_teller user pass)) (\<lambda>rs.
      if GetRows rs < 1 then yields 1 else yields 0)))
     failed)"

definition OpenAccount :: "'d libs \<Rightarrow> 's mysql_api \<Rightarrow> 'd server_config \<Rightarrow> ('s, 'd, int) dbm" where
  "OpenAccount lib api cfg = with_db api (try_catch
     (and_then (open_db api cfg) (\<lambda>_.
      and_then (StartTransaction api) (\<lambda>_.
      and_then (inspect account) (\<lambda>acc.
      and_then (ExecSQL api (sql_new_account lib acc)) (\<lambda>_.
      and_then (GetInsertId api) (\<lambda>new_id.
      and_then (set_account (\<lambda>a. a\<lparr>accId := ucast new_id\<rparr>)) (\<lambda>_.
      let ident = dec_int (ucast new_id); money = DoubleToString lib (accBalance acc) in
      and_then (ExecSQL api (sql_trans ident (ascii ''null'') 1 money money)) (\<lambda>_.
      and_then (Commit api) (\<lambda>_.
      and_then (QuerySQL api (sql_open_date ident)) (\<lambda>rs.
      and_then (item 0 ''open_date'' rs) (\<lambda>date.
      and_then (set_account (\<lambda>a. a\<lparr>accDate := date\<rparr>)) (\<lambda>_.
      yields 0))))))))))))
     (rolled_back api))"

definition Deposit :: "'d libs \<Rightarrow> 's mysql_api \<Rightarrow> 'd server_config \<Rightarrow> ('s, 'd, int) dbm" where
  "Deposit lib api cfg = with_db api (try_catch
     (and_then (open_db api cfg) (\<lambda>_.
      and_then (StartTransaction api) (\<lambda>_.
      and_then (inspect account) (\<lambda>acc.
      let ident = dec_int (accId acc) in
      and_then (QuerySQL api (sql_active ident True)) (\<lambda>rs.
      if GetRows rs < 1 then yields 2 else
      and_then (item 0 ''balance'' rs) (\<lambda>text.
      let balance = StringToDouble lib text; money = DoubleToString lib (accBalance acc) in
      and_then (ExecSQL api (sql_add ident money)) (\<lambda>_.
      and_then (ExecSQL api (sql_trans ident (ascii ''null'') 2 money
        (DoubleToString lib (dAdd lib balance (accBalance acc))))) (\<lambda>_.
      and_then (GetInsertId api) (\<lambda>trans_id.
      and_then (Commit api) (\<lambda>_.
      and_then (QuerySQL api (sql_receipt (dec_int (ucast trans_id)))) (\<lambda>rs.
      and_then (item 0 ''name'' rs) (\<lambda>name.
      and_then (set_account (\<lambda>a. a\<lparr>accName := name\<rparr>)) (\<lambda>_.
      and_then (item 0 ''trans_date'' rs) (\<lambda>date.
      and_then (set_account (\<lambda>a. a\<lparr>accDate := date, accBalance := dAdd lib (accBalance a) balance\<rparr>)) (\<lambda>_.
      yields 0)))))))))))))))
     (rolled_back api))"

definition WithDraw :: "'d libs \<Rightarrow> 's mysql_api \<Rightarrow> 'd server_config \<Rightarrow> ('s, 'd, int) dbm" where
  "WithDraw lib api cfg = with_db api (try_catch
     (and_then (open_db api cfg) (\<lambda>_.
      and_then (StartTransaction api) (\<lambda>_.
      and_then (inspect account) (\<lambda>acc.
      let ident = dec_int (accId acc) in
      and_then (QuerySQL api (sql_active ident False)) (\<lambda>rs.
      if GetRows rs < 1 then yields 2 else
      and_then (QuerySQL api (sql_pass ident (accPass acc) True)) (\<lambda>rs.
      if GetRows rs < 1 then yields 3 else
      and_then (item 0 ''balance'' rs) (\<lambda>text.
      let balance = StringToDouble lib text; money = DoubleToString lib (accBalance acc) in
      if dGreater lib (accBalance acc) balance then yields 4 else
      and_then (ExecSQL api (sql_sub ident money)) (\<lambda>_.
      and_then (ExecSQL api (sql_trans ident (ascii ''null'') 3 money
        (DoubleToString lib (dSub lib balance (accBalance acc))))) (\<lambda>_.
      and_then (GetInsertId api) (\<lambda>trans_id.
      and_then (Commit api) (\<lambda>_.
      and_then (QuerySQL api (sql_receipt (dec_int (ucast trans_id)))) (\<lambda>rs.
      and_then (item 0 ''name'' rs) (\<lambda>name.
      and_then (set_account (\<lambda>a. a\<lparr>accName := name\<rparr>)) (\<lambda>_.
      and_then (item 0 ''trans_date'' rs) (\<lambda>date.
      and_then (set_account (\<lambda>a. a\<lparr>accDate := date, accBalance := dSub lib balance (accBalance a)\<rparr>)) (\<lambda>_.
      yields 0))))))))))))))))
     (rolled_back api))"

text \<open>The other account is written as it was received, and read as a number for the records of the transfer.\<close>

definition Transfer :: "'d libs \<Rightarrow> 's mysql_api \<Rightarrow> 'd server_config \<Rightarrow> str \<Rightarrow> ('s, 'd, int) dbm" where
  "Transfer lib api cfg otherAccountId = with_db api (try_catch
     (and_then (open_db api cfg) (\<lambda>_.
      and_then (StartTransaction api) (\<lambda>_.
      and_then (inspect account) (\<lambda>acc.
      let ident = dec_int (accId acc) in
      and_then (QuerySQL api (sql_active ident False)) (\<lambda>rs.
      if GetRows rs < 1 then yields 2 else
      and_then (QuerySQL api (sql_pass ident (accPass acc) True)) (\<lambda>rs.
      if GetRows rs < 1 then yields 3 else
      and_then (item 0 ''balance'' rs) (\<lambda>text.
      let balance = StringToDouble lib text; money = DoubleToString lib (accBalance acc) in
      if dGreater lib (accBalance acc) balance then yields 4 else
      and_then (QuerySQL api (sql_active otherAccountId True)) (\<lambda>rs.
      if GetRows rs < 1 then yields 5 else
      and_then (item 0 ''balance'' rs) (\<lambda>text.
      let balance2 = StringToDouble lib text in
      and_then (ExecSQL api (sql_sub ident money)) (\<lambda>_.
      and_then (ExecSQL api (sql_add otherAccountId money)) (\<lambda>_.
      let other = dec_int (StringToInt lib otherAccountId) in
      and_then (ExecSQL api (sql_trans ident other 5 money
        (DoubleToString lib (dSub lib balance (accBalance acc))))) (\<lambda>_.
      and_then (GetInsertId api) (\<lambda>trans_id.
      and_then (QuerySQL api (sql_receipt (dec_int (ucast trans_id)))) (\<lambda>rs.
      and_then (ExecSQL api (sql_trans other ident 4 money
        (DoubleToString lib (dAdd lib balance2 (accBalance acc))))) (\<lambda>_.
      and_then (Commit api) (\<lambda>_.
      and_then (set_account (\<lambda>a. a\<lparr>accBalance := dSub lib balance (accBalance a)\<rparr>)) (\<lambda>_.
      and_then (item 0 ''name'' rs) (\<lambda>name.
      and_then (set_account (\<lambda>a. a\<lparr>accName := name\<rparr>)) (\<lambda>_.
      and_then (item 0 ''trans_date'' rs) (\<lambda>date.
      and_then (set_account (\<lambda>a. a\<lparr>accDate := date\<rparr>)) (\<lambda>_.
      yields 0)))))))))))))))))))))
     (rolled_back api))"

definition BalanceInquiry :: "'d libs \<Rightarrow> 's mysql_api \<Rightarrow> 'd server_config \<Rightarrow> ('s, 'd, int) dbm" where
  "BalanceInquiry lib api cfg = with_db api (try_catch
     (and_then (open_db api cfg) (\<lambda>_.
      and_then (inspect account) (\<lambda>acc.
      let ident = dec_int (accId acc) in
      and_then (QuerySQL api (sql_active ident False)) (\<lambda>rs.
      if GetRows rs < 1 then yields 2 else
      and_then (QuerySQL api (sql_pass ident (accPass acc) False)) (\<lambda>rs.
      if GetRows rs < 1 then yields 3 else
      and_then (item 0 ''balance'' rs) (\<lambda>text.
      and_then (set_account (\<lambda>a. a\<lparr>accBalance := StringToDouble lib text\<rparr>)) (\<lambda>_.
      and_then (QuerySQL api (sql_name ''query_date'' ident)) (\<lambda>rs.
      and_then (item 0 ''name'' rs) (\<lambda>name.
      and_then (set_account (\<lambda>a. a\<lparr>accName := name\<rparr>)) (\<lambda>_.
      and_then (item 0 ''query_date'' rs) (\<lambda>date.
      and_then (set_account (\<lambda>a. a\<lparr>accDate := date\<rparr>)) (\<lambda>_.
      yields 0))))))))))))
     failed)"

definition ChangePassword :: "'s mysql_api \<Rightarrow> 'd server_config \<Rightarrow> str \<Rightarrow> ('s, 'd, int) dbm" where
  "ChangePassword api cfg newPass = with_db api (try_catch
     (and_then (open_db api cfg) (\<lambda>_.
      and_then (inspect account) (\<lambda>acc.
      let ident = dec_int (accId acc) in
      and_then (QuerySQL api (sql_active ident False)) (\<lambda>rs.
      if GetRows rs < 1 then yields 2 else
      and_then (QuerySQL api (sql_pass ident (accPass acc) False)) (\<lambda>rs.
      if GetRows rs < 1 then yields 3 else
      and_then (ExecSQL api (sql_new_pass ident newPass)) (\<lambda>_.
      yields 0))))))
     failed)"

text \<open>The loop over the rows of a page.\<close>

fun push_rows :: "'d libs \<Rightarrow> MysqlRecordset \<Rightarrow> word32 \<Rightarrow> nat list \<Rightarrow> ('s, 'd, unit) dbm" where
  "push_rows lib rs count [] = yields ()"
| "push_rows lib rs count (i # is) =
     and_then (item i ''account_id'' rs) (\<lambda>ident.
     and_then (item i ''other_account_id'' rs) (\<lambda>other.
     and_then (item i ''name'' rs) (\<lambda>name.
     and_then (item i ''money'' rs) (\<lambda>money.
     and_then (item i ''balance'' rs) (\<lambda>balance.
     and_then (item i ''trans_date'' rs) (\<lambda>date.
     and_then (change (\<lambda>f. f\<lparr>bill := bill f @
       [\<lparr>trans_date = date, td_account_id = ident, td_other_account_id = other, td_money = StringToDouble lib money,
         abstract_name = name, td_balance = StringToDouble lib balance, td_total = count\<rparr>]\<rparr>)) (\<lambda>_.
     push_rows lib rs count is)))))))"

text \<open>The three bills differ in the transactions they select.\<close>

definition query_bill :: "'d libs \<Rightarrow> 's mysql_api \<Rightarrow> 'd server_config \<Rightarrow> str \<Rightarrow> string \<Rightarrow> word32 \<Rightarrow> ('s, 'd, int) dbm" where
  "query_bill lib api cfg from_part naming page = with_db api (try_catch
     (and_then (open_db api cfg) (\<lambda>_.
      and_then (QuerySQL api (sql_total from_part naming)) (\<lambda>rs.
      and_then (item 0 ''total'' rs) (\<lambda>text.
      let count = StringToInt lib text in
      and_then (QuerySQL api (sql_page from_part page)) (\<lambda>rs.
      if GetRows rs < 1 then yields 6 else
      and_then (push_rows lib rs count [0..<unat (GetRows rs)]) (\<lambda>_.
      yields 0))))))
     failed)"

definition QueryDayBill :: "'d libs \<Rightarrow> 's mysql_api \<Rightarrow> 'd server_config \<Rightarrow> word32 \<Rightarrow> str \<Rightarrow> ('s, 'd, int) dbm" where
  "QueryDayBill lib api cfg page date = query_bill lib api cfg (sql_day date) '' as a'' page"

definition QueryHistoryBill :: "'d libs \<Rightarrow> 's mysql_api \<Rightarrow> 'd server_config \<Rightarrow> word32 \<Rightarrow> str \<Rightarrow> str \<Rightarrow> ('s, 'd, int) dbm" where
  "QueryHistoryBill lib api cfg page begin_date end_date =
     query_bill lib api cfg (sql_between [] begin_date end_date) '' a'' page"

definition QueryAccountHistoryBill :: "'d libs \<Rightarrow> 's mysql_api \<Rightarrow> 'd server_config \<Rightarrow> word32 \<Rightarrow> str \<Rightarrow> str \<Rightarrow> str \<Rightarrow>
    ('s, 'd, int) dbm" where
  "QueryAccountHistoryBill lib api cfg page accountId begin_date end_date =
     query_bill lib api cfg (sql_between (sql_of_account accountId) begin_date end_date) '' as a'' page"

definition CloseAccount :: "'d libs \<Rightarrow> 's mysql_api \<Rightarrow> 'd server_config \<Rightarrow> ('s, 'd, int) dbm" where
  "CloseAccount lib api cfg = with_db api (try_catch
     (and_then (open_db api cfg) (\<lambda>_.
      and_then (StartTransaction api) (\<lambda>_.
      and_then (inspect account) (\<lambda>acc.
      let ident = dec_int (accId acc) in
      and_then (QuerySQL api (sql_active ident False)) (\<lambda>rs.
      if GetRows rs < 1 then yields 2 else
      and_then (QuerySQL api (sql_pass ident (accPass acc) True)) (\<lambda>rs.
      if GetRows rs < 1 then yields 3 else
      and_then (item 0 ''balance'' rs) (\<lambda>text.
      and_then (set_account (\<lambda>a. a\<lparr>accBalance := StringToDouble lib text\<rparr>)) (\<lambda>_.
      and_then (QuerySQL api (sql_interest (GeneralText lib (interetRate cfg)) ident)) (\<lambda>rs.
      and_then (item 0 ''interest'' rs) (\<lambda>text.
      and_then (change (\<lambda>f. f\<lparr>interest := StringToDouble lib text\<rparr>)) (\<lambda>_.
      and_then (ExecSQL api (sql_close ident)) (\<lambda>_.
      and_then (Commit api) (\<lambda>_.
      and_then (QuerySQL api (sql_name ''close_date'' ident)) (\<lambda>rs.
      and_then (item 0 ''name'' rs) (\<lambda>name.
      and_then (set_account (\<lambda>a. a\<lparr>accName := name\<rparr>)) (\<lambda>_.
      and_then (item 0 ''close_date'' rs) (\<lambda>date.
      and_then (set_account (\<lambda>a. a\<lparr>accDate := date\<rparr>)) (\<lambda>_.
      yields 0))))))))))))))))))
     failed)"

section \<open>The interface\<close>

definition called :: "('s, 'd, int) dbm \<Rightarrow> 'd Account \<Rightarrow> 'd \<Rightarrow> (int \<Rightarrow> ('s, 'd) frame \<Rightarrow> 'a) \<Rightarrow> 's \<Rightarrow> ('s, 'a) outcome" where
  "called m acc interest0 result db =
     (case m \<lparr>handle = False, world = db, account = acc, interest = interest0, bill = []\<rparr> of
        None \<Rightarrow> None
      | Some (x, f) \<Rightarrow> Some (map_sum id (\<lambda>ret. result ret f) x, world f))"

definition BankService :: "'d libs \<Rightarrow> 's mysql_api \<Rightarrow> 'd server_config \<Rightarrow> ('s, 'd) IBankService" where
  "BankService lib api cfg =
     (let none = Account_new lib; zero = rawDouble lib
      in \<lparr>svcUserLogin = (\<lambda>user pass. called (UserLogin api cfg user pass) none zero (\<lambda>ret f. ret)),
          svcOpenAccount = (\<lambda>acc. called (OpenAccount lib api cfg) acc zero (\<lambda>ret f. (ret, account f))),
          svcCloseAccount = (\<lambda>acc i. called (CloseAccount lib api cfg) acc i (\<lambda>ret f. (ret, account f, interest f))),
          svcChangePassword = (\<lambda>acc newPass. called (ChangePassword api cfg newPass) acc zero (\<lambda>ret f. (ret, account f))),
          svcDeposit = (\<lambda>acc. called (Deposit lib api cfg) acc zero (\<lambda>ret f. (ret, account f))),
          svcWithDraw = (\<lambda>acc. called (WithDraw lib api cfg) acc zero (\<lambda>ret f. (ret, account f))),
          svcTransfer = (\<lambda>acc other. called (Transfer lib api cfg other) acc zero (\<lambda>ret f. (ret, account f))),
          svcBalanceInquiry = (\<lambda>acc. called (BalanceInquiry lib api cfg) acc zero (\<lambda>ret f. (ret, account f))),
          svcQueryDayBill = (\<lambda>page date. called (QueryDayBill lib api cfg page date) none zero (\<lambda>ret f. (ret, bill f))),
          svcQueryHistoryBill = (\<lambda>page b e. called (QueryHistoryBill lib api cfg page b e) none zero (\<lambda>ret f. (ret, bill f))),
          svcQueryAccountHistoryBill = (\<lambda>page ident b e.
            called (QueryAccountHistoryBill lib api cfg page ident b e) none zero (\<lambda>ret f. (ret, bill f)))\<rparr>)"

end
