(* ===== verification/Bank_Ledger.thy ===== *)
theory Bank_Ledger
  imports Bank_Service
begin

text \<open>
  What the bank's methods do to its books. The tables of \<open>src/49/crebas.sql\<close> are a small data type, amounts are
  whole cents; what MySQL does with the statements of the service is stated as laws, one for every statement, which
  allow every statement to fail. A triple over the methods carries the proofs.
\<close>

section \<open>The books\<close>

record acct_row =
  row_name :: str
  row_pass :: str
  row_balance :: int
  row_open :: bool

record trans_row =
  tr_account :: word32
  tr_other :: "word32 option"
  tr_kind :: nat
  tr_money :: int
  tr_balance :: int
  tr_date :: str

record tables =
  accounts :: "word32 \<Rightarrow> acct_row option"
  transactions :: "word32 \<Rightarrow> trans_row option"

text \<open>What one connection sees: the committed tables, those of its open transaction, and the transaction record it
  inserted last.\<close>

record view =
  committed :: tables
  working :: "tables option"
  lastTrans :: word32

definition current :: "view \<Rightarrow> tables" where
  "current v = (case working v of Some t \<Rightarrow> t | None \<Rightarrow> committed v)"

definition put :: "tables \<Rightarrow> view \<Rightarrow> view" where
  "put t v = (case working v of Some _ \<Rightarrow> v\<lparr>working := Some t\<rparr> | None \<Rightarrow> v\<lparr>committed := t\<rparr>)"

text \<open>\<open>decimal(10,2)\<close>.\<close>

definition fits_decimal :: "int \<Rightarrow> bool" where
  "fits_decimal m \<longleftrightarrow> \<bar>m\<bar> < 10 ^ 10"

definition cents_text :: "int \<Rightarrow> str" where
  "cents_text m =
     (let n = nat \<bar>m\<bar>
      in (if m < 0 then [45] else []) @ dec_nat (n div 100) @ [46] @ dec_nat (n mod 100 div 10) @ dec_nat (n mod 10))"

text \<open>Below that size \<open>double\<close> computes exactly with amounts of cents, as far as two decimals show.\<close>

definition of_cents :: "'d libs \<Rightarrow> int \<Rightarrow> 'd" where
  "of_cents lib m = StringToDouble lib (cents_text m)"

definition exact_money :: "'d libs \<Rightarrow> bool" where
  "exact_money lib \<longleftrightarrow>
     (\<forall>a b. fits_decimal a \<longrightarrow> fits_decimal b \<longrightarrow>
        DoubleToString lib (of_cents lib a) = cents_text a \<and>
        DoubleToString lib (dAdd lib (of_cents lib a) (of_cents lib b)) = cents_text (a + b) \<and>
        DoubleToString lib (dSub lib (of_cents lib a) (of_cents lib b)) = cents_text (a - b) \<and>
        dGreater lib (of_cents lib a) (of_cents lib b) = (a > b))"

definition add_money :: "word32 \<Rightarrow> int \<Rightarrow> tables \<Rightarrow> tables" where
  "add_money i m t =
     t\<lparr>accounts := (accounts t)(i := map_option (\<lambda>r. r\<lparr>row_balance := row_balance r + m\<rparr>) (accounts t i))\<rparr>"

definition record_trans :: "word32 \<Rightarrow> trans_row \<Rightarrow> tables \<Rightarrow> tables" where
  "record_trans tid r t = t\<lparr>transactions := (transactions t)(tid \<mapsto> r)\<rparr>"

definition open_balance :: "word32 \<Rightarrow> tables \<Rightarrow> int option" where
  "open_balance i t = (case accounts t i of Some r \<Rightarrow> if row_open r then Some (row_balance r) else None | None \<Rightarrow> None)"

text \<open>The password stands in the statement as a number and is compared as one.\<close>

definition pass_balance :: "word32 \<Rightarrow> str \<Rightarrow> tables \<Rightarrow> int option" where
  "pass_balance i p t =
     (case accounts t i of
        Some r \<Rightarrow> if digits_value (row_pass r) = digits_value p then Some (row_balance r) else None
      | None \<Rightarrow> None)"

section \<open>What MySQL promises\<close>

text \<open>A statement that fails leaves the committed tables alone, and may have cost the open transaction.\<close>

definition stuck :: "view \<Rightarrow> view \<Rightarrow> bool" where
  "stuck v v' \<longleftrightarrow> committed v' = committed v \<and> (working v' = working v \<or> working v' = None)"

definition law :: "'s mysql_api \<Rightarrow> ('s \<Rightarrow> view) \<Rightarrow> str \<Rightarrow> ('s \<Rightarrow> 's \<Rightarrow> bool) \<Rightarrow> bool" where
  "law api vw sql effect \<longleftrightarrow>
     (\<forall>s ok s'. mysql_query api (c_text sql) s = (ok, s') \<longrightarrow> (if ok then effect s s' else stuck (vw s) (vw s')))"

definition selects :: "'s mysql_api \<Rightarrow> ('s \<Rightarrow> view) \<Rightarrow> str \<Rightarrow> string list \<Rightarrow> (view \<Rightarrow> str option list list) \<Rightarrow> bool" where
  "selects api vw sql names result \<longleftrightarrow>
     law api vw sql (\<lambda>s s'. vw s' = vw s \<and>
       (\<exists>w. mysql_store_result api s' = (Some (map ascii names, result (vw s)), w) \<and> vw w = vw s'))"

definition changes :: "'s mysql_api \<Rightarrow> ('s \<Rightarrow> view) \<Rightarrow> str \<Rightarrow> (view \<Rightarrow> view) \<Rightarrow> bool" where
  "changes api vw sql h \<longleftrightarrow> law api vw sql (\<lambda>s s'. vw s' = h (vw s))"

definition one_row :: "int option \<Rightarrow> str option list list" where
  "one_row found = (case found of Some b \<Rightarrow> [[Some (cents_text b)]] | None \<Rightarrow> [])"

text \<open>Connections and transactions.\<close>

definition session_laws :: "'s mysql_api \<Rightarrow> ('s \<Rightarrow> view) \<Rightarrow> bool" where
  "session_laws api vw \<longleftrightarrow>
     (\<forall>s. vw (snd (mysql_init api s)) = vw s) \<and> (\<forall>opt s. vw (mysql_options api opt s) = vw s) \<and>
     (\<forall>h u p d s. committed (vw (snd (mysql_real_connect api h u p d s))) = committed (vw s) \<and>
        working (vw (snd (mysql_real_connect api h u p d s))) = None) \<and>
     (\<forall>s. committed (vw (mysql_close api s)) = committed (vw s) \<and> working (vw (mysql_close api s)) = None) \<and>
     changes api vw (ascii ''START TRANSACTION'') (\<lambda>v. v\<lparr>committed := current v, working := Some (current v)\<rparr>) \<and>
     changes api vw (ascii ''COMMIT'') (\<lambda>v. v\<lparr>committed := current v, working := None\<rparr>) \<and>
     changes api vw (ascii ''ROLLBACK'') (\<lambda>v. v\<lparr>working := None\<rparr>)"

text \<open>Balances: \<open>ident\<close> is the text by which the statement names account \<open>i\<close>.\<close>

definition reads_account :: "'s mysql_api \<Rightarrow> ('s \<Rightarrow> view) \<Rightarrow> str \<Rightarrow> word32 \<Rightarrow> bool \<Rightarrow> bool" where
  "reads_account api vw ident i lock \<longleftrightarrow>
     selects api vw (sql_active ident lock) [''balance''] (\<lambda>v. one_row (open_balance i (current v)))"

definition checks_pass :: "'s mysql_api \<Rightarrow> ('s \<Rightarrow> view) \<Rightarrow> str \<Rightarrow> word32 \<Rightarrow> str \<Rightarrow> bool \<Rightarrow> bool" where
  "checks_pass api vw ident i p lock \<longleftrightarrow>
     selects api vw (sql_pass ident p lock) [''balance''] (\<lambda>v. one_row (pass_balance i p (current v)))"

definition moves_money :: "'s mysql_api \<Rightarrow> ('s \<Rightarrow> view) \<Rightarrow> str \<Rightarrow> word32 \<Rightarrow> int \<Rightarrow> bool" where
  "moves_money api vw sql i m \<longleftrightarrow>
     law api vw sql (\<lambda>s s'.
       (\<forall>r. accounts (current (vw s)) i = Some r \<longrightarrow> fits_decimal (row_balance r + m)) \<longrightarrow>
         vw s' = put (add_money i m (current (vw s))) (vw s))"

text \<open>A new record gets a number of its own and the time of the server.\<close>

definition records :: "'s mysql_api \<Rightarrow> ('s \<Rightarrow> view) \<Rightarrow> word32 \<Rightarrow> word32 option \<Rightarrow> str \<Rightarrow> str \<Rightarrow> nat \<Rightarrow> int \<Rightarrow> int \<Rightarrow> bool" where
  "records api vw i other ident othertext kind m b \<longleftrightarrow>
     law api vw (sql_trans ident othertext kind (cents_text m) (cents_text b)) (\<lambda>s s'.
       \<exists>tid date. transactions (current (vw s)) tid = None \<and> mysql_insert_id api s' = ucast tid \<and>
         vw s' = put (record_trans tid
           \<lparr>tr_account = i, tr_other = other, tr_kind = kind, tr_money = m, tr_balance = b, tr_date = date\<rparr>
           (current (vw s))) (vw s)\<lparr>lastTrans := tid\<rparr>)"

text \<open>The receipt of the record inserted last.\<close>

definition receipt_row :: "view \<Rightarrow> str option list list" where
  "receipt_row v =
     (case transactions (current v) (lastTrans v) of
        None \<Rightarrow> []
      | Some r \<Rightarrow> (case accounts (current v) (tr_account r) of
                    None \<Rightarrow> [] | Some a \<Rightarrow> [[Some (row_name a), Some (tr_date r)]]))"

definition reads_receipt :: "'s mysql_api \<Rightarrow> ('s \<Rightarrow> view) \<Rightarrow> bool" where
  "reads_receipt api vw \<longleftrightarrow>
     (\<forall>tid s ok s'. lastTrans (vw s) = tid \<longrightarrow>
        mysql_query api (c_text (sql_receipt (dec_int tid))) s = (ok, s') \<longrightarrow>
        (if ok then vw s' = vw s \<and>
           (\<exists>w. mysql_store_result api s' = (Some (map ascii [''name'', ''trans_date''], receipt_row (vw s)), w) \<and> vw w = vw s')
         else stuck (vw s) (vw s')))"

section \<open>Texts and record sets\<close>

lemma c_text_id: "0 \<notin> set s \<Longrightarrow> c_text s = s"
  unfolding c_text_def by (intro takeWhile_eq_all_conv [THEN iffD2]) auto

lemma cents_text_nonzero: "0 \<notin> set (cents_text m)"
  using dec_nat_nonzero by (simp add: cents_text_def Let_def)

lemma c_text_cents [simp]: "c_text (cents_text m) = cents_text m"
  by (rule c_text_id [OF cents_text_nonzero])

lemma rows_none [simp]: "GetRows (recordset ns []) = 0"
  by (simp add: GetRows_def recordset_def)

lemma rows_one [simp]: "GetRows (recordset ns [r]) = 1"
  by (simp add: GetRows_def recordset_def)

lemma item_balance [simp]:
  "GetItemNamed 0 (ascii ''balance'') (recordset (map ascii [''balance'']) [[Some t]]) = Some (c_text t)"
  by (simp add: GetItemNamed_def GetItem_def GetFieldIndex_def recordset_def ascii_def c_text_def)

lemma item_receipt [simp]:
  "GetItemNamed 0 (ascii ''name'') (recordset (map ascii [''name'', ''trans_date'']) [[Some a, Some b]]) = Some (c_text a)"
  "GetItemNamed 0 (ascii ''trans_date'') (recordset (map ascii [''name'', ''trans_date'']) [[Some a, Some b]]) = Some (c_text b)"
  by (simp_all add: GetItemNamed_def GetItem_def GetFieldIndex_def recordset_def ascii_def c_text_def)

section \<open>Triples\<close>

definition triple :: "(('s, 'd) frame \<Rightarrow> bool) \<Rightarrow> ('s, 'd, 'a) dbm \<Rightarrow> ('a \<Rightarrow> ('s, 'd) frame \<Rightarrow> bool) \<Rightarrow>
    (('s, 'd) frame \<Rightarrow> bool) \<Rightarrow> bool" where
  "triple P m Q E \<longleftrightarrow>
     (\<forall>f. P f \<longrightarrow> (case m f of None \<Rightarrow> False | Some (Inr x, g) \<Rightarrow> Q x g | Some (Inl e, g) \<Rightarrow> E g))"

text \<open>A frame whose connection sees \<open>v\<close>, and one in which an exception has left the committed tables in \<open>T\<close>.\<close>

definition seen :: "('s \<Rightarrow> view) \<Rightarrow> view \<Rightarrow> 'd Account \<Rightarrow> ('s, 'd) frame \<Rightarrow> bool" where
  "seen vw v a f \<longleftrightarrow> handle f \<and> vw (world f) = v \<and> account f = a"

definition broken :: "('s \<Rightarrow> view) \<Rightarrow> tables set \<Rightarrow> ('s, 'd) frame \<Rightarrow> bool" where
  "broken vw T f \<longleftrightarrow> handle f \<and> committed (vw (world f)) \<in> T"

lemma triple_pre: "triple P' m Q E \<Longrightarrow> (\<And>f. P f \<Longrightarrow> P' f) \<Longrightarrow> triple P m Q E"
  by (simp add: triple_def)

lemma triple_yields: "(\<And>f. P f \<Longrightarrow> Q x f) \<Longrightarrow> triple P (yields x) Q E"
  by (simp add: triple_def yields_def)

lemma triple_then:
  assumes "triple P m R E" "\<And>x. triple (R x) (k x) Q E"
  shows "triple P (and_then m k) Q E"
  unfolding triple_def
proof (intro allI impI)
  fix f
  assume "P f"
  then have m: "case m f of None \<Rightarrow> False | Some (Inr x, g) \<Rightarrow> R x g | Some (Inl e, g) \<Rightarrow> E g"
    using assms(1) by (simp add: triple_def)
  then obtain y g where y: "m f = Some (y, g)" by (cases "m f") auto
  show "case and_then m k f of None \<Rightarrow> False | Some (Inr x, g) \<Rightarrow> Q x g | Some (Inl e, g) \<Rightarrow> E g"
  proof (cases y)
    case (Inl e)
    then show ?thesis using m y by (simp add: and_then_def)
  next
    case (Inr x)
    then have "R x g" using m y by simp
    then have "case k x g of None \<Rightarrow> False | Some (Inr x, g) \<Rightarrow> Q x g | Some (Inl e, g) \<Rightarrow> E g"
      using assms(2) by (simp add: triple_def)
    then show ?thesis using y Inr by (simp add: and_then_def)
  qed
qed

lemma triple_try:
  assumes "triple P body Q E'" "triple E' handler Q E"
  shows "triple P (try_catch body handler) Q E"
  unfolding triple_def
proof (intro allI impI)
  fix f
  assume "P f"
  then have m: "case body f of None \<Rightarrow> False | Some (Inr x, g) \<Rightarrow> Q x g | Some (Inl e, g) \<Rightarrow> E' g"
    using assms(1) by (simp add: triple_def)
  then obtain y g where y: "body f = Some (y, g)" by (cases "body f") auto
  then show "case try_catch body handler f of None \<Rightarrow> False | Some (Inr x, g) \<Rightarrow> Q x g | Some (Inl e, g) \<Rightarrow> E g"
    using m assms(2) by (cases y) (simp_all add: try_catch_def triple_def)
qed

text \<open>One rule for every kind of step, on frames that see \<open>v\<close>.\<close>

named_theorems steps \<open>rules for the steps of a method\<close>

lemma then_query:
  fixes vw :: "'s \<Rightarrow> view" and a :: "'d Account"
  assumes "law api vw sql effect" "committed v \<in> T"
    and "\<And>s'. triple (\<lambda>f. handle f \<and> account f = a \<and> (\<exists>s. vw s = v \<and> effect s (world f))) (k True) Q (broken vw T)"
    and "triple (\<lambda>f. handle f \<and> stuck v (vw (world f))) (k False) Q (broken vw T)"
  shows "triple (seen vw v a) (and_then (run_query api sql) k) Q (broken vw T)"
proof (rule triple_then)
  show "triple (seen vw v a) (run_query api sql)
    (\<lambda>ok f. if ok then handle f \<and> account f = a \<and> (\<exists>s. vw s = v \<and> effect s (world f))
      else handle f \<and> stuck v (vw (world f))) (broken vw T)"
    unfolding triple_def seen_def
  proof (intro allI impI)
    fix f :: "('s, 'd) frame"
    assume f: "handle f \<and> vw (world f) = v \<and> account f = a"
    obtain ok w where w: "mysql_query api (c_text sql) (world f) = (ok, w)" by (cases "mysql_query api (c_text sql) (world f)")
    then have "if ok then effect (world f) w else stuck v (vw w)" using assms(1) f by (auto simp: law_def)
    then show "case run_query api sql f of None \<Rightarrow> False
      | Some (Inr ok, f) \<Rightarrow> if ok then handle f \<and> account f = a \<and> (\<exists>s. vw s = v \<and> effect s (world f))
          else handle f \<and> stuck v (vw (world f))
      | Some (Inl e, f) \<Rightarrow> broken vw T f"
      using f w by (auto simp: run_query_def)
  qed
  show "triple (\<lambda>f. if ok then handle f \<and> account f = a \<and> (\<exists>s. vw s = v \<and> effect s (world f))
      else handle f \<and> stuck v (vw (world f))) (k ok) Q (broken vw T)" for ok
    using assms(3,4) by (cases ok) simp_all
qed

lemma triple_throw:
  assumes "committed v \<in> T"
  shows "triple (\<lambda>f. handle f \<and> stuck v (vw (world f))) (throw e) Q (broken vw T)"
  using assms by (auto simp: triple_def throw_def broken_def stuck_def)

lemma and_then_assoc: "and_then (and_then m k) h = and_then m (\<lambda>x. and_then (k x) h)"
  by (rule ext) (simp add: and_then_def split: option.split sum.split)

lemma and_then_throw: "and_then (throw e) k = throw e"
  by (rule ext) (simp add: and_then_def throw_def)

lemma and_then_yields: "and_then (yields x) k = k x"
  by (rule ext) (simp add: and_then_def yields_def)

lemma then_exec:
  assumes "law api vw sql effect" "committed v \<in> T"
    and "\<And>n. triple (\<lambda>f. handle f \<and> account f = a \<and> (\<exists>s. vw s = v \<and> effect s (world f))) (k n) Q (broken vw T)"
  shows "triple (seen vw v a) (and_then (ExecSQL api sql) k) Q (broken vw T)"
  unfolding ExecSQL_def and_then_assoc
proof (rule then_query [OF assms(1,2)])
  have "triple (\<lambda>f. handle f \<and> account f = a \<and> (\<exists>s. vw s = v \<and> effect s (world f)))
      (and_then (inspect (\<lambda>f. mysql_affected_rows api (world f))) k) Q (broken vw T)"
    by (rule triple_then [where R = "\<lambda>n f. handle f \<and> account f = a \<and> (\<exists>s. vw s = v \<and> effect s (world f))", OF _ assms(3)])
      (simp add: triple_def inspect_def)
  then show "triple (\<lambda>f. handle f \<and> account f = a \<and> (\<exists>s. vw s = v \<and> effect s (world f)))
      (and_then (if \<not> True then throw DbError else inspect (\<lambda>f. mysql_affected_rows api (world f))) k) Q (broken vw T)"
    by simp
  show "triple (\<lambda>f. handle f \<and> stuck v (vw (world f)))
      (and_then (if \<not> False then throw DbError else inspect (\<lambda>f. mysql_affected_rows api (world f))) k) Q (broken vw T)"
    using triple_throw [OF assms(2)] by (simp add: and_then_throw)
qed

lemma then_select [steps]:
  assumes "selects api vw sql names result" "committed v \<in> T"
    and "triple (seen vw v a) (k (recordset (map ascii names) (result v))) Q (broken vw T)"
  shows "triple (seen vw v a) (and_then (QuerySQL api sql) k) Q (broken vw T)"
  unfolding QuerySQL_def and_then_assoc
proof (rule then_query [OF assms(1) [unfolded selects_def] assms(2)])
  let ?P = "\<lambda>f. handle f \<and> account f = a \<and> (\<exists>s. vw s = v \<and> vw (world f) = vw s \<and>
      (\<exists>w. mysql_store_result api (world f) = (Some (map ascii names, result (vw s)), w) \<and> vw w = vw (world f)))"
  have "triple ?P (store_result api) (\<lambda>rs f. rs = recordset (map ascii names) (result v) \<and> seen vw v a f) (broken vw T)"
    by (auto simp: triple_def store_result_def seen_def)
  then have "triple ?P (and_then (store_result api) k) Q (broken vw T)"
  proof (rule triple_then)
    show "triple (\<lambda>f. rs = recordset (map ascii names) (result v) \<and> seen vw v a f) (k rs) Q (broken vw T)" for rs
      using assms(3) by (auto simp: triple_def)
  qed
  then show "triple ?P (and_then (if \<not> True then throw DbError else store_result api) k) Q (broken vw T)"
    by simp
  show "triple (\<lambda>f. handle f \<and> stuck v (vw (world f))) (and_then (if \<not> False then throw DbError else store_result api) k)
      Q (broken vw T)"
    using triple_throw [OF assms(2)] by (simp add: and_then_throw)
qed

lemma then_change [steps]:
  assumes "changes api vw sql h" "committed v \<in> T" "\<And>n. triple (seen vw (h v) a) (k n) Q (broken vw T)"
  shows "triple (seen vw v a) (and_then (ExecSQL api sql) k) Q (broken vw T)"
  by (rule then_exec [OF assms(1) [unfolded changes_def] assms(2)], rule triple_pre [OF assms(3)]) (auto simp: seen_def)

lemma then_transaction:
  assumes "changes api vw sql h" "committed v \<in> T" "triple (seen vw (h v) a) (k ()) Q (broken vw T)"
  shows "triple (seen vw v a) (and_then (and_then (run_query api sql) (\<lambda>ok. if \<not> ok then throw DbError else yields ())) k)
    Q (broken vw T)"
  unfolding and_then_assoc
proof (rule then_query [OF assms(1) [unfolded changes_def] assms(2)])
  have "triple (\<lambda>f. handle f \<and> account f = a \<and> (\<exists>s. vw s = v \<and> vw (world f) = h (vw s))) (k ()) Q (broken vw T)"
    by (rule triple_pre [OF assms(3)]) (auto simp: seen_def)
  then show "triple (\<lambda>f. handle f \<and> account f = a \<and> (\<exists>s. vw s = v \<and> vw (world f) = h (vw s)))
      (and_then (if \<not> True then throw DbError else yields ()) k) Q (broken vw T)"
    by (simp add: and_then_yields)
  show "triple (\<lambda>f. handle f \<and> stuck v (vw (world f))) (and_then (if \<not> False then throw DbError else yields ()) k)
      Q (broken vw T)"
    using triple_throw [OF assms(2)] by (simp add: and_then_throw)
qed

lemma then_start [steps]:
  assumes "session_laws api vw" "committed v \<in> T" "working v = None"
    and "triple (seen vw (v\<lparr>working := Some (committed v)\<rparr>) a) (k ()) Q (broken vw T)"
  shows "triple (seen vw v a) (and_then (StartTransaction api) k) Q (broken vw T)"
  unfolding StartTransaction_def using assms
  by (intro then_transaction [where h = "\<lambda>v. v\<lparr>committed := current v, working := Some (current v)\<rparr>"])
    (simp_all add: session_laws_def current_def)

lemma then_commit [steps]:
  assumes "session_laws api vw" "committed v \<in> T"
    and "triple (seen vw (v\<lparr>committed := current v, working := None\<rparr>) a) (k ()) Q (broken vw T)"
  shows "triple (seen vw v a) (and_then (Commit api) k) Q (broken vw T)"
  unfolding Commit_def using assms
  by (intro then_transaction [where h = "\<lambda>v. v\<lparr>committed := current v, working := None\<rparr>"]) (simp_all add: session_laws_def)

lemma then_move [steps]:
  assumes "moves_money api vw sql i m" "committed v \<in> T"
    and "\<And>r. accounts (current v) i = Some r \<Longrightarrow> fits_decimal (row_balance r + m)"
    and "\<And>n. triple (seen vw (put (add_money i m (current v)) v) a) (k n) Q (broken vw T)"
  shows "triple (seen vw v a) (and_then (ExecSQL api sql) k) Q (broken vw T)"
  by (rule then_exec [OF assms(1) [unfolded moves_money_def] assms(2)], rule triple_pre [OF assms(4)])
    (use assms(3) in \<open>auto simp: seen_def\<close>)

text \<open>A record is made; with or without asking for its number.\<close>

definition recorded :: "word32 \<Rightarrow> word32 option \<Rightarrow> nat \<Rightarrow> int \<Rightarrow> int \<Rightarrow> word32 \<Rightarrow> str \<Rightarrow> view \<Rightarrow> view" where
  "recorded i other kind m b tid date v =
     (put (record_trans tid
        \<lparr>tr_account = i, tr_other = other, tr_kind = kind, tr_money = m, tr_balance = b, tr_date = date\<rparr> (current v)) v)
     \<lparr>lastTrans := tid\<rparr>"

lemma then_record:
  assumes "records api vw i other ident othertext kind m b" "committed v \<in> T"
    and "\<And>tid date n. transactions (current v) tid = None \<Longrightarrow>
      triple (\<lambda>f. seen vw (recorded i other kind m b tid date v) a f \<and> mysql_insert_id api (world f) = ucast tid)
        (k n) Q (broken vw T)"
  shows "triple (seen vw v a) (and_then (ExecSQL api (sql_trans ident othertext kind (cents_text m) (cents_text b))) k)
    Q (broken vw T)"
  by (rule then_exec [OF assms(1) [unfolded records_def] assms(2)])
    (use assms(3) in \<open>fastforce simp: triple_def seen_def recorded_def\<close>)

lemma then_record_only:
  assumes "records api vw i other ident othertext kind m b" "committed v \<in> T"
    and "\<And>tid date n. transactions (current v) tid = None \<Longrightarrow>
      triple (seen vw (recorded i other kind m b tid date v) a) (k n) Q (broken vw T)"
  shows "triple (seen vw v a) (and_then (ExecSQL api (sql_trans ident othertext kind (cents_text m) (cents_text b))) k)
    Q (broken vw T)"
  by (rule then_record [OF assms(1,2)], rule triple_pre [OF assms(3)]) auto

lemma then_insert_id:
  assumes "triple (seen vw v a) (k (ucast tid)) Q E"
  shows "triple (\<lambda>f. seen vw v a f \<and> mysql_insert_id api (world f) = ucast tid) (and_then (GetInsertId api) k) Q E"
  using assms by (simp add: triple_def GetInsertId_def inspect_def and_then_def)

lemma then_record_id:
  assumes "records api vw i other ident othertext kind m b" "committed v \<in> T"
    and "\<And>tid date. transactions (current v) tid = None \<Longrightarrow>
      triple (seen vw (recorded i other kind m b tid date v) a) (k (ucast tid)) Q (broken vw T)"
  shows "triple (seen vw v a) (and_then (ExecSQL api (sql_trans ident othertext kind (cents_text m) (cents_text b)))
    (\<lambda>_. and_then (GetInsertId api) k)) Q (broken vw T)"
  by (rule then_record [OF assms(1,2)], rule then_insert_id, rule assms(3))

lemma then_receipt [steps]:
  assumes "reads_receipt api vw" "committed v \<in> T" "lastTrans v = tid"
    and "triple (seen vw v a) (k (recordset (map ascii [''name'', ''trans_date'']) (receipt_row v))) Q (broken vw T)"
  shows "triple (seen vw v a) (and_then (QuerySQL api (sql_receipt (dec_int tid))) k) Q (broken vw T)"
proof -
  let ?P = "\<lambda>ok f. if ok then \<exists>w. handle f \<and> account f = a \<and> vw (world f) = v \<and>
      mysql_store_result api (world f) = (Some (map ascii [''name'', ''trans_date''], receipt_row v), w) \<and> vw w = v
    else handle f \<and> stuck v (vw (world f))"
  have "triple (seen vw v a) (run_query api (sql_receipt (dec_int tid))) ?P (broken vw T)"
    using assms(1,3) by (fastforce simp: triple_def run_query_def seen_def reads_receipt_def split: prod.splits if_splits)
  then show ?thesis
    unfolding QuerySQL_def and_then_assoc
  proof (rule triple_then)
    fix ok
    show "triple (?P ok) (and_then (if \<not> ok then throw DbError else store_result api) k) Q (broken vw T)"
    proof (cases ok)
      case False
      then show ?thesis using triple_throw [OF assms(2)] by (simp add: and_then_throw)
    next
      case True
      have "triple (?P True) (store_result api)
          (\<lambda>rs f. rs = recordset (map ascii [''name'', ''trans_date'']) (receipt_row v) \<and> seen vw v a f) (broken vw T)"
        by (auto simp: triple_def store_result_def seen_def)
      then have "triple (?P True) (and_then (store_result api) k) Q (broken vw T)"
        by (rule triple_then) (use assms(4) in \<open>auto simp: triple_def\<close>)
      with True show ?thesis by simp
    qed
  qed
qed

lemma then_item [steps]:
  assumes "GetItemNamed n (ascii name) rs = Some x" "triple P (k x) Q E"
  shows "triple P (and_then (item n name rs) k) Q E"
  using assms by (simp add: triple_def and_then_def item_def)

lemma then_set_account [steps]:
  "triple (seen vw v (h a)) (k ()) Q E \<Longrightarrow> triple (seen vw v a) (and_then (set_account h) k) Q E"
  by (simp add: triple_def and_then_def set_account_def change_def seen_def)

lemma then_account [steps]:
  "triple (seen vw v a) (k a) Q E \<Longrightarrow> triple (seen vw v a) (and_then (inspect account) k) Q E"
  by (simp add: triple_def and_then_def inspect_def seen_def)

lemma triple_if: "(b \<Longrightarrow> triple P m Q E) \<Longrightarrow> (\<not> b \<Longrightarrow> triple P m' Q E) \<Longrightarrow> triple P (if b then m else m') Q E"
  by simp

section \<open>Whole methods\<close>

text \<open>A connection that can be made.\<close>

definition connects :: "'s mysql_api \<Rightarrow> 'd server_config \<Rightarrow> bool" where
  "connects api cfg \<longleftrightarrow>
     (\<forall>s. fst (mysql_init api s)) \<and>
     (\<forall>s. fst (mysql_real_connect api (c_text (dbServerIp cfg)) (c_text (dbUser cfg)) (c_text (dbPass cfg))
        (c_text (dbName cfg)) s))"

definition starts :: "('s \<Rightarrow> view) \<Rightarrow> tables \<Rightarrow> 'd Account \<Rightarrow> ('s, 'd) frame \<Rightarrow> bool" where
  "starts vw t a f \<longleftrightarrow> committed (vw (world f)) = t \<and> account f = a"

text \<open>How a method ends: with a result, an account and the committed tables, or with an exception.\<close>

definition ended :: "('s \<Rightarrow> view) \<Rightarrow> (int \<Rightarrow> 'd Account \<Rightarrow> tables \<Rightarrow> bool) \<Rightarrow> int \<Rightarrow> ('s, 'd) frame \<Rightarrow> bool" where
  "ended vw R r f \<longleftrightarrow> R r (account f) (committed (vw (world f)))"

lemma then_open:
  assumes "session_laws api vw" "connects api cfg"
    and "\<And>v. committed v = t \<Longrightarrow> working v = None \<Longrightarrow> triple (seen vw v a) (k ()) Q E"
  shows "triple (starts vw t a) (and_then (open_db api cfg) k) Q E"
proof (rule triple_then [where R = "\<lambda>_ f. \<exists>v. committed v = t \<and> working v = None \<and> seen vw v a f"])
  have made: "\<And>s made w. mysql_init api s = (made, w) \<Longrightarrow> made \<and> vw w = vw s"
    using assms(1,2) unfolding session_laws_def connects_def by (metis fst_conv snd_conv)
  have conn: "\<And>s c w. mysql_real_connect api (c_text (dbServerIp cfg)) (c_text (dbUser cfg)) (c_text (dbPass cfg))
      (c_text (dbName cfg)) s = (c, w) \<Longrightarrow> c \<and> committed (vw w) = committed (vw s) \<and> working (vw w) = None"
    using assms(1,2) unfolding session_laws_def connects_def by (metis fst_conv snd_conv)
  have opts: "vw (mysql_options api opt s) = vw s" for opt s using assms(1) by (simp add: session_laws_def)
  show "triple (starts vw t a) (open_db api cfg) (\<lambda>_ f. \<exists>v. committed v = t \<and> working v = None \<and> seen vw v a f) E"
    by (auto simp: triple_def open_db_def db_Open_def Let_def starts_def seen_def opts dest!: made conn split: prod.splits)
  show "triple (\<lambda>f. \<exists>v. committed v = t \<and> working v = None \<and> seen vw v a f) (k x) Q E" for x
    using assms(3) by (auto simp: triple_def)
qed

text \<open>The handlers: either way the result is no longer that of the method.\<close>

lemma triple_failed:
  assumes "\<And>a t. t \<in> T \<Longrightarrow> R (- 1) a t"
  shows "triple (broken vw T) failed (\<lambda>r f. handle f \<and> ended vw R r f) (broken vw T)"
  using assms by (auto simp: triple_def failed_def yields_def broken_def ended_def)

lemma triple_rolled_back:
  assumes "session_laws api vw" "\<And>a t. t \<in> T \<Longrightarrow> R (- 1) a t"
  shows "triple (broken vw T) (rolled_back api) (\<lambda>r f. handle f \<and> ended vw R r f) (broken vw T)"
proof -
  have "law api vw (ascii ''ROLLBACK'') (\<lambda>s s'. vw s' = (vw s)\<lparr>working := None\<rparr>)"
    using assms(1) by (simp add: session_laws_def changes_def)
  then have "committed (vw s') = committed (vw s)" if "mysql_query api (c_text (ascii ''ROLLBACK'')) s = (ok, s')" for ok s s'
    using that by (fastforce simp: law_def stuck_def split: if_splits)
  then show ?thesis
    using assms(2) unfolding triple_def
    by (auto simp: rolled_back_def Rollback_def and_then_def run_query_def throw_def yields_def broken_def ended_def
        split: prod.splits)
qed

text \<open>A method is a body under a handler, on a connection that is closed at the end.\<close>

lemma triple_method:
  assumes "session_laws api vw"
    and "triple (starts vw t a) body (\<lambda>r f. handle f \<and> ended vw R r f) (broken vw T)"
    and "triple (broken vw T) handler (\<lambda>r f. handle f \<and> ended vw R r f) (broken vw T)"
  shows "triple (starts vw t a) (with_db api (try_catch body handler)) (ended vw R) (\<lambda>f. committed (vw (world f)) \<in> T)"
proof -
  let ?m = "try_catch body handler"
  have t: "triple (starts vw t a) ?m (\<lambda>r f. handle f \<and> ended vw R r f) (broken vw T)"
    by (rule triple_try [OF assms(2,3)])
  have close: "committed (vw (mysql_close api s)) = committed (vw s)" for s
    using assms(1) by (simp add: session_laws_def)
  show ?thesis
    unfolding triple_def
  proof (intro allI impI)
    fix f
    assume "starts vw t a f"
    then have "starts vw t a (f\<lparr>handle := False\<rparr>)" by (simp add: starts_def)
    then have m: "case ?m (f\<lparr>handle := False\<rparr>) of None \<Rightarrow> False
      | Some (Inr r, g) \<Rightarrow> handle g \<and> ended vw R r g | Some (Inl e, g) \<Rightarrow> broken vw T g"
      using t by (simp add: triple_def)
    then obtain y g where y: "?m (f\<lparr>handle := False\<rparr>) = Some (y, g)"
      by (cases "?m (f\<lparr>handle := False\<rparr>)") auto
    then show "case with_db api ?m f of None \<Rightarrow> False | Some (Inr r, g) \<Rightarrow> ended vw R r g
      | Some (Inl e, g) \<Rightarrow> committed (vw (world g)) \<in> T"
      using m by (cases y) (simp_all add: with_db_def db_Close_def ended_def broken_def close)
  qed
qed

end
