(* ===== verification/Bank_Accounts.thy ===== *)
theory Bank_Accounts
  imports Bank_Ledger
begin

text \<open>
  The account methods of the service on the books: with which results they return, what they have committed then, and
  what they have committed when they throw.
\<close>

section \<open>Laws that a method needs\<close>

definition connection_laws :: "'d libs \<Rightarrow> 's mysql_api \<Rightarrow> 'd server_config \<Rightarrow> ('s \<Rightarrow> view) \<Rightarrow> bool" where
  "connection_laws lib api cfg vw \<longleftrightarrow> session_laws api vw \<and> connects api cfg \<and> exact_money lib \<and> reads_receipt api vw"

text \<open>Account \<open>i\<close>, password \<open>p\<close>, amount \<open>m\<close>; in a transfer the other account \<open>j\<close>, which \<open>other\<close> names.\<close>

definition deposit_laws :: "'s mysql_api \<Rightarrow> ('s \<Rightarrow> view) \<Rightarrow> word32 \<Rightarrow> int \<Rightarrow> bool" where
  "deposit_laws api vw i m \<longleftrightarrow>
     reads_account api vw (dec_int i) i True \<and> moves_money api vw (sql_add (dec_int i) (cents_text m)) i m \<and>
     (\<forall>b. records api vw i None (dec_int i) (ascii ''null'') 2 m b)"

definition withdraw_laws :: "'s mysql_api \<Rightarrow> ('s \<Rightarrow> view) \<Rightarrow> word32 \<Rightarrow> str \<Rightarrow> int \<Rightarrow> bool" where
  "withdraw_laws api vw i p m \<longleftrightarrow>
     reads_account api vw (dec_int i) i False \<and> checks_pass api vw (dec_int i) i p True \<and>
     moves_money api vw (sql_sub (dec_int i) (cents_text m)) i (- m) \<and>
     (\<forall>b. records api vw i None (dec_int i) (ascii ''null'') 3 m b)"

definition transfer_laws :: "'s mysql_api \<Rightarrow> ('s \<Rightarrow> view) \<Rightarrow> word32 \<Rightarrow> str \<Rightarrow> int \<Rightarrow> word32 \<Rightarrow> str \<Rightarrow> bool" where
  "transfer_laws api vw i p m j other \<longleftrightarrow>
     reads_account api vw (dec_int i) i False \<and> checks_pass api vw (dec_int i) i p True \<and>
     reads_account api vw other j True \<and>
     moves_money api vw (sql_sub (dec_int i) (cents_text m)) i (- m) \<and>
     moves_money api vw (sql_add other (cents_text m)) j m \<and>
     (\<forall>b. records api vw i (Some j) (dec_int i) (dec_int j) 5 m b \<and>
          records api vw j (Some i) (dec_int j) (dec_int i) 4 m b)"

text \<open>Balances that stay within \<open>decimal(10,2)\<close>.\<close>

definition fits_account :: "word32 \<Rightarrow> int \<Rightarrow> tables \<Rightarrow> bool" where
  "fits_account i m t \<longleftrightarrow>
     (\<forall>r. accounts t i = Some r \<longrightarrow> fits_decimal (row_balance r) \<and> fits_decimal (row_balance r + m))"

section \<open>What is booked, and how methods end\<close>

definition booked :: "word32 \<Rightarrow> nat \<Rightarrow> int \<Rightarrow> int \<Rightarrow> int \<Rightarrow> word32 \<Rightarrow> str \<Rightarrow> tables \<Rightarrow> tables" where
  "booked i kind d m b tid date t =
     record_trans tid
       \<lparr>tr_account = i, tr_other = None, tr_kind = kind, tr_money = m, tr_balance = b, tr_date = date\<rparr> (add_money i d t)"

definition bookings :: "word32 \<Rightarrow> nat \<Rightarrow> int \<Rightarrow> int \<Rightarrow> int \<Rightarrow> tables \<Rightarrow> tables set" where
  "bookings i kind d m b t = {booked i kind d m b tid date t | tid date. transactions t tid = None}"

text \<open>The result of a method: the code with which it has to refuse, when there is one, and nothing is changed; or 0
  and its work is done. In place of both it may return \<open>-1\<close>, having committed something in \<open>left\<close>.\<close>

definition result :: "int option \<Rightarrow> ('d Account \<Rightarrow> tables \<Rightarrow> bool) \<Rightarrow> tables set \<Rightarrow> 'd Account \<Rightarrow> tables \<Rightarrow>
    int \<Rightarrow> 'd Account \<Rightarrow> tables \<Rightarrow> bool" where
  "result refusal finished left acc t ret acc' t' \<longleftrightarrow>
     (case refusal of
        Some c \<Rightarrow> (ret = c \<and> acc' = acc \<or> ret = - 1) \<and> t' = t
      | None \<Rightarrow> ret = 0 \<and> finished acc' t' \<or> ret = - 1 \<and> t' \<in> left)"

definition leftovers :: "int option \<Rightarrow> tables set \<Rightarrow> tables \<Rightarrow> tables set" where
  "leftovers refusal left t = (case refusal of Some _ \<Rightarrow> {t} | None \<Rightarrow> left)"

definition deposit_refusal :: "word32 \<Rightarrow> tables \<Rightarrow> int option" where
  "deposit_refusal i t = (case open_balance i t of None \<Rightarrow> Some 2 | Some b \<Rightarrow> None)"

definition withdraw_refusal :: "word32 \<Rightarrow> str \<Rightarrow> int \<Rightarrow> tables \<Rightarrow> int option" where
  "withdraw_refusal i p m t =
     (case open_balance i t of
        None \<Rightarrow> Some 2
      | Some b \<Rightarrow> (case pass_balance i p t of None \<Rightarrow> Some 3 | Some b \<Rightarrow> if m > b then Some 4 else None))"

definition transfer_refusal :: "word32 \<Rightarrow> str \<Rightarrow> int \<Rightarrow> word32 \<Rightarrow> tables \<Rightarrow> int option" where
  "transfer_refusal i p m j t =
     (case withdraw_refusal i p m t of
        Some c \<Rightarrow> Some c
      | None \<Rightarrow> (case open_balance j t of None \<Rightarrow> Some 5 | Some b \<Rightarrow> None))"

text \<open>A single booking of kind \<open>kind\<close> that moves \<open>d\<close>, and its receipt with the new balance \<open>bal\<close>.\<close>

definition account_row :: "word32 \<Rightarrow> tables \<Rightarrow> acct_row" where
  "account_row i t = the (accounts t i)"

definition one_booking :: "nat \<Rightarrow> int \<Rightarrow> int \<Rightarrow> 'd \<Rightarrow> 'd Account \<Rightarrow> tables \<Rightarrow> 'd Account \<Rightarrow> tables \<Rightarrow> bool" where
  "one_booking kind d m bal acc t acc' t' \<longleftrightarrow>
     (let i = accId acc; r = account_row i t
      in \<exists>tid date. transactions t tid = None \<and> t' = booked i kind d m (row_balance r + d) tid date t \<and>
           acc' = acc\<lparr>accName := c_text (row_name r), accDate := c_text date, accBalance := bal\<rparr>)"

definition after_booking :: "nat \<Rightarrow> int \<Rightarrow> int \<Rightarrow> word32 \<Rightarrow> tables \<Rightarrow> tables set" where
  "after_booking kind d m i t = insert t (bookings i kind d m (row_balance (account_row i t) + d) t)"

definition deposit_result :: "'d libs \<Rightarrow> int \<Rightarrow> 'd Account \<Rightarrow> tables \<Rightarrow> int \<Rightarrow> 'd Account \<Rightarrow> tables \<Rightarrow> bool" where
  "deposit_result lib m acc t =
     (let i = accId acc; bal = dAdd lib (of_cents lib m) (of_cents lib (row_balance (account_row i t)))
      in result (deposit_refusal i t) (one_booking 2 m m bal acc t) (after_booking 2 m m i t) acc t)"

definition withdraw_result :: "'d libs \<Rightarrow> int \<Rightarrow> 'd Account \<Rightarrow> tables \<Rightarrow> int \<Rightarrow> 'd Account \<Rightarrow> tables \<Rightarrow> bool" where
  "withdraw_result lib m acc t =
     (let i = accId acc; bal = dSub lib (of_cents lib (row_balance (account_row i t))) (of_cents lib m)
      in result (withdraw_refusal i (accPass acc) m t) (one_booking 3 (- m) m bal acc t) (after_booking 3 (- m) m i t) acc t)"

text \<open>A transfer: both balances, and a record for either account.\<close>

definition transferred :: "word32 \<Rightarrow> int \<Rightarrow> word32 \<Rightarrow> word32 \<Rightarrow> str \<Rightarrow> word32 \<Rightarrow> str \<Rightarrow> tables \<Rightarrow> tables" where
  "transferred i m j tid date tid2 date2 t =
     record_trans tid2
       \<lparr>tr_account = j, tr_other = Some i, tr_kind = 4, tr_money = m, tr_balance = row_balance (account_row j t) + m,
        tr_date = date2\<rparr>
       (record_trans tid
          \<lparr>tr_account = i, tr_other = Some j, tr_kind = 5, tr_money = m, tr_balance = row_balance (account_row i t) - m,
           tr_date = date\<rparr>
          (add_money j m (add_money i (- m) t)))"

definition one_transfer :: "int \<Rightarrow> word32 \<Rightarrow> 'd \<Rightarrow> 'd Account \<Rightarrow> tables \<Rightarrow> 'd Account \<Rightarrow> tables \<Rightarrow> bool" where
  "one_transfer m j bal acc t acc' t' \<longleftrightarrow>
     (let i = accId acc
      in \<exists>tid date tid2 date2. transactions t tid = None \<and> transactions t tid2 = None \<and> tid \<noteq> tid2 \<and>
           t' = transferred i m j tid date tid2 date2 t \<and>
           acc' = acc\<lparr>accBalance := bal, accName := c_text (row_name (account_row i t)), accDate := c_text date\<rparr>)"

definition transfer_result :: "'d libs \<Rightarrow> int \<Rightarrow> word32 \<Rightarrow> 'd Account \<Rightarrow> tables \<Rightarrow> int \<Rightarrow> 'd Account \<Rightarrow> tables \<Rightarrow> bool" where
  "transfer_result lib m j acc t =
     (let i = accId acc; bal = dSub lib (of_cents lib (row_balance (account_row i t))) (of_cents lib m)
      in result (transfer_refusal i (accPass acc) m j t) (one_transfer m j bal acc t) {t} acc t)"

section \<open>Facts for the proofs\<close>

lemma current_simps [simp]:
  "current (v\<lparr>working := Some t\<rparr>) = t" "put t' (v\<lparr>working := Some t\<rparr>) = v\<lparr>working := Some t'\<rparr>"
  "current (v\<lparr>lastTrans := n\<rparr>) = current v" "put t (v\<lparr>lastTrans := n\<rparr>) = (put t v)\<lparr>lastTrans := n\<rparr>"
  "current (v\<lparr>committed := t, working := None\<rparr>) = t"
  by (simp_all add: current_def put_def split: option.split)

lemma transactions_add_money [simp]: "transactions (add_money i m t) = transactions t"
  by (simp add: add_money_def)

lemma transactions_record [simp]: "transactions (record_trans tid r t) = (transactions t)(tid \<mapsto> r)"
  by (simp add: record_trans_def)

lemma same_id [simp]: "ucast (ucast (tid :: word32) :: 64 word) = tid"
  by (simp add: ucast_up_ucast_id is_up)

lemma open_row: "open_balance i t = Some b \<Longrightarrow> accounts t i = Some (account_row i t) \<and> b = row_balance (account_row i t)"
  by (auto simp: open_balance_def account_row_def split: option.splits if_splits)

lemma pass_row: "pass_balance i p t = Some b \<Longrightarrow> accounts t i = Some (account_row i t) \<and> b = row_balance (account_row i t)"
  by (auto simp: pass_balance_def account_row_def split: option.splits if_splits)

lemma exact:
  assumes "exact_money lib" "fits_decimal a"
  shows "DoubleToString lib (of_cents lib a) = cents_text a"
    "fits_decimal b \<Longrightarrow> DoubleToString lib (dAdd lib (of_cents lib a) (of_cents lib b)) = cents_text (a + b)"
    "fits_decimal b \<Longrightarrow> DoubleToString lib (dSub lib (of_cents lib a) (of_cents lib b)) = cents_text (a - b)"
    "fits_decimal b \<Longrightarrow> dGreater lib (of_cents lib a) (of_cents lib b) = (a > b)"
  using assms by (auto simp: exact_money_def)

lemma receipt_booked:
  assumes "current v = booked i kind d m b (lastTrans v) date t" "accounts t i = Some r"
  shows "receipt_row v = [[Some (row_name r), Some date]]"
  using assms(2) unfolding receipt_row_def assms(1) by (simp add: booked_def record_trans_def add_money_def)

lemma in_bookings: "transactions t tid = None \<Longrightarrow> booked i kind d m b tid date t \<in> bookings i kind d m b t"
  by (auto simp: bookings_def)

text \<open>Methods with a transaction: the connection, the transaction, and the handler with its rollback.\<close>

lemma triple_transaction:
  assumes "session_laws api vw" "connects api cfg" "left' = leftovers refusal left t" "t \<in> left"
    and "\<And>v. committed v = t \<Longrightarrow> triple (seen vw (v\<lparr>working := Some t\<rparr>) a) (k ())
      (\<lambda>r f. handle f \<and> ended vw (result refusal finished left acc t) r f) (broken vw left')"
  shows "triple (starts vw t a)
    (with_db api (try_catch (and_then (open_db api cfg) (\<lambda>_. and_then (StartTransaction api) k)) (rolled_back api)))
    (ended vw (result refusal finished left acc t)) (\<lambda>f. committed (vw (world f)) \<in> left')"
proof (rule triple_method [OF assms(1)])
  have t: "t \<in> left'" using assms(4) by (simp add: assms(3) leftovers_def split: option.split)
  show "triple (starts vw t a) (and_then (open_db api cfg) (\<lambda>_. and_then (StartTransaction api) k))
      (\<lambda>r f. handle f \<and> ended vw (result refusal finished left acc t) r f) (broken vw left')"
    by (rule then_open [OF assms(1,2)], rule then_start [OF assms(1)]) (simp_all add: t assms(5))
  show "triple (broken vw left') (rolled_back api)
      (\<lambda>r f. handle f \<and> ended vw (result refusal finished left acc t) r f) (broken vw left')"
    by (rule triple_rolled_back [OF assms(1)]) (auto simp: assms(3) leftovers_def result_def split: option.splits)
qed

text \<open>Looking up an account that has to be open, and its password.\<close>

lemma then_active:
  assumes "reads_account api vw ident i lock" "committed v \<in> T"
    and "open_balance i (current v) = None \<Longrightarrow> triple (seen vw v a) refused Q (broken vw T)"
    and "\<And>b. open_balance i (current v) = Some b \<Longrightarrow>
      triple (seen vw v a) (k (recordset (map ascii [''balance'']) [[Some (cents_text b)]])) Q (broken vw T)"
  shows "triple (seen vw v a) (and_then (QuerySQL api (sql_active ident lock)) (\<lambda>rs.
    if GetRows rs < 1 then refused else k rs)) Q (broken vw T)"
  by (rule then_select [OF assms(1) [unfolded reads_account_def] assms(2)])
    (use assms(3,4) in \<open>auto simp: one_row_def split: option.split\<close>)

lemma then_pass:
  assumes "checks_pass api vw ident i p lock" "committed v \<in> T"
    and "pass_balance i p (current v) = None \<Longrightarrow> triple (seen vw v a) refused Q (broken vw T)"
    and "\<And>b. pass_balance i p (current v) = Some b \<Longrightarrow>
      triple (seen vw v a) (k (recordset (map ascii [''balance'']) [[Some (cents_text b)]])) Q (broken vw T)"
  shows "triple (seen vw v a) (and_then (QuerySQL api (sql_pass ident p lock)) (\<lambda>rs.
    if GetRows rs < 1 then refused else k rs)) Q (broken vw T)"
  by (rule then_select [OF assms(1) [unfolded checks_pass_def] assms(2)])
    (use assms(3,4) in \<open>auto simp: one_row_def split: option.split\<close>)

lemma then_balance:
  assumes "triple P (k (cents_text b)) Q E"
  shows "triple P (and_then (item 0 ''balance'' (recordset (map ascii [''balance'']) [[Some (cents_text b)]])) k) Q E"
  using assms by (intro then_item [OF item_balance]) simp

text \<open>The end of a method that has refused.\<close>

lemma triple_refused:
  assumes "committed v = t" "refusal = Some c"
  shows "triple (seen vw v acc) (yields c) (\<lambda>r f. handle f \<and> ended vw (result refusal finished left acc t) r f) E"
  using assms by (intro triple_yields) (simp add: seen_def ended_def result_def)

section \<open>Deposit and withdrawal\<close>

text \<open>What both do once nothing refuses them: the balance, the record, the end of the transaction, the receipt.\<close>

lemma triple_booking:
  assumes s: "session_laws api vw" and receipts: "reads_receipt api vw"
    and moves: "moves_money api vw sql (accId acc) d"
    and recs: "records api vw (accId acc) None ident (ascii ''null'') kind m (row_balance (account_row (accId acc) t) + d)"
    and row: "accounts t (accId acc) = Some (account_row (accId acc) t)" and fits: "fits_account (accId acc) d t"
    and v: "committed v = t"
  shows "triple (seen vw (v\<lparr>working := Some t\<rparr>) acc)
    (and_then (ExecSQL api sql) (\<lambda>_.
     and_then (ExecSQL api (sql_trans ident (ascii ''null'') kind (cents_text m)
       (cents_text (row_balance (account_row (accId acc) t) + d)))) (\<lambda>_.
     and_then (GetInsertId api) (\<lambda>trans_id.
     and_then (Commit api) (\<lambda>_.
     and_then (QuerySQL api (sql_receipt (dec_int (ucast trans_id)))) (\<lambda>rs.
     and_then (item 0 ''name'' rs) (\<lambda>name.
     and_then (set_account (\<lambda>a. a\<lparr>accName := name\<rparr>)) (\<lambda>_.
     and_then (item 0 ''trans_date'' rs) (\<lambda>date.
     and_then (set_account (\<lambda>a. a\<lparr>accDate := date, accBalance := new (accBalance a)\<rparr>)) (\<lambda>_.
     yields 0))))))))))
    (\<lambda>r f. handle f \<and> ended vw (result None (one_booking kind d m (new (accBalance acc)) acc t)
      (after_booking kind d m (accId acc) t) acc t) r f)
    (broken vw (after_booking kind d m (accId acc) t))"
proof -
  let ?r = "account_row (accId acc) t"
  have t: "t \<in> after_booking kind d m (accId acc) t" by (simp add: after_booking_def)
  have sum: "fits_decimal (row_balance ?r + d)" using fits row by (simp add: fits_account_def)
  show ?thesis
    apply (rule then_move [OF moves], simp add: v t, simp add: row sum)
    apply (rule then_record_id [OF recs], simp add: v t)
    apply (rule then_commit [OF s], simp add: v t recorded_def)
    apply (simp add: recorded_def flip: booked_def)
    apply (rule then_receipt [OF receipts], simp add: after_booking_def in_bookings, simp)
    apply (simp add: receipt_booked [OF _ row])
    apply (rule then_item, rule item_receipt [simplified], rule then_set_account)+
    apply (rule triple_yields)
    apply (simp add: seen_def ended_def result_def one_booking_def Let_def)
    apply blast
    done
qed

lemma deposit_books:
  assumes "connection_laws lib api cfg vw" "deposit_laws api vw (accId acc) m"
    and "accBalance acc = of_cents lib m" "fits_decimal m" "fits_account (accId acc) m t"
  shows "triple (starts vw t acc) (Deposit lib api cfg) (ended vw (deposit_result lib m acc t))
    (\<lambda>f. committed (vw (world f)) \<in> leftovers (deposit_refusal (accId acc) t) (after_booking 2 m m (accId acc) t) t)"
proof -
  let ?i = "accId acc"
  let ?r = "account_row ?i t"
  let ?bal = "dAdd lib (of_cents lib m) (of_cents lib (row_balance ?r))"
  have laws: "session_laws api vw" "connects api cfg" "exact_money lib" "reads_receipt api vw"
    "reads_account api vw (dec_int ?i) ?i True" "moves_money api vw (sql_add (dec_int ?i) (cents_text m)) ?i m"
    "\<And>b. records api vw ?i None (dec_int ?i) (ascii ''null'') 2 m b"
    using assms(1,2) by (simp_all add: connection_laws_def deposit_laws_def)
  have t: "t \<in> leftovers refusal (after_booking 2 m m ?i t) t" for refusal
    by (simp add: leftovers_def after_booking_def split: option.split)
  show ?thesis
    unfolding Deposit_def deposit_result_def Let_def
    apply (rule triple_transaction [OF laws(1,2) refl])
     apply (simp add: after_booking_def)
    apply (rule then_account, rule then_active [OF laws(5)], simp add: t)
     apply (rule triple_refused, simp, simp add: deposit_refusal_def)
    apply (rule then_balance)
    subgoal premises p for v b
    proof -
      have row: "accounts t ?i = Some ?r" "b = row_balance ?r" and b: "open_balance ?i t = Some b"
        using p(2) open_row by simp_all
      note money = exact [OF laws(3)]
      have fits: "fits_decimal b" using assms(5) row by (simp add: fits_account_def)
      show ?thesis
        using triple_booking [OF laws(1,4,6,7) row(1) assms(5) p(1), of "\<lambda>x. dAdd lib x (of_cents lib b)"] fits assms(4)
        by (simp add: deposit_refusal_def leftovers_def b assms(3) money row(2) flip: of_cents_def)
    qed
    done
qed

lemma withdraw_books:
  assumes "connection_laws lib api cfg vw" "withdraw_laws api vw (accId acc) (accPass acc) m"
    and "accBalance acc = of_cents lib m" "fits_decimal m" "fits_account (accId acc) (- m) t"
  shows "triple (starts vw t acc) (WithDraw lib api cfg) (ended vw (withdraw_result lib m acc t))
    (\<lambda>f. committed (vw (world f)) \<in>
      leftovers (withdraw_refusal (accId acc) (accPass acc) m t) (after_booking 3 (- m) m (accId acc) t) t)"
proof -
  let ?i = "accId acc"
  let ?r = "account_row ?i t"
  have laws: "session_laws api vw" "connects api cfg" "exact_money lib" "reads_receipt api vw"
    "reads_account api vw (dec_int ?i) ?i False" "checks_pass api vw (dec_int ?i) ?i (accPass acc) True"
    "moves_money api vw (sql_sub (dec_int ?i) (cents_text m)) ?i (- m)"
    "\<And>b. records api vw ?i None (dec_int ?i) (ascii ''null'') 3 m b"
    using assms(1,2) by (simp_all add: connection_laws_def withdraw_laws_def)
  have t: "t \<in> leftovers refusal (after_booking 3 (- m) m ?i t) t" for refusal
    by (simp add: leftovers_def after_booking_def split: option.split)
  note money = exact [OF laws(3)]
  show ?thesis
    unfolding WithDraw_def withdraw_result_def Let_def
    apply (rule triple_transaction [OF laws(1,2) refl])
     apply (simp add: after_booking_def)
    apply (rule then_account, rule then_active [OF laws(5)], simp add: t)
     apply (rule triple_refused, simp, simp add: withdraw_refusal_def)
    apply (rule then_pass [OF laws(6)], simp add: t)
     apply (rule triple_refused, simp, simp add: withdraw_refusal_def)
    apply (rule then_balance)
    subgoal premises p for v b b'
    proof -
      have row: "accounts t ?i = Some ?r" "b = row_balance ?r" "b' = row_balance ?r"
        and b: "open_balance ?i t = Some b" "pass_balance ?i (accPass acc) t = Some b'"
        using open_row [of ?i t b] pass_row [of ?i "accPass acc" t b'] p(2,3) by simp_all
      have fits: "fits_decimal (row_balance ?r)" using assms(5) row by (simp add: fits_account_def)
      note texts = assms(3) money row(2,3) fits assms(4)
      show ?thesis
      proof (cases "m > row_balance ?r")
        case True
        then have "withdraw_refusal ?i (accPass acc) m t = Some 4" by (simp add: withdraw_refusal_def b row(3))
        moreover have "dGreater lib (accBalance acc) (StringToDouble lib (cents_text b'))"
          using True by (simp add: texts flip: of_cents_def)
        ultimately show ?thesis using p(1) by (simp add: triple_refused)
      next
        case False
        then have "withdraw_refusal ?i (accPass acc) m t = None" by (simp add: withdraw_refusal_def b row(3))
        then show ?thesis
          using triple_booking [OF laws(1,4,7,8) row(1) assms(5) p(1), of "\<lambda>x. dSub lib (of_cents lib b) x"] False
          by (simp add: leftovers_def texts flip: of_cents_def)
      qed
    qed
    done
qed

section \<open>Transfer\<close>

lemma triple_transferring:
  fixes acc :: "'d Account"
  assumes s: "session_laws api vw" and receipts: "reads_receipt api vw"
    and debit: "moves_money api vw sql (accId acc) (- m)" and credit: "moves_money api vw sql2 j m"
    and recs: "records api vw (accId acc) (Some j) ident other 5 m (row_balance (account_row (accId acc) t) - m)"
      "records api vw j (Some (accId acc)) other ident 4 m (row_balance (account_row j t) + m)"
    and row: "accounts t (accId acc) = Some (account_row (accId acc) t)" "accounts t j = Some (account_row j t)"
    and fits: "fits_account (accId acc) (- m) t" "fits_account j m t" and v: "committed v = t"
  shows "triple (seen vw (v\<lparr>working := Some t\<rparr>) acc)
    (and_then (ExecSQL api sql) (\<lambda>_.
     and_then (ExecSQL api sql2) (\<lambda>_.
     and_then (ExecSQL api (sql_trans ident other 5 (cents_text m)
       (cents_text (row_balance (account_row (accId acc) t) - m)))) (\<lambda>_.
     and_then (GetInsertId api) (\<lambda>trans_id.
     and_then (QuerySQL api (sql_receipt (dec_int (ucast trans_id)))) (\<lambda>rs.
     and_then (ExecSQL api (sql_trans other ident 4 (cents_text m)
       (cents_text (row_balance (account_row j t) + m)))) (\<lambda>_.
     and_then (Commit api) (\<lambda>_.
     and_then (set_account (\<lambda>a. a\<lparr>accBalance := new (accBalance a)\<rparr>)) (\<lambda>_.
     and_then (item 0 ''name'' rs) (\<lambda>name.
     and_then (set_account (\<lambda>a. a\<lparr>accName := name\<rparr>)) (\<lambda>_.
     and_then (item 0 ''trans_date'' rs) (\<lambda>date.
     and_then (set_account (\<lambda>a. a\<lparr>accDate := date\<rparr>)) (\<lambda>_.
     yields 0)))))))))))))
    (\<lambda>r f. handle f \<and> ended vw (result None (one_transfer m j (new (accBalance acc)) acc t) {t} acc t) r f)
    (broken vw {t})"
proof -
  let ?r = "account_row (accId acc) t"
  have sum: "fits_decimal (row_balance ?r - m)" using fits(1) row(1) by (simp add: fits_account_def)
  have sum2: "fits_decimal (row_balance r + m)" if "accounts (add_money (accId acc) (- m) t) j = Some r" for r
    using that fits row by (auto simp: fits_account_def add_money_def split: if_splits)
  have receipt: "receipt_row w = [[Some (row_name ?r), Some date]]"
    if "current w = record_trans (lastTrans w) \<lparr>tr_account = accId acc, tr_other = o', tr_kind = k, tr_money = a,
      tr_balance = b, tr_date = date\<rparr> (add_money j m (add_money (accId acc) (- m) t))" for w date o' k a b
    using row unfolding receipt_row_def that by (simp add: record_trans_def add_money_def)
  show ?thesis
    apply (rule then_move [OF debit], simp add: v, simp add: row sum)
    apply (rule then_move [OF credit], simp add: v, simp add: sum2)
    apply (rule then_record_id [OF recs(1)], simp add: v)
    apply (simp add: recorded_def)
    apply (rule then_receipt [OF receipts], simp add: v, simp)
    apply (subst receipt, simp, subst receipt, simp)
    apply (rule then_record_only [OF recs(2)], simp add: v)
    apply (rule then_commit [OF s], simp add: v recorded_def)
    apply (simp add: recorded_def flip: transferred_def)
    apply (rule then_set_account)
    apply (rule then_item, rule item_receipt [simplified], rule then_set_account)+
    apply (rule triple_yields)
    apply (simp add: seen_def ended_def result_def one_transfer_def Let_def split: if_splits)
    apply blast
    done
qed

lemma transfer_books:
  assumes "connection_laws lib api cfg vw" "transfer_laws api vw (accId acc) (accPass acc) m j other" "StringToInt lib other = j"
    and "accBalance acc = of_cents lib m" "fits_decimal m" "fits_account (accId acc) (- m) t" "fits_account j m t"
  shows "triple (starts vw t acc) (Transfer lib api cfg other) (ended vw (transfer_result lib m j acc t))
    (\<lambda>f. committed (vw (world f)) = t)"
proof -
  let ?i = "accId acc"
  let ?r = "account_row ?i t"
  let ?q = "account_row j t"
  have laws: "session_laws api vw" "connects api cfg" "exact_money lib" "reads_receipt api vw"
    "reads_account api vw (dec_int ?i) ?i False" "checks_pass api vw (dec_int ?i) ?i (accPass acc) True"
    "reads_account api vw other j True"
    "moves_money api vw (sql_sub (dec_int ?i) (cents_text m)) ?i (- m)" "moves_money api vw (sql_add other (cents_text m)) j m"
    "\<And>b. records api vw ?i (Some j) (dec_int ?i) (dec_int j) 5 m b"
    "\<And>b. records api vw j (Some ?i) (dec_int j) (dec_int ?i) 4 m b"
    using assms(1,2) by (simp_all add: connection_laws_def transfer_laws_def)
  have same: "leftovers refusal {t} t = {t}" for refusal by (simp add: leftovers_def split: option.split)
  note money = exact [OF laws(3)]
  show ?thesis
    unfolding Transfer_def transfer_result_def Let_def
    apply (rule triple_transaction [OF laws(1,2), where left = "{t}" and left' = "{t}", simplified])
      apply (simp_all add: same)[2]
    apply (rule then_account, rule then_active [OF laws(5)], simp)
     apply (rule triple_refused, simp, simp add: transfer_refusal_def withdraw_refusal_def)
    apply (rule then_pass [OF laws(6)], simp)
     apply (rule triple_refused, simp, simp add: transfer_refusal_def withdraw_refusal_def)
    apply (rule then_balance)
    subgoal premises p for v b b'
    proof -
      have row: "accounts t ?i = Some ?r" "b = row_balance ?r" "b' = row_balance ?r"
        and b: "open_balance ?i t = Some b" "pass_balance ?i (accPass acc) t = Some b'"
        using open_row [of ?i t b] pass_row [of ?i "accPass acc" t b'] p(2,3) by simp_all
      have fits: "fits_decimal (row_balance ?r)" using assms(6) row by (simp add: fits_account_def)
      note texts = assms(4) money row(2,3) fits assms(5)
      show ?thesis
      proof (cases "m > row_balance ?r")
        case True
        then have "transfer_refusal ?i (accPass acc) m j t = Some 4"
          by (simp add: transfer_refusal_def withdraw_refusal_def b row(3))
        moreover have "dGreater lib (accBalance acc) (StringToDouble lib (cents_text b'))"
          using True by (simp add: texts flip: of_cents_def)
        ultimately show ?thesis using p(1) by (simp add: triple_refused)
      next
        case False
        then have enough: "withdraw_refusal ?i (accPass acc) m t = None" by (simp add: withdraw_refusal_def b row(3))
        have "\<not> dGreater lib (accBalance acc) (StringToDouble lib (cents_text b'))"
          using False by (simp add: texts flip: of_cents_def)
        then show ?thesis
          apply (simp only: if_False)
          apply (rule then_active [OF laws(7)], simp add: p)
           apply (rule triple_refused, simp add: p, simp add: transfer_refusal_def enough)
          apply (rule then_balance)
          subgoal premises q for b2
          proof -
            have row2: "accounts t j = Some ?q" "b2 = row_balance ?q" and b2: "open_balance j t = Some b2"
              using open_row [of j t b2] q(2) by simp_all
            then have none: "transfer_refusal ?i (accPass acc) m j t = None"
              using enough by (simp add: transfer_refusal_def)
            have fits2: "fits_decimal (row_balance ?q)" using assms(7) row2 by (simp add: fits_account_def)
            show ?thesis
              using triple_transferring [OF laws(1,4,8,9,10,11) row(1) row2(1) assms(6,7) p(1),
                of "\<lambda>x. dSub lib (of_cents lib b) x"]
              by (simp add: none texts row2(2) fits2 assms(3) flip: of_cents_def)
          qed
          done
      qed
    qed
    done
qed

end
