(* ===== verification/Bank_Sample.thy ===== *)
theory Bank_Sample
  imports Bank_Accounts
begin

text \<open>
  A small MySQL that keeps the books of two customers, for the witnesses: it knows the statements of one transaction and
  rejects all others. Amounts are counted in cents.
\<close>

section \<open>Amounts\<close>

definition cents_of :: "str \<Rightarrow> int" where
  "cents_of s =
     (let n = int (digits_value (filter (\<lambda>c. 48 \<le> c) s)) in if take 1 s = [45] then - n else n)"

definition cents_libs :: "int libs" where
  "cents_libs = \<lparr>cStr = (\<lambda>s. s @ 0 # replicate 16 0), StringToDouble = cents_of, DoubleToString = cents_text,
     rawInt = 7, rawDouble = 9, dAdd = (+), dSub = (-), dGreater = (>), GeneralText = cents_text\<rparr>"

lemma dec_nat_step: "dec_nat n = (if n < 10 then [] else dec_nat (n div 10)) @ [of_nat (48 + n mod 10)]"
  by (subst dec_nat.simps) simp

lemma digit_byte: "n < 10 \<Longrightarrow> (48 :: uchar) \<le> of_nat (48 + n) \<and> unat (of_nat (48 + n) :: uchar) = 48 + n"
  unfolding word_le_nat_alt unat_of_nat by simp

lemma dec_nat_digits: "\<forall>c\<in>set (dec_nat n). 48 \<le> c"
proof (induction n rule: dec_nat.induct)
  case (1 n)
  then show ?case using digit_byte [of "n mod 10"] by (subst dec_nat_step) (auto split: if_splits)
qed

lemma digits_value_append: "digits_value (xs @ ys) = digits_value xs * 10 ^ length ys + digits_value ys"
proof -
  have "foldl (\<lambda>v d. 10 * v + (unat d - 48)) a ys = a * 10 ^ length ys + foldl (\<lambda>v d. 10 * v + (unat d - 48)) 0 ys" for a
  proof (induction ys rule: rev_induct)
    case (snoc y ys)
    then show ?case by (simp add: algebra_simps)
  qed simp
  then show ?thesis unfolding digits_value_def foldl_append .
qed

lemma digits_value_dec: "digits_value (dec_nat n) = n"
proof (induction n rule: dec_nat.induct)
  case (1 n)
  define d :: uchar where "d = of_nat (48 + n mod 10)"
  have one: "digits_value [d] = n mod 10"
    using digit_byte [of "n mod 10"] unfolding d_def [symmetric] by (simp add: digits_value_def)
  show ?case
    unfolding dec_nat_step [of n] d_def [symmetric] digits_value_append one using 1 by (simp add: digits_value_def)
qed

lemma cents_text_parts:
  "cents_text m = (if m < 0 then [45] else []) @ dec_nat (nat \<bar>m\<bar> div 100) @ [46] @
     [of_nat (48 + nat \<bar>m\<bar> mod 100 div 10)] @ [of_nat (48 + nat \<bar>m\<bar> mod 10)]"
proof -
  have "dec_nat d = [of_nat (48 + d)]" if "d < 10" for d using that by (subst dec_nat.simps) simp
  then show ?thesis by (simp add: cents_text_def Let_def)
qed

lemma two_digits: "n div 100 * 100 + n mod 100 div 10 * 10 + n mod 10 = (n :: nat)"
proof -
  have "n mod 100 mod 10 = n mod 10" by (rule mod_mod_cancel) simp
  then show ?thesis using div_mult_mod_eq [of n 100] div_mult_mod_eq [of "n mod 100" 10] by linarith
qed

lemma cents_of_text [simp]: "cents_of (cents_text m) = m"
proof -
  define n where "n = nat \<bar>m\<bar>"
  define a b :: uchar where "a = of_nat (48 + n mod 100 div 10)" and "b = of_nat (48 + n mod 10)"
  define ds where "ds = dec_nat (n div 100)"
  have "n mod 100 div 10 < 10" "n mod 10 < 10" by (simp_all add: div_less_iff_less_mult)
  then have ab: "48 \<le> a" "48 \<le> b" "unat a = 48 + n mod 100 div 10" "unat b = 48 + n mod 10"
    unfolding a_def b_def using digit_byte by blast+
  have ds: "\<forall>c\<in>set ds. 48 \<le> c" "digits_value ds = n div 100"
    using dec_nat_digits by (simp_all add: ds_def digits_value_dec)
  have shown: "cents_text m = (if m < 0 then [45] else []) @ ds @ [46, a, b]"
    by (simp add: cents_text_parts n_def a_def b_def ds_def)
  have pair: "digits_value [a, b] = n mod 100 div 10 * 10 + n mod 10"
    unfolding digits_value_def foldl.simps ab(3,4) by simp
  have "digits_value (ds @ [a, b]) = n"
    unfolding digits_value_append ds(2) pair using two_digits [of n] by simp
  moreover have "filter (\<lambda>c. 48 \<le> c) (cents_text m) = ds @ [a, b]"
    using ds(1) ab(1,2) by (simp add: shown filter_id_conv)
  moreover have "take 1 (cents_text m) = [45] \<longleftrightarrow> m < 0"
    using ds(1) by (cases ds) (auto simp: shown)
  ultimately show ?thesis by (simp add: cents_of_def n_def Let_def)
qed

lemma exact_cents: "exact_money cents_libs"
  by (simp add: exact_money_def of_cents_def cents_libs_def)

section \<open>Statements\<close>

text \<open>The statement with the number \<open>n\<close> is one that begins with the key \<open>n\<close>.\<close>

fun strip :: "str \<Rightarrow> str \<Rightarrow> str option" where
  "strip [] sql = Some sql"
| "strip (c # cs) [] = None"
| "strip (c # cs) (d # ds) = (if c = d then strip cs ds else None)"

fun find_key :: "str list \<Rightarrow> nat \<Rightarrow> str \<Rightarrow> (nat \<times> str) option" where
  "find_key [] n sql = None"
| "find_key (key # keys) n sql =
     (case strip key sql of Some rest \<Rightarrow> Some (n, rest) | None \<Rightarrow> find_key keys (Suc n) sql)"

lemma strip_append:
  "strip key h = Some x \<Longrightarrow> strip key (h @ r) = Some (x @ r)"
  "strip key h = None \<Longrightarrow> strip h key = None \<Longrightarrow> strip key (h @ r) = None"
  by (induction key h rule: strip.induct) (auto split: if_splits)

lemma find_key_append:
  assumes "list_all (\<lambda>key. strip key h \<noteq> None \<or> strip h key = None) keys" "find_key keys n h = Some (k, x)"
  shows "find_key keys n (h @ r) = Some (k, x @ r)"
  using assms by (induction keys arbitrary: n) (auto simp: strip_append split: option.splits)

definition insert_head :: "str \<Rightarrow> str \<Rightarrow> nat \<Rightarrow> str \<Rightarrow> str" where
  "insert_head ident other kind money =
     ascii ''insert into trans values(null, '' @ ident @ ascii '', '' @ other @ ascii '', '' @ dec_nat kind @
     ascii '', '' @ money @ ascii '', ''"

definition receipt_head :: str where
  "receipt_head =
     ascii ''select a.name, b.trans_date from bank_account a, (select account_id, trans_date from trans where trans_id=''"

text \<open>Account 1 has the password 7; 5.00 are withdrawn from it, or transferred to account 2.\<close>

definition sample_keys :: "str list" where
  "sample_keys =
     [insert_head (dec_int 1) (dec_int 2) 5 (cents_text 500), insert_head (dec_int 2) (dec_int 1) 4 (cents_text 500),
      insert_head (dec_int 1) (ascii ''null'') 3 (cents_text 500), receipt_head,
      ascii ''START TRANSACTION'', ascii ''COMMIT'', ascii ''ROLLBACK'',
      sql_active (dec_int 1) False, sql_pass (dec_int 1) [55] True, sql_active [50] True,
      sql_sub (dec_int 1) (cents_text 500), sql_add [50] (cents_text 500)]"

lemma small_texts:
  "dec_int 1 = [49]" "dec_int 2 = [50]" "cents_text 500 = [53, 46, 48, 48]" "dec_nat 3 = [51]" "dec_nat 4 = [52]" "dec_nat 5 = [53]"
  by code_simp+

lemmas sql_texts = small_texts sample_keys_def insert_head_def receipt_head_def sql_active_def sql_pass_def sql_sub_def
  sql_add_def for_update_def ascii_def c_text_def

lemma key_concrete:
  "find_key sample_keys 0 (c_text (ascii ''START TRANSACTION'')) = Some (4, [])"
  "find_key sample_keys 0 (c_text (ascii ''COMMIT'')) = Some (5, [])"
  "find_key sample_keys 0 (c_text (ascii ''ROLLBACK'')) = Some (6, [])"
  "find_key sample_keys 0 (c_text (sql_active (dec_int 1) False)) = Some (7, [])"
  "find_key sample_keys 0 (c_text (sql_pass (dec_int 1) [55] True)) = Some (8, [])"
  "find_key sample_keys 0 (c_text (sql_active [50] True)) = Some (9, [])"
  "find_key sample_keys 0 (c_text (sql_sub (dec_int 1) (cents_text 500))) = Some (10, [])"
  "find_key sample_keys 0 (c_text (sql_add [50] (cents_text 500))) = Some (11, [])"
  by (simp_all add: sql_texts)

lemma no_comma: "44 \<notin> set (cents_text b)"
proof -
  have "44 \<notin> set (dec_nat n)" for n using dec_nat_digits [of n] by fastforce
  then show ?thesis by (simp add: cents_text_def Let_def)
qed

lemma c_text_append: "0 \<notin> set h \<Longrightarrow> c_text (h @ r) = h @ c_text r"
  by (induction h) (auto simp: c_text_def)

definition insert_tail :: str where
  "insert_tail = ascii '',  now());''"

lemma c_text_insert:
  "0 \<notin> set (insert_head ident other kind money) \<Longrightarrow>
   c_text (sql_trans ident other kind money (cents_text b)) = insert_head ident other kind money @ cents_text b @ insert_tail"
  using c_text_id [of insert_tail]
  by (simp add: sql_trans_def insert_tail_def c_text_append [OF cents_text_nonzero] flip: append_assoc)
     (simp add: insert_head_def c_text_append cents_text_nonzero, simp add: c_text_def ascii_def)

lemma key_append:
  assumes "find_key sample_keys 0 h = Some (k, [])"
    and "list_all (\<lambda>key. strip key h \<noteq> None \<or> strip h key = None) sample_keys"
  shows "find_key sample_keys 0 (h @ r) = Some (k, r)"
  using find_key_append [OF assms(2,1)] by simp

lemma key_insert:
  "find_key sample_keys 0 (c_text (sql_trans (dec_int 1) (dec_int 2) 5 (cents_text 500) (cents_text b))) =
     Some (0, cents_text b @ insert_tail)"
  "find_key sample_keys 0 (c_text (sql_trans (dec_int 2) (dec_int 1) 4 (cents_text 500) (cents_text b))) =
     Some (1, cents_text b @ insert_tail)"
  "find_key sample_keys 0 (c_text (sql_trans (dec_int 1) (ascii ''null'') 3 (cents_text 500) (cents_text b))) =
     Some (2, cents_text b @ insert_tail)"
  by (subst c_text_insert, simp add: sql_texts, rule key_append; simp add: sql_texts)+

lemma key_receipt: "\<exists>r. find_key sample_keys 0 (c_text (sql_receipt (dec_int tid))) = Some (3, r)"
proof -
  have "0 \<notin> set receipt_head" by (simp add: sql_texts)
  then have "\<exists>r. c_text (sql_receipt (dec_int tid)) = receipt_head @ r"
    by (simp add: sql_receipt_def c_text_append flip: receipt_head_def)
  moreover have "find_key sample_keys 0 receipt_head = Some (3, [])"
    "list_all (\<lambda>key. strip key receipt_head \<noteq> None \<or> strip receipt_head key = None) sample_keys"
    by (simp_all add: sql_texts)
  ultimately show ?thesis using key_append by fastforce
qed

section \<open>The database\<close>

type_synonym sample_result = "(str list \<times> str option list list) option"

definition sample_insert :: "word32 \<Rightarrow> word32 option \<Rightarrow> nat \<Rightarrow> str \<Rightarrow> view \<Rightarrow> (view \<times> sample_result) option" where
  "sample_insert i other kind rest v =
     (let tid = lastTrans v + 1; b = cents_of (takeWhile (\<lambda>c. c \<noteq> 44) rest)
      in if transactions (current v) tid \<noteq> None then None
         else Some ((put (record_trans tid \<lparr>tr_account = i, tr_other = other, tr_kind = kind, tr_money = 500,
           tr_balance = b, tr_date = ascii ''2015-07-01 10:00:00''\<rparr> (current v)) v)\<lparr>lastTrans := tid\<rparr>, None))"

fun sample_effect :: "nat \<Rightarrow> str \<Rightarrow> view \<Rightarrow> (view \<times> sample_result) option" where
  "sample_effect n rest v =
     (if n = 0 then sample_insert 1 (Some 2) 5 rest v
      else if n = 1 then sample_insert 2 (Some 1) 4 rest v
      else if n = 2 then sample_insert 1 None 3 rest v
      else if n = 3 then Some (v, Some (map ascii [''name'', ''trans_date''], receipt_row v))
      else if n = 4 then Some (v\<lparr>committed := current v, working := Some (current v)\<rparr>, None)
      else if n = 5 then Some (v\<lparr>committed := current v, working := None\<rparr>, None)
      else if n = 6 then Some (v\<lparr>working := None\<rparr>, None)
      else if n = 7 then Some (v, Some (map ascii [''balance''], one_row (open_balance 1 (current v))))
      else if n = 8 then Some (v, Some (map ascii [''balance''], one_row (pass_balance 1 [55] (current v))))
      else if n = 9 then Some (v, Some (map ascii [''balance''], one_row (open_balance 2 (current v))))
      else if n = 10 then Some (put (add_money 1 (- 500) (current v)) v, None)
      else Some (put (add_money 2 500 (current v)) v, None))"

declare sample_effect.simps [simp del]

definition sample_query :: "str \<Rightarrow> view \<times> sample_result \<Rightarrow> bool \<times> view \<times> sample_result" where
  "sample_query sql s =
     (case find_key sample_keys 0 sql of
        None \<Rightarrow> (False, s)
      | Some (n, rest) \<Rightarrow> (case sample_effect n rest (fst s) of None \<Rightarrow> (False, s) | Some s' \<Rightarrow> (True, s')))"

definition sample_mysql :: "(view \<times> sample_result) mysql_api" where
  "sample_mysql =
     \<lparr>mysql_init = (\<lambda>s. (True, s)), mysql_options = (\<lambda>opt s. s),
      mysql_real_connect = (\<lambda>host user passwd db s. (True, (fst s)\<lparr>working := None\<rparr>, None)),
      mysql_query = sample_query, mysql_store_result = (\<lambda>s. (snd s, fst s, None)),
      mysql_affected_rows = (\<lambda>s. 1), mysql_insert_id = (\<lambda>s. ucast (lastTrans (fst s))),
      mysql_close = (\<lambda>s. ((fst s)\<lparr>working := None\<rparr>, None))\<rparr>"

lemma sample_law:
  assumes "find_key sample_keys 0 (c_text sql) = Some (n, rest)"
    and "\<And>v r s'. sample_effect n rest v = Some s' \<Longrightarrow> effect (v, r) s'"
  shows "law sample_mysql fst sql effect"
  using assms by (auto simp: law_def sample_mysql_def sample_query_def stuck_def split: option.splits)

lemma sample_selects:
  assumes "find_key sample_keys 0 (c_text sql) = Some (n, rest)"
    and "\<And>v. sample_effect n rest v = Some (v, Some (map ascii names, found v))"
  shows "selects sample_mysql fst sql names found"
  unfolding selects_def by (rule sample_law [OF assms(1)]) (simp add: assms(2), auto simp: sample_mysql_def)

lemma sample_moves:
  assumes "find_key sample_keys 0 (c_text sql) = Some (n, rest)"
    and "\<And>v. sample_effect n rest v = Some (put (add_money i m (current v)) v, None)"
  shows "moves_money sample_mysql fst sql i m"
  unfolding moves_money_def by (rule sample_law [OF assms(1)]) (use assms(2) in auto)

lemma sample_changes:
  assumes "find_key sample_keys 0 (c_text sql) = Some (n, rest)" "\<And>v. sample_effect n rest v = Some (h v, None)"
  shows "changes sample_mysql fst sql h"
  unfolding changes_def by (rule sample_law [OF assms(1)]) (use assms(2) in auto)

lemma sample_records:
  assumes "find_key sample_keys 0 (c_text (sql_trans ident othertext kind (cents_text 500) (cents_text b))) =
      Some (n, cents_text b @ insert_tail)"
    and "\<And>rest v. sample_effect n rest v = sample_insert i other kind rest v"
  shows "records sample_mysql fst i other ident othertext kind 500 b"
proof -
  have b: "takeWhile (\<lambda>c. c \<noteq> 44) (cents_text b @ insert_tail) = cents_text b"
    using no_comma [of b] by (subst takeWhile_append2) (auto simp: insert_tail_def ascii_def)
  show ?thesis
    unfolding records_def
    by (rule sample_law [OF assms(1)])
      (fastforce simp: assms(2) sample_insert_def Let_def b sample_mysql_def split: if_splits)
qed

section \<open>The laws hold\<close>

definition sample_cfg :: "int server_config" where
  "sample_cfg = \<lparr>dbServerIp = ascii ''127.0.0.1'', dbServerPort = 0, dbUser = ascii ''root'', dbPass = ascii ''123456'',
     dbName = ascii ''bank'', interetRate = 36\<rparr>"

lemma sample_receipt: "reads_receipt sample_mysql fst"
proof -
  have query: "mysql_query sample_mysql (c_text (sql_receipt (dec_int tid))) s =
      (True, fst s, Some (map ascii [''name'', ''trans_date''], receipt_row (fst s)))" for tid s
    using key_receipt [of tid] by (auto simp: sample_mysql_def sample_query_def sample_effect.simps)
  show ?thesis unfolding reads_receipt_def query by (auto simp: sample_mysql_def)
qed

lemma sample_session: "session_laws sample_mysql fst"
  unfolding session_laws_def
  by (intro conjI sample_changes [OF key_concrete(1)] sample_changes [OF key_concrete(2)] sample_changes [OF key_concrete(3)])
    (simp_all add: sample_effect.simps, simp_all add: sample_mysql_def)

lemma sample_connection: "connection_laws cents_libs sample_mysql sample_cfg fst"
  using sample_session exact_cents sample_receipt
  by (simp add: connection_laws_def connects_def) (simp add: sample_mysql_def)

lemmas sample_lookups =
  sample_selects [OF key_concrete(4)] sample_selects [OF key_concrete(5)] sample_selects [OF key_concrete(6)]
  sample_moves [OF key_concrete(7)] sample_moves [OF key_concrete(8)]
  sample_records [OF key_insert(1)] sample_records [OF key_insert(2)] sample_records [OF key_insert(3)]

lemma sample_transfer: "transfer_laws sample_mysql fst 1 [55] 500 2 [50]"
  unfolding transfer_laws_def reads_account_def checks_pass_def
  by (intro conjI allI sample_lookups) (simp_all add: sample_effect.simps)

lemma sample_withdraw: "withdraw_laws sample_mysql fst 1 [55] 500"
  unfolding withdraw_laws_def reads_account_def checks_pass_def
  by (intro conjI allI sample_lookups) (simp_all add: sample_effect.simps)

section \<open>Witnesses\<close>

definition sample_books :: tables where
  "sample_books = \<lparr>accounts = [1 \<mapsto> \<lparr>row_name = [65], row_pass = [55], row_balance = 1000, row_open = True\<rparr>,
       2 \<mapsto> \<lparr>row_name = [66], row_pass = [56], row_balance = 250, row_open = True\<rparr>], transactions = Map.empty\<rparr>"

definition sample_db :: "view \<times> sample_result" where
  "sample_db = (\<lparr>committed = sample_books, working = None, lastTrans = 0\<rparr>, None)"

definition sample_account :: "int Account" where
  "sample_account = (Account_new cents_libs)\<lparr>accId := 1, accPass := [55], accBalance := 500\<rparr>"

end
