(* ===== verification/Bank_Books.thy ===== *)
theory Bank_Books
  imports Bank_Sample
begin

text \<open>
  The service as the commands of the server call it: what each method that moves money does to the committed books on
  every outcome, and what becomes of the process when there is no database.
\<close>

section \<open>Calls of the service\<close>

lemma called_triple:
  assumes "triple (starts vw t acc) m (ended vw R) (\<lambda>f. E (committed (vw (world f))))" "committed (vw db) = t"
  shows "case called m acc i (\<lambda>ret f. (ret, account f)) db of
      None \<Rightarrow> False
    | Some (Inl e, db') \<Rightarrow> E (committed (vw db'))
    | Some (Inr (ret, acc'), db') \<Rightarrow> R ret acc' (committed (vw db'))"
proof -
  let ?f = "\<lparr>handle = False, world = db, account = acc, interest = i, bill = []\<rparr>"
  have "starts vw t acc ?f" using assms(2) by (simp add: starts_def)
  then have "case m ?f of None \<Rightarrow> False | Some (Inr x, g) \<Rightarrow> ended vw R x g | Some (Inl e, g) \<Rightarrow> E (committed (vw (world g)))"
    using assms(1) by (simp add: triple_def)
  then show ?thesis
    by (cases "m ?f"; cases "fst (the (m ?f))") (auto simp: called_def ended_def)
qed

lemma transfer_call:
  assumes "connection_laws lib api cfg vw" "transfer_laws api vw (accId acc) (accPass acc) m j other" "StringToInt lib other = j"
    and "accBalance acc = of_cents lib m" "fits_decimal m"
    and "committed (vw db) = t" "fits_account (accId acc) (- m) t" "fits_account j m t"
  shows "case svcTransfer (BankService lib api cfg) acc other db of
      None \<Rightarrow> False
    | Some (Inl e, db') \<Rightarrow> committed (vw db') = t
    | Some (Inr (ret, acc'), db') \<Rightarrow> transfer_result lib m j acc t ret acc' (committed (vw db'))"
  using called_triple [where E = "\<lambda>c. c = t", OF transfer_books [OF assms(1-5,7,8)] assms(6)]
  by (simp add: BankService_def Let_def)

lemma sample_id: "StringToInt cents_libs [50] = 2"
  by code_simp

lemma sample_transfer_of: "transfer_laws sample_mysql fst (accId sample_account) (accPass sample_account) 500 2 [50]"
  using sample_transfer by (simp add: sample_account_def)

lemma sample_withdraw_of: "withdraw_laws sample_mysql fst (accId sample_account) (accPass sample_account) 500"
  using sample_withdraw by (simp add: sample_account_def)

lemma sample_facts:
  "accBalance sample_account = of_cents cents_libs 500" "fits_decimal 500" "committed (fst sample_db) = sample_books"
  "fits_account (accId sample_account) (- 500) sample_books" "fits_account 2 500 sample_books"
  by (simp_all add: sample_account_def of_cents_def cents_libs_def fits_decimal_def sample_db_def fits_account_def
      sample_books_def)

lemma sample_runs: "\<exists>x db'. svcTransfer (BankService cents_libs sample_mysql sample_cfg) sample_account [50] sample_db = Some (x, db')"
  using transfer_call [OF sample_connection sample_transfer_of sample_id sample_facts(1-5)]
  by (auto split: option.splits prod.splits)





lemma bank_deposit_books:
  assumes "connection_laws lib api cfg vw" "deposit_laws api vw (accId acc) m"
    and "accBalance acc = of_cents lib m" "fits_decimal m" "committed (vw db) = t" "fits_account (accId acc) m t"
  shows "case svcDeposit (BankService lib api cfg) acc db of
      None \<Rightarrow> False
    | Some (Inl e, db') \<Rightarrow>
        committed (vw db') \<in> leftovers (deposit_refusal (accId acc) t) (after_booking 2 m m (accId acc) t) t
    | Some (Inr (ret, acc'), db') \<Rightarrow> deposit_result lib m acc t ret acc' (committed (vw db'))"
  using called_triple [where E = "\<lambda>c. c \<in> leftovers (deposit_refusal (accId acc) t) (after_booking 2 m m (accId acc) t) t", OF deposit_books [OF assms(1-4,6)] assms(5)] by (simp add: BankService_def Let_def)

section \<open>Money\<close>

definition total_money :: "word32 set \<Rightarrow> tables \<Rightarrow> int" where
  "total_money ids t = (\<Sum>i\<in>ids. case accounts t i of None \<Rightarrow> 0 | Some r \<Rightarrow> row_balance r)"

lemma total_add_money:
  assumes "i \<in> ids" "accounts t i \<noteq> None"
  shows "total_money ids (add_money i m t) = total_money ids t + m"
proof -
  have "(\<Sum>k\<in>ids. case accounts (add_money i m t) k of None \<Rightarrow> 0 | Some r \<Rightarrow> row_balance r) =
      (\<Sum>k\<in>ids. (case accounts t k of None \<Rightarrow> 0 | Some r \<Rightarrow> row_balance r) + (if k = i then m else 0))"
    using assms(2) by (intro sum.cong) (auto simp: add_money_def)
  then show ?thesis using assms(1) by (simp add: total_money_def sum.distrib)
qed

lemma total_record [simp]: "total_money ids (record_trans tid r t) = total_money ids t"
  by (simp add: total_money_def record_trans_def)



section \<open>Failures of the database\<close>

text \<open>A rollback that succeeds throws out of the handler.\<close>

lemma rollback_throws:
  assumes "handle f" "mysql_query api (c_text (ascii ''ROLLBACK'')) (world f) = (True, w)"
  shows "rolled_back api f = Some (Inl DbError, f\<lparr>world := w\<rparr>)"
  using assms by (simp add: rolled_back_def Rollback_def and_then_def run_query_def throw_def)

definition unreachable :: "'s mysql_api \<Rightarrow> 'd server_config \<Rightarrow> bool" where
  "unreachable api cfg \<longleftrightarrow>
     (\<forall>s. \<not> fst (mysql_real_connect api (c_text (dbServerIp cfg)) (c_text (dbUser cfg)) (c_text (dbPass cfg))
        (c_text (dbName cfg)) s))"

lemma open_fails:
  assumes "unreachable api cfg"
  shows "\<exists>g. open_db api cfg f = Some (Inl DbError, g) \<and> \<not> handle g \<and> account g = account f \<and> interest g = interest f \<and>
    bill g = bill f"
proof -
  obtain made w where init: "mysql_init api (world f) = (made, w)" by (cases "mysql_init api (world f)")
  let ?w = "mysql_options api (MYSQL_SET_CHARSET_NAME (ascii ''gbk'')) (mysql_options api (MYSQL_OPT_RECONNECT True) w)"
  obtain w' where "mysql_real_connect api (c_text (dbServerIp cfg)) (c_text (dbUser cfg)) (c_text (dbPass cfg))
      (c_text (dbName cfg)) ?w = (False, w')"
    using assms unfolding unreachable_def by (metis (full_types) prod.collapse)
  then show ?thesis
    by (cases made) (simp_all add: open_db_def db_Open_def init Let_def and_then_def db_Close_def throw_def)
qed

lemma rolled_back_unopened:
  "unreachable api cfg \<Longrightarrow> with_db api (try_catch (and_then (open_db api cfg) k) (rolled_back api)) f = None"
  using open_fails [of api cfg "f\<lparr>handle := False\<rparr>"]
  by (auto simp: with_db_def try_catch_def and_then_def rolled_back_def Rollback_def run_query_def)

lemma failed_unopened:
  "unreachable api cfg \<Longrightarrow> \<exists>g. with_db api (try_catch (and_then (open_db api cfg) k) failed) f = Some (Inr (- 1), g) \<and>
    account g = account f \<and> interest g = interest f \<and> bill g = bill f"
  using open_fails [of api cfg "f\<lparr>handle := False\<rparr>"]
  by (auto simp: with_db_def try_catch_def and_then_def failed_def yields_def db_Close_def)


definition no_mysql :: "(view \<times> sample_result) mysql_api" where
  "no_mysql = sample_mysql\<lparr>mysql_real_connect := \<lambda>host user passwd db s. (False, s)\<rparr>"


end
